(* ===== verification/Sarun_Prelude.thy ===== *)
theory Sarun_Prelude
  imports Main "HOL-Library.Word" "HOL-Library.List_Lexorder"
begin

unbundle bit_operations_syntax

text \<open>
  Shared vocabulary of the development: bytes and machine words, the result type of fallible
  Rust functions, checked \<open>usize\<close> arithmetic, and the ordered maps that stand for Rust's
  \<open>BTreeMap\<close>, with the interface its clients rely on as the locale \<open>ordered_map\<close>.
\<close>

section \<open>Bytes and machine words\<close>

type_synonym u8 = "8 word"
type_synonym u16 = "16 word"
type_synonym u32 = "32 word"
type_synonym u64 = "64 word"
type_synonym bytes = "8 word list"

lemma ucast_u8_u64 [simp]: "ucast (ucast (b :: u8) :: u64) = b"
  by (rule ucast_up_ucast_id) (simp add: is_up)

lemma unat_u8_u64 [simp]: "unat (ucast (b :: u8) :: u64) = unat b"
  using unsigned_less [of b, where ?'a = nat] by (simp add: unsigned_ucast_eq take_bit_nat_eq_self_iff)

lemma unat_u8_le: "unat (b :: u8) \<le> 255"
  using unsigned_less [of b, where ?'a = nat] by simp

named_theorems res_simps
named_theorems bt_simps

section \<open>Results: \<open>Result<T, E>\<close> and the question-mark operator\<close>

text \<open>\<open>Inl\<close> is \<open>Err\<close>, \<open>Inr\<close> is \<open>Ok\<close>; \<open>res_bind\<close> is the early return of \<open>?\<close>.\<close>

definition res_bind :: "'e + 'a \<Rightarrow> ('a \<Rightarrow> 'e + 'b) \<Rightarrow> 'e + 'b" where
  "res_bind r f = (case r of Inl e \<Rightarrow> Inl e | Inr x \<Rightarrow> f x)"

lemma res_bind_Inl [simp]: "res_bind (Inl e) f = Inl e"
  by (simp add: res_bind_def)

lemma res_bind_Inr [simp]: "res_bind (Inr x) f = f x"
  by (simp add: res_bind_def)

lemma res_bind_eq_Inr [res_simps]:
  "res_bind r f = Inr y \<longleftrightarrow> (\<exists>x. r = Inr x \<and> f x = Inr y)"
  by (cases r) auto

lemma res_bind_eq_Inl [res_simps]:
  "res_bind r f = Inl e \<longleftrightarrow> r = Inl e \<or> (\<exists>x. r = Inr x \<and> f x = Inl e)"
  by (cases r) auto

lemma res_bind_cong [fundef_cong]:
  "r = r' \<Longrightarrow> (\<And>x. r' = Inr x \<Longrightarrow> f x = g x) \<Longrightarrow> res_bind r f = res_bind r' g"
  by (cases r') auto

lemma res_bind_assoc: "res_bind (res_bind r f) g = res_bind r (\<lambda>x. res_bind (f x) g)"
  by (cases r) auto

section \<open>Checked \<open>usize\<close> arithmetic\<close>

definition checked_add :: "nat \<Rightarrow> nat \<Rightarrow> nat option" where
  "checked_add a b = (if a + b < 2 ^ 64 then Some (a + b) else None)"

text \<open>\<open>a << s\<close> on a 64-bit \<open>usize\<close>: bits shifted out are lost.\<close>

definition usize_shl :: "nat \<Rightarrow> nat \<Rightarrow> nat" where
  "usize_shl a s = (a * 2 ^ s) mod 2 ^ 64"

lemma checked_add_Some [simp]: "a + b < 2 ^ 64 \<Longrightarrow> checked_add a b = Some (a + b)"
  by (simp add: checked_add_def)

section \<open>Ordered maps: \<open>BTreeMap\<close>\<close>

text \<open>
  A \<open>BTreeMap<K, V>\<close> is its in-order list of entries. Keys ascend strictly, so two maps are
  equal as Rust values exactly when the lists are equal (\<open>bt_ext\<close>), and iteration in key order
  is iteration over the list.
\<close>

type_synonym ('k, 'v) btree = "('k \<times> 'v) list"

definition bt_wf :: "('k::linorder, 'v) btree \<Rightarrow> bool" where
  "bt_wf m \<longleftrightarrow> sorted_wrt (<) (map fst m)"

fun bt_insert :: "'k::linorder \<Rightarrow> 'v \<Rightarrow> ('k, 'v) btree \<Rightarrow> ('k, 'v) btree" where
  "bt_insert k v [] = [(k, v)]"
| "bt_insert k v ((k', v') # m) =
     (if k < k' then (k, v) # (k', v') # m
      else if k = k' then (k, v) # m
      else (k', v') # bt_insert k v m)"

fun bt_remove :: "'k::linorder \<Rightarrow> ('k, 'v) btree \<Rightarrow> ('k, 'v) btree" where
  "bt_remove k [] = []"
| "bt_remove k ((k', v') # m) = (if k = k' then m else (k', v') # bt_remove k m)"

fun bt_get :: "('k, 'v) btree \<Rightarrow> 'k \<Rightarrow> 'v option" where
  "bt_get [] k = None"
| "bt_get ((k', v) # m) k = (if k = k' then Some v else bt_get m k)"

definition bt_contains :: "('k, 'v) btree \<Rightarrow> 'k \<Rightarrow> bool" where
  "bt_contains m k \<longleftrightarrow> bt_get m k \<noteq> None"

lemma bt_wf_Nil [simp]: "bt_wf []"
  by (simp add: bt_wf_def)

lemma bt_wf_Cons [simp]:
  "bt_wf ((k, v) # m) \<longleftrightarrow> (\<forall>x \<in> set m. k < fst x) \<and> bt_wf m"
  by (auto simp: bt_wf_def)

lemma bt_get_map_of: "bt_get m = map_of m"
proof
  fix k show "bt_get m k = map_of m k" by (induction m k rule: bt_get.induct) auto
qed

lemma bt_get_Some_in: "bt_get m k = Some v \<Longrightarrow> (k, v) \<in> set m"
  by (induction m k rule: bt_get.induct) (auto split: if_splits)

lemma bt_get_None_iff: "bt_get m k = None \<longleftrightarrow> k \<notin> fst ` set m"
  by (induction m k rule: bt_get.induct) auto

lemma bt_contains_iff: "bt_contains m k \<longleftrightarrow> k \<in> fst ` set m"
  by (simp add: bt_contains_def bt_get_None_iff)

lemma bt_in_get: "bt_wf m \<Longrightarrow> (k, v) \<in> set m \<Longrightarrow> bt_get m k = Some v"
proof (induction m)
  case (Cons p m)
  then show ?case by (cases p) force
qed simp

lemma bt_get_insert [simp]: "bt_get (bt_insert k v m) k' = (if k' = k then Some v else bt_get m k')"
  by (induction k v m rule: bt_insert.induct) auto

lemma bt_keys_insert [simp]: "fst ` set (bt_insert k v m) = insert k (fst ` set m)"
  by (induction k v m rule: bt_insert.induct) auto

lemma bt_wf_insert [simp]: "bt_wf m \<Longrightarrow> bt_wf (bt_insert k v m)"
proof (induction k v m rule: bt_insert.induct)
  case (2 k v k' v' m)
  have "k' < fst x" if "k' < k" and x: "x \<in> set (bt_insert k v m)" for x
  proof -
    from x have "fst x \<in> insert k (fst ` set m)" unfolding bt_keys_insert [of k v m, symmetric] by (rule imageI)
    with 2 that show ?thesis by auto
  qed
  with 2 show ?case by (cases k k' rule: linorder_cases) auto
qed simp

lemma bt_get_remove [simp]:
  "bt_wf m \<Longrightarrow> bt_get (bt_remove k m) k' = (if k' = k then None else bt_get m k')"
proof (induction k m rule: bt_remove.induct)
  case (2 k k'' v m)
  then have "bt_get m k'' = None" by (auto simp: bt_get_None_iff)
  with 2 show ?case by auto
qed simp

lemma bt_keys_remove: "bt_wf m \<Longrightarrow> fst ` set (bt_remove k m) = fst ` set m - {k}"
  by (induction k m rule: bt_remove.induct) force+

lemma bt_set_remove: "set (bt_remove k m) \<subseteq> set m"
  by (induction k m rule: bt_remove.induct) auto

lemma bt_wf_remove [simp]: "bt_wf m \<Longrightarrow> bt_wf (bt_remove k m)"
proof (induction k m rule: bt_remove.induct)
  case (2 k k' v' m)
  then show ?case using bt_set_remove [of k m] by (auto; force)
qed simp

lemma bt_ext:
  assumes "bt_wf m" and "bt_wf m'" and "\<And>k. bt_get m k = bt_get m' k"
  shows "m = m'"
  using assms
proof (induction m arbitrary: m')
  case Nil
  show ?case
  proof (cases m')
    case (Cons p m'')
    with Nil.prems(3) [of "fst p"] show ?thesis by (cases p) auto
  qed simp
next
  case (Cons p m)
  obtain k v where p: "p = (k, v)" by fastforce
  have "bt_get m' k = Some v" using Cons.prems(3) [of k] p by simp
  then obtain k' v' n where m': "m' = (k', v') # n" by (cases m') auto
  have "k' = k"
  proof (rule ccontr)
    assume neq: "k' \<noteq> k"
    have "k' \<in> fst ` set (p # m)" using Cons.prems(3) [of k'] m' bt_get_None_iff [of "p # m" k'] by simp
    moreover have "k \<in> fst ` set n"
      using \<open>bt_get m' k = Some v\<close> m' neq bt_get_None_iff [of n k] by auto
    ultimately show False using Cons.prems(1,2) p m' neq by fastforce
  qed
  moreover have "v' = v" using \<open>bt_get m' k = Some v\<close> m' \<open>k' = k\<close> by simp
  moreover have "m = n"
  proof (rule Cons.IH)
    show "bt_wf m" "bt_wf n" using Cons.prems(1,2) p m' by auto
    fix x show "bt_get m x = bt_get n x"
    proof (cases "x = k")
      case True
      have "bt_get m k = None" "bt_get n k = None"
        using Cons.prems(1,2) p m' \<open>k' = k\<close> by (auto simp: bt_get_None_iff)
      with True show ?thesis by simp
    next
      case False
      with Cons.prems(3) [of x] p m' \<open>k' = k\<close> show ?thesis by simp
    qed
  qed
  ultimately show ?case using p m' by simp
qed

text \<open>Inserting above every key present appends, which is what a decoder that reads ascending
  keys relies on.\<close>

lemma bt_insert_greatest: "\<forall>x \<in> fst ` set m. x < k \<Longrightarrow> bt_insert k v m = m @ [(k, v)]"
  by (induction k v m rule: bt_insert.induct) auto

lemma bt_wf_append:
  "bt_wf (m @ n) \<longleftrightarrow> bt_wf m \<and> bt_wf n \<and> (\<forall>x \<in> fst ` set m. \<forall>y \<in> fst ` set n. x < y)"
  by (induction m) force+

lemma bt_wf_map_snd [simp]: "bt_wf (map (\<lambda>(k, v). (k, f k v)) m) \<longleftrightarrow> bt_wf m"
proof -
  have "map (fst \<circ> (\<lambda>(k, v). (k, f k v))) m = map fst m" by (rule map_cong) auto
  then show ?thesis by (simp only: bt_wf_def map_map)
qed

lemma bt_wf_filter: "bt_wf m \<Longrightarrow> bt_wf (filter P m)"
  by (induction m) auto

lemma bt_get_filter_key: "bt_get (filter (\<lambda>(k, v). P k) m) x = (if P x then bt_get m x else None)"
  by (induction m) auto

text \<open>What a client of an ordered map may use, and what it derives from it.\<close>

lemma list_all_bt_insert: "list_all (\<lambda>(_, c). P c) m \<Longrightarrow> P v \<Longrightarrow> list_all (\<lambda>(_, c). P c) (bt_insert k v m)"
  by (induction m) (auto split: if_splits)

lemma list_all_bt_remove: "list_all P m \<Longrightarrow> list_all P (bt_remove k m)"
  using bt_set_remove [of k m] by (auto simp: list_all_iff)

locale ordered_map =
  fixes mempty :: "'m" and minsert :: "'k::linorder \<Rightarrow> 'v \<Rightarrow> 'm \<Rightarrow> 'm"
    and mremove :: "'k \<Rightarrow> 'm \<Rightarrow> 'm" and mget :: "'m \<Rightarrow> 'k \<Rightarrow> 'v option"
    and mentries :: "'m \<Rightarrow> ('k \<times> 'v) list" and minv :: "'m \<Rightarrow> bool"
  assumes inv_empty: "minv mempty"
    and inv_insert: "minv m \<Longrightarrow> minv (minsert k v m)"
    and inv_remove: "minv m \<Longrightarrow> minv (mremove k m)"
    and get_empty: "mget mempty k = None"
    and get_insert: "minv m \<Longrightarrow> mget (minsert k v m) k' = (if k' = k then Some v else mget m k')"
    and get_remove: "minv m \<Longrightarrow> mget (mremove k m) k' = (if k' = k then None else mget m k')"
    and entries_sorted: "minv m \<Longrightarrow> sorted_wrt (<) (map fst (mentries m))"
    and entries_get: "minv m \<Longrightarrow> (k, v) \<in> set (mentries m) \<longleftrightarrow> mget m k = Some v"
begin

lemma insert_shadows:
  "minv m \<Longrightarrow> mget (minsert k v (minsert k w m)) x = mget (minsert k v m) x"
  by (simp add: get_insert inv_insert)

lemma insert_commutes:
  "minv m \<Longrightarrow> k \<noteq> l \<Longrightarrow> mget (minsert k v (minsert l w m)) x = mget (minsert l w (minsert k v m)) x"
  by (simp add: get_insert inv_insert)

lemma remove_insert:
  "minv m \<Longrightarrow> mget m k = None \<Longrightarrow> mget (mremove k (minsert k v m)) x = mget m x"
  by (simp add: get_insert get_remove inv_insert)

lemma entries_distinct: "minv m \<Longrightarrow> distinct (map fst (mentries m))"
  using entries_sorted strict_sorted_iff by blast

end

interpretation bt: ordered_map "[]" bt_insert bt_remove bt_get "\<lambda>m. m" bt_wf
proof (unfold_locales, goal_cases)
  case (7 m)
  then show ?case by (simp add: bt_wf_def)
next
  case (8 m k v)
  then show ?case using bt_in_get bt_get_Some_in by fast
qed simp_all

end
