(* ===== verification/Wire.thy ===== *)
theory Wire
  imports Sarun_Prelude
begin

text \<open>
  The atom format of \<open>engine/src/wire.rs\<close>: one byte below \<open>0xc0\<close> is its own payload, up to 55
  bytes carry an inline length, longer payloads a little-endian length of at most seven bytes.
  The theory models the writers (\<open>put_atom\<close>, \<open>put_u64\<close>, \<open>put_i64\<close>, \<open>put_many\<close>,
  \<open>put_compound_payload\<close>), the readers, and the trait \<open>WireValue\<close> with its implementations; the
  trait's contract is the locale \<open>wire_value\<close>. A writer takes the output so far and returns it
  extended; a reader returns the value and the rest of its input.
\<close>

section \<open>Definitions\<close>

datatype wire_error =
    Truncated | LengthOverflow | TooLarge | IntegerTooWide | IntegerOutOfRange
  | InvalidValue | InvalidUtf8 | TrailingFields | TooFewItems | TooManyItems
  | ExpectPanic \<comment> \<open>the panic of an \<open>expect\<close>; \<open>put_u64_ok\<close> shows it is never reached\<close>

fun length_bytes :: "nat \<Rightarrow> nat" where
  "length_bytes len = (if len = 0 then 0 else Suc (length_bytes (len div 256)))"

declare length_bytes.simps [simp del]

definition encoded_len :: "bytes \<Rightarrow> wire_error + nat" where
  "encoded_len payload =
     (let len = length payload in
      if len = 1 \<and> payload ! 0 < 0xc0 then Inr 1
      else if len \<le> 55 then Inr (1 + len)
      else let n = length_bytes len in
        if n > 7 then Inl LengthOverflow
        else case Option.bind (checked_add 1 n) (\<lambda>prefix. checked_add prefix len) of
            None \<Rightarrow> Inl LengthOverflow
          | Some n' \<Rightarrow> Inr n')"

definition put_length_prefix :: "bytes \<Rightarrow> nat \<Rightarrow> u8 option \<Rightarrow> bytes" where
  "put_length_prefix output len allow_self_byte =
     (if (case allow_self_byte of Some byte \<Rightarrow> len = 1 \<and> byte < 0xc0 | None \<Rightarrow> False)
      then output @ [the allow_self_byte]
      else if len \<le> 55 then output @ [0xc0 + of_nat len]
      else let n = length_bytes len in
        output @ [0xf8 + of_nat n] @ map (\<lambda>shift. of_nat (len div 2 ^ (shift * 8))) [0..<n])"

definition first_byte :: "bytes \<Rightarrow> u8 option" where
  "first_byte payload = (case payload of [] \<Rightarrow> None | b # _ \<Rightarrow> Some b)"

definition put_atom :: "bytes \<Rightarrow> bytes \<Rightarrow> wire_error + bytes" where
  "put_atom output payload =
     res_bind (encoded_len payload) (\<lambda>_.
       let output' = put_length_prefix output (length payload) (first_byte payload) in
       Inr (if length payload = 1 \<and> payload ! 0 < 0xc0 then output' else output' @ payload))"

text \<open>The little-endian bytes of a value without leading zero bytes (the loop of \<open>put_u64\<close>).\<close>

function u64_le_bytes :: "u64 \<Rightarrow> bytes" where
  "u64_le_bytes v = (if v = 0 then [] else ucast v # u64_le_bytes (drop_bit 8 v))"
  by pat_completeness auto
termination
proof (relation "measure unat")
  fix v :: u64
  assume "v \<noteq> 0"
  then have "0 < unat v" by (simp add: unat_gt_0)
  moreover have "unat (drop_bit 8 v) = unat v div 256"
    by (simp add: drop_bit_eq_div unat_div)
  ultimately show "(drop_bit 8 v, v) \<in> measure unat" by simp
qed simp

declare u64_le_bytes.simps [simp del]

definition put_u64 :: "bytes \<Rightarrow> u64 \<Rightarrow> wire_error + bytes" where
  "put_u64 output v =
     (case put_atom output (u64_le_bytes v) of Inl _ \<Rightarrow> Inl ExpectPanic | Inr out \<Rightarrow> Inr out)"

text \<open>An \<open>i64\<close> is a 64-bit word read in two's complement.\<close>

definition put_i64 :: "bytes \<Rightarrow> u64 \<Rightarrow> wire_error + bytes" where
  "put_i64 output v = put_u64 output (push_bit 1 v XOR signed_drop_bit 63 v)"

fun sum_encoded_len :: "nat \<Rightarrow> bytes list \<Rightarrow> wire_error + nat" where
  "sum_encoded_len sofar [] = Inr sofar"
| "sum_encoded_len sofar (field # fields) =
     res_bind (encoded_len field) (\<lambda>n.
       case checked_add sofar n of
         None \<Rightarrow> Inl LengthOverflow
       | Some sofar' \<Rightarrow> sum_encoded_len sofar' fields)"

fun put_atoms :: "bytes \<Rightarrow> bytes list \<Rightarrow> wire_error + bytes" where
  "put_atoms output [] = Inr output"
| "put_atoms output (field # fields) =
     res_bind (put_atom output field) (\<lambda>output'. put_atoms output' fields)"

definition put_many :: "bytes \<Rightarrow> bytes list \<Rightarrow> wire_error + bytes" where
  "put_many output fields =
     res_bind (sum_encoded_len 0 fields) (\<lambda>payload_length.
       if length_bytes payload_length > 7 then Inl LengthOverflow
       else put_atoms (put_length_prefix output payload_length None) fields)"

definition put_compound_payload :: "bytes \<Rightarrow> bytes \<Rightarrow> wire_error + bytes" where
  "put_compound_payload output encoded_fields =
     (if length_bytes (length encoded_fields) > 7 then Inl LengthOverflow
      else Inr (put_length_prefix output (length encoded_fields) None @ encoded_fields))"

fun read_length :: "nat \<Rightarrow> nat \<Rightarrow> bytes \<Rightarrow> wire_error + nat" where
  "read_length index len [] = Inr len"
| "read_length index len (byte # rest) =
     (case checked_add len (usize_shl (unat byte) (index * 8)) of
        None \<Rightarrow> Inl LengthOverflow
      | Some len' \<Rightarrow> read_length (Suc index) len' rest)"

definition get_atom :: "bytes \<Rightarrow> nat \<Rightarrow> wire_error + (bytes \<times> bytes)" where
  "get_atom source maximum_length =
     (case source of
        [] \<Rightarrow> Inl Truncated
      | tag # _ \<Rightarrow>
          res_bind
            (if tag < 0xc0 then Inr (0, 1, True)
             else if tag < 0xf8 then Inr (1, unat (tag - 0xc0), False)
             else let n = unat (tag - 0xf8) in
               if length source < 1 + n then Inl Truncated
               else res_bind (read_length 0 0 (take n (drop 1 source)))
                      (\<lambda>len. Inr (1 + n, len, False)))
            (\<lambda>(prefix, len, self_byte).
               if len > maximum_length then Inl TooLarge
               else if self_byte then Inr (take 1 source, drop 1 source)
               else case checked_add prefix len of
                   None \<Rightarrow> Inl LengthOverflow
                 | Some e \<Rightarrow>
                     if length source < e then Inl Truncated
                     else Inr (drop prefix (take e source), drop e source)))"

definition u64_from_payload :: "bytes \<Rightarrow> wire_error + u64" where
  "u64_from_payload payload =
     (if length payload > 8 then Inl IntegerTooWide
      else Inr (fold (\<lambda>(index, byte) v. v OR push_bit (index * 8) (ucast byte))
                  (enumerate 0 payload) 0))"

definition get_u64 :: "bytes \<Rightarrow> wire_error + (u64 \<times> bytes)" where
  "get_u64 input =
     res_bind (get_atom input 8) (\<lambda>(payload, rest).
       res_bind (u64_from_payload payload) (\<lambda>v. Inr (v, rest)))"

definition get_i64 :: "bytes \<Rightarrow> wire_error + (u64 \<times> bytes)" where
  "get_i64 input =
     res_bind (get_u64 input) (\<lambda>(v, rest). Inr (drop_bit 1 v XOR - (v AND 1), rest))"

definition require_empty :: "bytes \<Rightarrow> wire_error + unit" where
  "require_empty input = (if input = [] then Inr () else Inl TrailingFields)"

definition check_item_count :: "nat \<Rightarrow> nat \<Rightarrow> nat \<Rightarrow> wire_error + unit" where
  "check_item_count minimum maximum count =
     (if count < minimum then Inl TooFewItems
      else if count > maximum then Inl TooManyItems
      else Inr ())"

section \<open>Reading back an atom\<close>

lemma length_bytes_0 [simp]: "length_bytes 0 = 0"
  by (simp add: length_bytes.simps)

lemma length_bytes_pos: "0 < n \<Longrightarrow> length_bytes n = Suc (length_bytes (n div 256))"
  by (simp add: length_bytes.simps)

lemma length_bytes_le_iff: "length_bytes n \<le> k \<longleftrightarrow> n < 256 ^ k"
proof (induction k arbitrary: n)
  case 0
  then show ?case by (cases "n = 0") (auto simp: length_bytes_pos)
next
  case (Suc k)
  show ?case
  proof (cases "n = 0")
    case False
    then have "length_bytes n \<le> Suc k \<longleftrightarrow> n div 256 < 256 ^ k"
      by (simp add: length_bytes_pos Suc.IH)
    also have "\<dots> \<longleftrightarrow> n < 256 ^ Suc k"
      by (simp add: div_less_iff_less_mult mult.commute)
    finally show ?thesis .
  qed simp
qed

text \<open>The little-endian length bytes, as a list that peels one byte at a time.\<close>

fun le_len :: "nat \<Rightarrow> nat \<Rightarrow> bytes" where
  "le_len 0 n = []"
| "le_len (Suc k) n = of_nat n # le_len k (n div 256)"

lemma length_le_len [simp]: "length (le_len k n) = k"
  by (induction k n rule: le_len.induct) auto

lemma map_shift_le_len: "map (\<lambda>shift. of_nat (n div 2 ^ (shift * 8)) :: u8) [0..<k] = le_len k n"
proof (induction k arbitrary: n)
  case (Suc k)
  have "[0..<Suc k] = 0 # map Suc [0..<k]" by (simp add: upt_conv_Cons map_Suc_upt del: upt_Suc)
  moreover have "n div 2 ^ (Suc s * 8) = n div 256 div 2 ^ (s * 8)" for s
    by (simp add: power_add div_mult2_eq)
  ultimately show ?case using Suc [of "n div 256"] by (simp add: comp_def del: upt_Suc)
qed simp

lemma read_length_le_len:
  assumes "n < 256 ^ k" and "j + k \<le> 7" and "acc < 256 ^ j"
  shows "read_length j acc (le_len k n) = Inr (acc + n * 256 ^ j)"
  using assms
proof (induction k arbitrary: j acc n)
  case 0
  then show ?case by simp
next
  case (Suc k)
  have j: "j \<le> 6" using Suc.prems(2) by simp
  have bound: "(256::nat) ^ Suc j \<le> 256 ^ 7" by (rule power_increasing) (use j in auto)
  have b: "(n mod 256) * 256 ^ j + acc < 256 ^ Suc j"
  proof -
    have "(n mod 256) * 256 ^ j + acc < (n mod 256) * 256 ^ j + 256 ^ j"
      using Suc.prems(3) by simp
    also have "\<dots> = Suc (n mod 256) * 256 ^ j" by simp
    also have "\<dots> \<le> 256 * 256 ^ j" by (rule mult_le_mono1) (simp add: Suc_leI)
    finally show ?thesis by simp
  qed
  have p: "(2::nat) ^ (j * 8) = 256 ^ j"
    using power_mult [of "2::nat" 8 j] by (simp add: mult.commute)
  have shl: "usize_shl (unat (of_nat n :: u8)) (j * 8) = (n mod 256) * 256 ^ j"
  proof -
    have "(n mod 256) * 256 ^ j < 2 ^ 64" using b bound by simp
    then show ?thesis by (simp add: usize_shl_def p unat_of_nat take_bit_eq_mod)
  qed
  have "acc + (n mod 256) * 256 ^ j < 2 ^ 64" using b bound by simp
  then have "read_length j acc (le_len (Suc k) n)
      = read_length (Suc j) (acc + (n mod 256) * 256 ^ j) (le_len k (n div 256))"
    by (simp add: shl checked_add_def)
  also have "\<dots> = Inr (acc + (n mod 256) * 256 ^ j + (n div 256) * 256 ^ Suc j)"
    by (rule Suc.IH) (use Suc.prems b in \<open>auto simp: div_less_iff_less_mult mult.commute\<close>)
  also have "acc + (n mod 256) * 256 ^ j + (n div 256) * 256 ^ Suc j = acc + n * 256 ^ j"
  proof -
    have "n * 256 ^ j = (n mod 256 + 256 * (n div 256)) * 256 ^ j" by simp
    also have "\<dots> = (n mod 256) * 256 ^ j + (n div 256) * 256 ^ Suc j"
      by (simp only: distrib_left distrib_right power_Suc ac_simps)
    finally show ?thesis by simp
  qed
  finally show ?case .
qed

text \<open>The bytes an explicit length prefix consists of, and the encoding of a whole atom.\<close>

definition len_prefix :: "nat \<Rightarrow> bytes" where
  "len_prefix n =
     (if n \<le> 55 then [0xc0 + of_nat n]
      else (0xf8 + of_nat (length_bytes n)) # le_len (length_bytes n) n)"

definition enc_atom :: "bytes \<Rightarrow> bytes" where
  "enc_atom payload =
     (if length payload = 1 \<and> payload ! 0 < 0xc0 then payload
      else len_prefix (length payload) @ payload)"

lemma put_length_prefix_None: "put_length_prefix output n None = output @ len_prefix n"
  by (simp add: put_length_prefix_def len_prefix_def map_shift_le_len Let_def)

lemma length_bytes_7: "n < 2 ^ 56 \<Longrightarrow> length_bytes n \<le> 7"
  by (simp add: length_bytes_le_iff)

lemma encoded_len_eq: "length payload < 2 ^ 56 \<Longrightarrow> encoded_len payload = Inr (length (enc_atom payload))"
  using length_bytes_7 [of "length payload"]
  by (auto simp: encoded_len_def enc_atom_def len_prefix_def Let_def checked_add_def)

lemma encoded_len_overflow: "2 ^ 56 \<le> length payload \<Longrightarrow> encoded_len payload = Inl LengthOverflow"
  using length_bytes_le_iff [of "length payload" 7]
  by (auto simp: encoded_len_def Let_def)

lemma put_atom_eq: "length payload < 2 ^ 56 \<Longrightarrow> put_atom output payload = Inr (output @ enc_atom payload)"
proof -
  assume l: "length payload < 2 ^ 56"
  have "put_length_prefix output (length payload) (first_byte payload)
      = output @ (if length payload = 1 \<and> payload ! 0 < 0xc0 then payload else len_prefix (length payload))"
    by (auto simp: put_length_prefix_def first_byte_def len_prefix_def map_shift_le_len Let_def
        length_Suc_conv split: list.splits)
  then show ?thesis by (simp add: put_atom_def encoded_len_eq [OF l] enc_atom_def Let_def)
qed

lemma put_atom_overflow: "2 ^ 56 \<le> length payload \<Longrightarrow> put_atom output payload = Inl LengthOverflow"
  by (simp add: put_atom_def encoded_len_overflow)

lemma unat_inline_tag: "n \<le> 55 \<Longrightarrow> unat (0xc0 + of_nat n :: u8) = 192 + n"
  by (simp add: unat_word_ariths unat_of_nat)

lemma unat_long_tag: "n \<le> 7 \<Longrightarrow> unat (0xf8 + of_nat n :: u8) = 248 + n"
  by (simp add: unat_word_ariths unat_of_nat)

lemma get_atom_explicit:
  assumes "n < 2 ^ 56"
  shows "get_atom (len_prefix n @ q) maximum =
    (if n > maximum then Inl TooLarge else if length q < n then Inl Truncated
     else Inr (take n q, drop n q))"
proof (cases "n \<le> 55")
  case True
  have "unat (0xc0 + of_nat n - 0xc0 :: u8) = n" using True by (simp add: unat_of_nat)
  moreover have "\<not> (0xc0 + of_nat n :: u8) < 0xc0" and "(0xc0 + of_nat n :: u8) < 0xf8"
    using True by (simp_all only: word_less_nat_alt unat_inline_tag) simp_all
  ultimately show ?thesis using True
    by (simp add: get_atom_def len_prefix_def checked_add_def)
next
  case False
  let ?k = "length_bytes n"
  have k: "?k \<le> 7" using assms by (rule length_bytes_7)
  have tag: "unat (of_nat ?k :: u8) = ?k" using k by (simp add: unat_of_nat)
  have big: "\<not> (0xf8 + of_nat ?k :: u8) < 0xc0" "\<not> (0xf8 + of_nat ?k :: u8) < 0xf8"
    using k by (simp_all only: word_less_nat_alt unat_long_tag) simp_all
  have rl: "read_length 0 0 (le_len ?k n) = Inr n"
    using read_length_le_len [of n ?k 0 0] k length_bytes_le_iff [of n ?k] by simp
  have "checked_add (Suc ?k) n = Some (Suc ?k + n)" using assms k by (simp add: checked_add_def)
  then show ?thesis using False
    by (simp add: get_atom_def len_prefix_def Let_def tag big rl)
qed

lemma get_atom_self: "b < 0xc0 \<Longrightarrow> get_atom (b # q) maximum =
    (if maximum = 0 then Inl TooLarge else Inr ([b], q))"
  by (simp add: get_atom_def)

lemma get_atom_Nil [simp]: "get_atom [] maximum = Inl Truncated"
  by (simp add: get_atom_def)

lemma get_atom_enc_atom:
  assumes "length p < 2 ^ 56"
  shows "get_atom (enc_atom p @ rest) maximum =
    (if length p > maximum then Inl TooLarge else Inr (p, rest))"
proof (cases "length p = 1 \<and> p ! 0 < 0xc0")
  case True
  then obtain b where "p = [b]" by (auto simp: length_Suc_conv)
  with True show ?thesis by (simp add: enc_atom_def get_atom_self)
next
  case False
  then have "enc_atom p @ rest = len_prefix (length p) @ (p @ rest)" by (auto simp: enc_atom_def)
  then show ?thesis using get_atom_explicit [OF assms] by simp
qed

lemma get_atom_len_prefix_truncated:
  assumes "n < 2 ^ 56" and "k < length (len_prefix n)"
  shows "get_atom (take k (len_prefix n)) maximum = Inl Truncated"
proof (cases "n \<le> 55")
  case True
  with assms show ?thesis by (simp add: len_prefix_def)
next
  case False
  let ?k = "length_bytes n"
  have k: "?k \<le> 7" using assms(1) by (rule length_bytes_7)
  have tag: "unat (of_nat ?k :: u8) = ?k" using k by (simp add: unat_of_nat)
  have big: "\<not> (0xf8 + of_nat ?k :: u8) < 0xc0" "\<not> (0xf8 + of_nat ?k :: u8) < 0xf8"
    using k by (simp_all only: word_less_nat_alt unat_long_tag) simp_all
  show ?thesis
  proof (cases k)
    case (Suc j)
    with assms(2) False have "j < ?k" by (simp add: len_prefix_def)
    with False Suc show ?thesis by (simp add: get_atom_def len_prefix_def Let_def tag big)
  qed simp
qed

lemma get_atom_prefix_truncated:
  assumes "length p < 2 ^ 56" and "length p \<le> maximum" and "k < length (enc_atom p)"
  shows "get_atom (take k (enc_atom p)) maximum = Inl Truncated"
proof (cases "length p = 1 \<and> p ! 0 < 0xc0")
  case True
  with assms(3) show ?thesis by (simp add: enc_atom_def)
next
  case False
  then have e: "enc_atom p = len_prefix (length p) @ p" by (auto simp: enc_atom_def)
  show ?thesis
  proof (cases "k < length (len_prefix (length p))")
    case True
    then show ?thesis using get_atom_len_prefix_truncated [OF assms(1)] e by simp
  next
    case F: False
    with assms(3) e show ?thesis
      by (simp add: get_atom_explicit [OF assms(1)] assms(2) not_less)
  qed
qed

text \<open>Soundness for arbitrary input: an accepted atom is a contiguous slice of the source within
  the caller's bound, and reading always makes progress.\<close>

lemma get_atom_slice:
  assumes "get_atom source maximum = Inr (p, rest)"
  shows "\<exists>pre. source = pre @ p @ rest \<and> length p \<le> maximum \<and> length rest < length source"
proof -
  obtain tag src where s: "source = tag # src" using assms by (cases source) auto
  show ?thesis
  proof (cases "tag < 0xc0")
    case True
    with assms s have "maximum \<noteq> 0 \<and> p = [tag] \<and> rest = src"
      by (auto simp: get_atom_self split: if_splits)
    with s show ?thesis by (intro exI [of _ "[]"]) auto
  next
    case False
    have "\<exists>prefix len. len \<le> maximum \<and> 0 < prefix \<and> prefix + len \<le> length source
        \<and> p = drop prefix (take (prefix + len) source) \<and> rest = drop (prefix + len) source"
    proof (cases "tag < 0xf8")
      case True
      with assms s False show ?thesis
        by (intro exI [of _ 1] exI [of _ "unat (tag - 0xc0)"])
          (auto simp: get_atom_def checked_add_def split: if_splits)
    next
      case F: False
      with assms s False obtain a where "read_length 0 0 (take (unat (tag - 0xf8)) src) = Inr a"
        by (auto simp: get_atom_def Let_def res_bind_eq_Inr split: if_splits)
      with assms s False F show ?thesis
        by (intro exI [of _ "Suc (unat (tag - 0xf8))"] exI [of _ a])
          (auto simp: get_atom_def Let_def checked_add_def split: if_splits)
    qed
    then obtain prefix len where "len \<le> maximum" "0 < prefix" "prefix + len \<le> length source"
        "p = drop prefix (take (prefix + len) source)" "rest = drop (prefix + len) source" by blast
    moreover from this have "source = take prefix source @ p @ rest"
      by (metis append_assoc append_take_drop_id drop_take add_diff_cancel_left' take_add)
    ultimately show ?thesis by (intro exI [of _ "take prefix source"]) auto
  qed
qed

section \<open>Integers\<close>

fun le_val :: "bytes \<Rightarrow> u64" where
  "le_val [] = 0"
| "le_val (b # bs) = ucast b OR push_bit 8 (le_val bs)"

lemma fold_or_le_val:
  "fold (\<lambda>(index, byte) v. v OR push_bit (index * 8) (ucast byte)) (enumerate k bs) acc
    = acc OR push_bit (k * 8) (le_val bs)"
proof (induction bs arbitrary: k acc)
  case (Cons b bs)
  have "push_bit (Suc k * 8) (le_val bs) = push_bit (k * 8) (push_bit 8 (le_val bs))"
    by (simp add: push_bit_push_bit add.commute)
  then show ?case using Cons [of "Suc k"] by (simp add: push_bit_or or.assoc)
qed simp

lemma u64_from_payload_le_val: "length bs \<le> 8 \<Longrightarrow> u64_from_payload bs = Inr (le_val bs)"
  by (simp add: u64_from_payload_def fold_or_le_val)

lemma le_val_u64_le_bytes: "le_val (u64_le_bytes v) = v"
proof (induction v rule: u64_le_bytes.induct)
  case (1 v)
  show ?case
  proof (cases "v = 0")
    case False
    have "ucast (ucast v :: u8) OR push_bit 8 (drop_bit 8 v) = v"
    proof (rule bit_word_eqI)
      fix n assume "n < LENGTH(64)"
      then show "bit (ucast (ucast v :: u8) OR push_bit 8 (drop_bit 8 v)) n = bit v n"
        by (cases "n < 8") (auto simp: bit_simps)
    qed
    with False 1 show ?thesis by (simp add: u64_le_bytes.simps [of v])
  qed (simp add: u64_le_bytes.simps)
qed

lemma length_u64_le_bytes_le: "unat v < 256 ^ k \<Longrightarrow> length (u64_le_bytes v) \<le> k"
proof (induction k arbitrary: v)
  case 0
  then show ?case by (simp add: u64_le_bytes.simps unat_eq_0)
next
  case (Suc k)
  have "unat (drop_bit 8 v) = unat v div 256" by (simp add: drop_bit_eq_div unat_div)
  with Suc.prems have "unat (drop_bit 8 v) < 256 ^ k" by (simp add: div_less_iff_less_mult mult.commute)
  then show ?case using Suc.IH by (simp add: u64_le_bytes.simps [of v])
qed

lemma length_u64_le_bytes [simp]: "length (u64_le_bytes v) \<le> 8"
  by (rule length_u64_le_bytes_le) (use unsigned_less [of v] in simp)

abbreviation enc_u64 :: "u64 \<Rightarrow> bytes" where
  "enc_u64 v \<equiv> enc_atom (u64_le_bytes v)"

lemma small_payload: "length p \<le> 8 \<Longrightarrow> length p < 2 ^ 56"
  by simp

lemma put_u64_ok: "put_u64 output v = Inr (output @ enc_u64 v)"
  by (simp add: put_u64_def put_atom_eq [OF small_payload])

lemma get_u64_enc: "get_u64 (enc_u64 v @ rest) = Inr (v, rest)"
  by (simp add: get_u64_def get_atom_enc_atom [OF small_payload] u64_from_payload_le_val
      le_val_u64_le_bytes not_less)

text \<open>The zigzag map of \<open>put_i64\<close>, named for the proofs.\<close>

definition zigzag :: "u64 \<Rightarrow> u64" where
  "zigzag v = push_bit 1 v XOR signed_drop_bit 63 v"

lemma bit_zigzag: "bit (zigzag v) n \<longleftrightarrow> n < 64 \<and> ((0 < n \<and> bit v (n - 1)) \<noteq> bit v 63)"
  unfolding zigzag_def bit_xor_iff bit_push_bit_iff bit_signed_drop_bit_iff
  by (cases n) (auto dest: bit_imp_le_length)

lemma zigzag_inverse: "drop_bit 1 (zigzag v) XOR - (zigzag v AND 1) = v"
proof -
  have "- (zigzag v AND 1) = (if bit v 63 then - 1 else 0)"
    using bit_zigzag [of v 0] by (cases "bit v 63") (simp_all add: and_one_eq bit_0 mod2_eq_if)
  moreover have "bit (drop_bit 1 (zigzag v)) n \<longleftrightarrow> n < 63 \<and> (bit v n \<noteq> bit v 63)" for n
    by (simp add: bit_drop_bit_eq bit_zigzag)
  ultimately have b: "bit (drop_bit 1 (zigzag v) XOR - (zigzag v AND 1)) n
      \<longleftrightarrow> (n < 63 \<and> (bit v n \<noteq> bit v 63)) \<noteq> (bit v 63 \<and> n < 64)" for n
    by (simp only: bit_xor_iff) (simp add: bit_minus_1_iff)
  show ?thesis
  proof (rule bit_word_eqI)
    fix n assume "n < LENGTH(64)"
    then consider "n < 63" | "n = 63" by fastforce
    then show "bit (drop_bit 1 (zigzag v) XOR - (zigzag v AND 1)) n = bit v n"
      unfolding b by cases auto
  qed
qed

lemma put_i64_ok: "put_i64 output v = Inr (output @ enc_u64 (zigzag v))"
  by (simp only: put_i64_def put_u64_ok zigzag_def)

lemma get_i64_enc: "get_i64 (enc_u64 (zigzag v) @ rest) = Inr (v, rest)"
  by (simp only: get_i64_def get_u64_enc res_bind_Inr prod.case zigzag_inverse)

section \<open>Compounds\<close>

lemma sum_encoded_len_eq:
  assumes "\<forall>f \<in> set fs. length f < 2 ^ 56" and "sofar + length (concat (map enc_atom fs)) < 2 ^ 64"
  shows "sum_encoded_len sofar fs = Inr (sofar + length (concat (map enc_atom fs)))"
  using assms
proof (induction fs arbitrary: sofar)
  case (Cons f fs)
  then have "checked_add sofar (length (enc_atom f)) = Some (sofar + length (enc_atom f))"
    by (simp add: checked_add_def)
  with Cons show ?case by (simp add: encoded_len_eq add.assoc)
qed simp

lemma put_atoms_eq:
  "\<forall>f \<in> set fs. length f < 2 ^ 56 \<Longrightarrow> put_atoms out fs = Inr (out @ concat (map enc_atom fs))"
  by (induction fs arbitrary: out) (auto simp: put_atom_eq)

text \<open>Writing a compound in one pass gives the bytes of wrapping its encoded fields.\<close>

lemma put_many_eq:
  assumes "\<forall>f \<in> set fs. length f < 2 ^ 56" and "length (concat (map enc_atom fs)) < 2 ^ 56"
  shows "put_many out fs =
    Inr (out @ len_prefix (length (concat (map enc_atom fs))) @ concat (map enc_atom fs))"
  using sum_encoded_len_eq [OF assms(1), of 0] length_bytes_7 [OF assms(2)] assms
  by (simp add: put_many_def put_length_prefix_None put_atoms_eq not_less [symmetric])

lemma length_len_prefix: "length (len_prefix n) = (if n \<le> 55 then 1 else Suc (length_bytes n))"
  by (simp add: len_prefix_def)

lemma length_enc_atom_le: "length p < 256 ^ k \<Longrightarrow> length (enc_atom p) \<le> Suc k + length p"
  using length_bytes_le_iff [of "length p" k] by (auto simp: enc_atom_def length_len_prefix)

lemma put_atoms_overflow:
  "\<exists>f \<in> set fs. 2 ^ 56 \<le> length f \<Longrightarrow> put_atoms out fs = Inl LengthOverflow"
proof (induction fs arbitrary: out)
  case (Cons f fs)
  then show ?case
    by (cases "length f < 2 ^ 56") (auto simp: put_atom_eq put_atom_overflow not_less)
qed simp

lemma sum_encoded_len_overflow:
  "(\<exists>f \<in> set fs. 2 ^ 56 \<le> length f) \<or> 2 ^ 64 \<le> sofar + length (concat (map enc_atom fs)) \<and> sofar < 2 ^ 64
    \<Longrightarrow> sum_encoded_len sofar fs = Inl LengthOverflow"
proof (induction fs arbitrary: sofar)
  case (Cons f fs)
  show ?case
  proof (cases "length f < 2 ^ 56 \<and> sofar + length (enc_atom f) < 2 ^ 64")
    case True
    then have "checked_add sofar (length (enc_atom f)) = Some (sofar + length (enc_atom f))"
      by (simp add: checked_add_def)
    with True Cons show ?thesis by (auto simp: encoded_len_eq add.assoc)
  next
    case False
    then show ?thesis
      by (cases "length f < 2 ^ 56") (auto simp: encoded_len_eq encoded_len_overflow checked_add_def)
  qed
qed auto

lemma put_compound_payload_eq:
  "put_compound_payload out f =
    (if length f < 2 ^ 56 then Inr (out @ len_prefix (length f) @ f) else Inl LengthOverflow)"
  using length_bytes_le_iff [of "length f" 7]
  by (auto simp: put_compound_payload_def put_length_prefix_None)

section \<open>Properties\<close>

text \<open>C25: an atom of any representable payload is written, takes exactly the \<open>encoded_len\<close> bytes
  reserved for it, and reads back to the payload and the untouched rest of the input under every
  sufficient length limit; a smaller limit is refused as \<open>TooLarge\<close>, and every proper prefix of the
  atom is reported \<open>Truncated\<close>, never misread.\<close>

theorem atom_roundtrip:
  assumes "length payload < 2 ^ 56"
  shows "\<exists>bs. put_atom out payload = Inr (out @ bs) \<and> encoded_len payload = Inr (length bs)
    \<and> (\<forall>rest maximum. get_atom (bs @ rest) maximum =
         (if length payload > maximum then Inl TooLarge else Inr (payload, rest)))
    \<and> (\<forall>k maximum. k < length bs \<and> length payload \<le> maximum
         \<longrightarrow> get_atom (take k bs) maximum = Inl Truncated)"
  using put_atom_eq [OF assms] encoded_len_eq [OF assms] get_atom_enc_atom [OF assms]
    get_atom_prefix_truncated [OF assms]
  by blast

theorem atom_roundtrip_witness:
  "\<exists>bs. put_atom [7] [0x2a, 0xff] = Inr (7 # bs) \<and> get_atom (take 1 bs) 2 = Inl Truncated"
proof -
  from atom_roundtrip [of "[0x2a, 0xff]" "[7]"] obtain bs where
    "put_atom [7] [0x2a, 0xff] = Inr (7 # bs)" and l: "encoded_len [0x2a, 0xff] = Inr (length bs)"
    and t: "\<forall>k m. k < length bs \<and> 2 \<le> m \<longrightarrow> get_atom (take k bs) m = Inl Truncated"
    by auto
  moreover from l have "length bs = 3" by (simp add: encoded_len_def)
  ultimately show ?thesis by auto
qed

text \<open>integers survive the wire at full width. Every \<open>u64\<close> and, through the zigzag code, every
  \<open>i64\<close> is written without reaching the \<open>expect\<close> of \<open>put_u64\<close>, and reads back to itself with the
  rest of the input intact.\<close>

lemma integers_roundtrip:
  "(\<exists>bs. put_u64 out v = Inr (out @ bs) \<and> (\<forall>rest. get_u64 (bs @ rest) = Inr (v, rest)))
    \<and> (\<exists>bs. put_i64 out v = Inr (out @ bs) \<and> (\<forall>rest. get_i64 (bs @ rest) = Inr (v, rest)))"
  using put_u64_ok get_u64_enc put_i64_ok get_i64_enc by blast

text \<open>C32: \<open>put_many\<close>, which sizes the compound first and writes it in one pass, gives on every list
  of fields, failures included, exactly what encoding the fields into a buffer and wrapping the
  buffer with \<open>put_compound_payload\<close> gives.\<close>

theorem put_many_build_then_wrap:
  "put_many out fields = res_bind (put_atoms [] fields) (put_compound_payload out)"
proof (cases "\<exists>f \<in> set fields. 2 ^ 56 \<le> length f")
  case True
  then show ?thesis by (simp add: put_many_def sum_encoded_len_overflow put_atoms_overflow)
next
  case False
  then have small: "\<forall>f \<in> set fields. length f < 2 ^ 56" by auto
  let ?b = "concat (map enc_atom fields)"
  have rhs: "res_bind (put_atoms [] fields) (put_compound_payload out) = put_compound_payload out ?b"
    using put_atoms_eq [OF small] by simp
  consider "length ?b < 2 ^ 56" | "2 ^ 56 \<le> length ?b" "length ?b < 2 ^ 64" | "2 ^ 64 \<le> length ?b"
    by linarith
  then show ?thesis
  proof cases
    case 1
    with rhs put_many_eq [OF small] show ?thesis by (simp add: put_compound_payload_eq)
  next
    case 2
    with rhs sum_encoded_len_eq [OF small, of 0] length_bytes_le_iff [of "length ?b" 7]
    show ?thesis by (simp add: put_many_def put_compound_payload_eq)
  next
    case 3
    with rhs show ?thesis by (simp add: put_many_def sum_encoded_len_overflow put_compound_payload_eq)
  qed
qed

end
