(* ===== verification/Wire_Value.thy ===== *)
theory Wire_Value
  imports Wire
begin

text \<open>
  The trait \<open>WireValue\<close> of \<open>engine/src/wire.rs\<close>: one atom per value, with the bounded byte, text,
  vector and map types of the generated schemas. An implementation is a pair of functions; the
  generic ones (\<open>Option<T>\<close>, \<open>BoundedVec<T>\<close>, \<open>BoundedMap<K, V>\<close>) take the element's pair as
  arguments. What the trait promises is the locale \<open>wire_value\<close>; every implementation is shown to
  satisfy it.
\<close>

section \<open>The trait \<open>WireValue\<close> and its implementations\<close>

text \<open>\<open>std::str::from_utf8\<close>: well-formed UTF-8 byte sequences. A Rust \<open>String\<close> is such a list.\<close>

definition utf8_cont :: "u8 \<Rightarrow> bool" where
  "utf8_cont b \<longleftrightarrow> 0x80 \<le> b \<and> b \<le> 0xbf"

fun utf8_valid :: "bytes \<Rightarrow> bool" where
  "utf8_valid [] = True"
| "utf8_valid (b0 # r0) =
     (if b0 < 0x80 then utf8_valid r0
      else case r0 of
        [] \<Rightarrow> False
      | b1 # r1 \<Rightarrow>
        if 0xc2 \<le> b0 \<and> b0 \<le> 0xdf then utf8_cont b1 \<and> utf8_valid r1
        else case r1 of
          [] \<Rightarrow> False
        | b2 # r2 \<Rightarrow>
          if 0xe0 \<le> b0 \<and> b0 \<le> 0xef
          then (if b0 = 0xe0 then 0xa0 \<le> b1 \<and> b1 \<le> 0xbf
                else if b0 = 0xed then 0x80 \<le> b1 \<and> b1 \<le> 0x9f
                else utf8_cont b1) \<and> utf8_cont b2 \<and> utf8_valid r2
          else case r2 of
            [] \<Rightarrow> False
          | b3 # r3 \<Rightarrow>
            0xf0 \<le> b0 \<and> b0 \<le> 0xf4
            \<and> (if b0 = 0xf0 then 0x90 \<le> b1 \<and> b1 \<le> 0xbf
               else if b0 = 0xf4 then 0x80 \<le> b1 \<and> b1 \<le> 0x8f
               else utf8_cont b1)
            \<and> utf8_cont b2 \<and> utf8_cont b3 \<and> utf8_valid r3)"

definition enc_unsigned :: "bytes \<Rightarrow> 'a::len word \<Rightarrow> wire_error + bytes" where
  "enc_unsigned output v = put_u64 output (ucast v)"

definition dec_unsigned :: "bytes \<Rightarrow> wire_error + ('a::len word \<times> bytes)" where
  "dec_unsigned input =
     res_bind (get_u64 input) (\<lambda>(v, rest).
       if unat v < 2 ^ LENGTH('a) then Inr (ucast v, rest) else Inl IntegerOutOfRange)"

definition enc_signed :: "bytes \<Rightarrow> 'a::len word \<Rightarrow> wire_error + bytes" where
  "enc_signed output v = put_i64 output (scast v)"

definition dec_signed :: "bytes \<Rightarrow> wire_error + ('a::len word \<times> bytes)" where
  "dec_signed input =
     res_bind (get_i64 input) (\<lambda>(v, rest).
       if - (2 ^ (LENGTH('a) - 1)) \<le> sint v \<and> sint v < 2 ^ (LENGTH('a) - 1)
       then Inr (scast v, rest) else Inl IntegerOutOfRange)"

text \<open>An \<open>f64\<close> is its 64-bit pattern; \<open>to_le_bytes\<close> always writes eight bytes.\<close>

definition f64_to_le_bytes :: "u64 \<Rightarrow> bytes" where
  "f64_to_le_bytes v = map (\<lambda>i. ucast (drop_bit (8 * i) v)) [0..<8]"

definition enc_f64 :: "bytes \<Rightarrow> u64 \<Rightarrow> wire_error + bytes" where
  "enc_f64 output v = put_atom output (f64_to_le_bytes v)"

definition dec_f64 :: "bytes \<Rightarrow> wire_error + (u64 \<times> bytes)" where
  "dec_f64 input =
     res_bind (get_atom input 8) (\<lambda>(payload, rest).
       if length payload = 8 then Inr (le_val payload, rest) else Inl InvalidValue)"

definition enc_bool :: "bytes \<Rightarrow> bool \<Rightarrow> wire_error + bytes" where
  "enc_bool output v = put_u64 output (if v then 1 else 0)"

definition dec_bool :: "bytes \<Rightarrow> wire_error + (bool \<times> bytes)" where
  "dec_bool input =
     res_bind (get_u64 input) (\<lambda>(v, rest).
       if v = 0 then Inr (False, rest) else if v = 1 then Inr (True, rest) else Inl InvalidValue)"

definition enc_unit :: "bytes \<Rightarrow> unit \<Rightarrow> wire_error + bytes" where
  "enc_unit output v = put_compound_payload output []"

definition dec_unit :: "bytes \<Rightarrow> wire_error + (unit \<times> bytes)" where
  "dec_unit input =
     res_bind (get_atom input 0) (\<lambda>(fields, rest).
       if fields = [] then Inr ((), rest) else Inl TrailingFields)"

definition bounded_new :: "nat \<Rightarrow> bytes \<Rightarrow> wire_error + bytes" where
  "bounded_new maximum v = (if length v > maximum then Inl TooLarge else Inr v)"

definition enc_bounded_bytes :: "nat \<Rightarrow> bytes \<Rightarrow> bytes \<Rightarrow> wire_error + bytes" where
  "enc_bounded_bytes maximum output v =
     (if length v > maximum then Inl TooLarge else put_atom output v)"

definition dec_bounded_bytes :: "nat \<Rightarrow> bytes \<Rightarrow> wire_error + (bytes \<times> bytes)" where
  "dec_bounded_bytes maximum input = get_atom input maximum"

definition enc_bounded_text :: "nat \<Rightarrow> bytes \<Rightarrow> bytes \<Rightarrow> wire_error + bytes" where
  "enc_bounded_text maximum output v =
     (if length v > maximum then Inl TooLarge else put_atom output v)"

definition dec_bounded_text :: "nat \<Rightarrow> bytes \<Rightarrow> wire_error + (bytes \<times> bytes)" where
  "dec_bounded_text maximum input =
     res_bind (get_atom input maximum) (\<lambda>(payload, rest).
       if utf8_valid payload then Inr (payload, rest) else Inl InvalidUtf8)"

definition enc_fixed_bytes :: "bytes \<Rightarrow> bytes \<Rightarrow> wire_error + bytes" where
  "enc_fixed_bytes output v = put_atom output v"

definition dec_fixed_bytes :: "nat \<Rightarrow> bytes \<Rightarrow> wire_error + (bytes \<times> bytes)" where
  "dec_fixed_bytes len input =
     res_bind (get_atom input len) (\<lambda>(payload, rest).
       if length payload = len then Inr (payload, rest) else Inl InvalidValue)"

fun enc_items :: "(bytes \<Rightarrow> 'a \<Rightarrow> wire_error + bytes) \<Rightarrow> bytes \<Rightarrow> 'a list \<Rightarrow> wire_error + bytes" where
  "enc_items enc fields [] = Inr fields"
| "enc_items enc fields (x # xs) = res_bind (enc fields x) (\<lambda>fields'. enc_items enc fields' xs)"

fun dec_items :: "(bytes \<Rightarrow> wire_error + ('a \<times> bytes)) \<Rightarrow> nat \<Rightarrow> bytes \<Rightarrow> wire_error + ('a list \<times> bytes)" where
  "dec_items dec 0 fields = Inr ([], fields)"
| "dec_items dec (Suc n) fields =
     res_bind (dec fields) (\<lambda>(v, fields').
       res_bind (dec_items dec n fields') (\<lambda>(vs, rest). Inr (v # vs, rest)))"

definition enc_bounded_vec ::
  "(bytes \<Rightarrow> 'a \<Rightarrow> wire_error + bytes) \<Rightarrow> nat \<Rightarrow> nat \<Rightarrow> bytes \<Rightarrow> 'a list \<Rightarrow> wire_error + bytes" where
  "enc_bounded_vec enc minimum maximum output xs =
     res_bind (check_item_count minimum maximum (length xs)) (\<lambda>_.
     res_bind (put_u64 [] (of_nat (length xs))) (\<lambda>fields.
     res_bind (enc_items enc fields xs) (\<lambda>fields'.
       put_compound_payload output fields')))"

definition usize_max :: nat where
  "usize_max = 2 ^ 64 - 1"

definition dec_bounded_vec ::
  "(bytes \<Rightarrow> wire_error + ('a \<times> bytes)) \<Rightarrow> nat \<Rightarrow> nat \<Rightarrow> bytes \<Rightarrow> wire_error + ('a list \<times> bytes)" where
  "dec_bounded_vec dec minimum maximum input =
     res_bind (get_atom input usize_max) (\<lambda>(fields, rest).
     res_bind (get_u64 fields) (\<lambda>(count, fields').
     res_bind (check_item_count minimum maximum (unat count)) (\<lambda>_.
     res_bind (dec_items dec (unat count) fields') (\<lambda>(xs, left).
     res_bind (require_empty left) (\<lambda>_. Inr (xs, rest))))))"

fun enc_entries ::
  "(bytes \<Rightarrow> 'k \<Rightarrow> wire_error + bytes) \<Rightarrow> (bytes \<Rightarrow> 'v \<Rightarrow> wire_error + bytes)
    \<Rightarrow> bytes \<Rightarrow> ('k \<times> 'v) list \<Rightarrow> wire_error + bytes" where
  "enc_entries enck encv fields [] = Inr fields"
| "enc_entries enck encv fields ((k, v) # m) =
     res_bind (enck fields k) (\<lambda>fields1.
     res_bind (encv fields1 v) (\<lambda>fields2. enc_entries enck encv fields2 m))"

definition enc_bounded_map ::
  "(bytes \<Rightarrow> 'k \<Rightarrow> wire_error + bytes) \<Rightarrow> (bytes \<Rightarrow> 'v \<Rightarrow> wire_error + bytes)
    \<Rightarrow> nat \<Rightarrow> bytes \<Rightarrow> ('k, 'v) btree \<Rightarrow> wire_error + bytes" where
  "enc_bounded_map enck encv maximum output m =
     (if length m > maximum then Inl TooManyItems
      else res_bind (put_u64 [] (of_nat (length m))) (\<lambda>fields.
           res_bind (enc_entries enck encv fields m) (\<lambda>fields'.
             put_compound_payload output fields')))"

fun dec_entries ::
  "(bytes \<Rightarrow> wire_error + ('k::linorder \<times> bytes)) \<Rightarrow> (bytes \<Rightarrow> wire_error + ('v \<times> bytes))
    \<Rightarrow> nat \<Rightarrow> ('k, 'v) btree \<Rightarrow> bytes \<Rightarrow> wire_error + (('k, 'v) btree \<times> bytes)" where
  "dec_entries deck decv 0 values fields = Inr (values, fields)"
| "dec_entries deck decv (Suc n) values fields =
     res_bind (deck fields) (\<lambda>(k, fields1).
     res_bind (decv fields1) (\<lambda>(v, fields2).
       if bt_contains values k then Inl InvalidValue
       else dec_entries deck decv n (bt_insert k v values) fields2))"

definition dec_bounded_map ::
  "(bytes \<Rightarrow> wire_error + ('k::linorder \<times> bytes)) \<Rightarrow> (bytes \<Rightarrow> wire_error + ('v \<times> bytes))
    \<Rightarrow> nat \<Rightarrow> bytes \<Rightarrow> wire_error + (('k, 'v) btree \<times> bytes)" where
  "dec_bounded_map deck decv maximum input =
     res_bind (get_atom input usize_max) (\<lambda>(fields, rest).
     res_bind (get_u64 fields) (\<lambda>(count, fields').
       if unat count > maximum then Inl TooManyItems
       else res_bind (dec_entries deck decv (unat count) [] fields') (\<lambda>(m, left).
            res_bind (require_empty left) (\<lambda>_. Inr (m, rest)))))"

definition enc_option ::
  "(bytes \<Rightarrow> 'a \<Rightarrow> wire_error + bytes) \<Rightarrow> bytes \<Rightarrow> 'a option \<Rightarrow> wire_error + bytes" where
  "enc_option enc output x =
     res_bind
       (case x of
          None \<Rightarrow> put_u64 [] 0
        | Some v \<Rightarrow> res_bind (put_u64 [] 1) (\<lambda>fields. enc fields v))
       (\<lambda>fields. put_compound_payload output fields)"

definition dec_option ::
  "(bytes \<Rightarrow> wire_error + ('a \<times> bytes)) \<Rightarrow> bytes \<Rightarrow> wire_error + ('a option \<times> bytes)" where
  "dec_option dec input =
     res_bind (get_atom input usize_max) (\<lambda>(fields, rest).
     res_bind (get_u64 fields) (\<lambda>(tag, fields').
     res_bind
       (if tag = 0 then Inr (None, fields')
        else if tag = 1 then res_bind (dec fields') (\<lambda>(v, left). Inr (Some v, left))
        else Inl InvalidValue)
       (\<lambda>(x, left). res_bind (require_empty left) (\<lambda>_. Inr (x, rest)))))"

text \<open>The schema type \<open>Environment\<close> of \<open>generated_wire.rs\<close>: keys of at most 4096 bytes, values of
  at most 1048576, at most 32768 entries.\<close>

definition enc_environment :: "bytes \<Rightarrow> (bytes, bytes) btree \<Rightarrow> wire_error + bytes" where
  "enc_environment = enc_bounded_map (enc_bounded_bytes 4096) (enc_bounded_bytes 1048576) 32768"

definition dec_environment :: "bytes \<Rightarrow> wire_error + ((bytes, bytes) btree \<times> bytes)" where
  "dec_environment = dec_bounded_map (dec_bounded_bytes 4096) (dec_bounded_bytes 1048576) 32768"

definition environment_ok :: "(bytes, bytes) btree \<Rightarrow> bool" where
  "environment_ok m \<longleftrightarrow> bt_wf m \<and> length m \<le> 32768
     \<and> list_all (\<lambda>(k, v). length k \<le> 4096 \<and> length v \<le> 1048576) m"

section \<open>The contract of the trait\<close>

locale wire_value =
  fixes enc :: "bytes \<Rightarrow> 'a \<Rightarrow> wire_error + bytes"
    and dec :: "bytes \<Rightarrow> wire_error + ('a \<times> bytes)"
    and ok :: "'a \<Rightarrow> bool"
  assumes enc_appends: "enc out v = res_bind (enc [] v) (\<lambda>bs. Inr (out @ bs))"
    and dec_enc: "ok v \<Longrightarrow> enc [] v = Inr bs \<Longrightarrow> dec (bs @ rest) = Inr (v, rest)"
    and dec_ok: "dec input = Inr (v, rest) \<Longrightarrow> ok v"
    and dec_progress: "dec input = Inr (v, rest) \<Longrightarrow> length rest < length input"
begin

lemma enc_items_appends: "enc_items enc out xs = res_bind (enc_items enc [] xs) (\<lambda>bs. Inr (out @ bs))"
proof (induction xs arbitrary: out)
  case (Cons x xs)
  show ?case
  proof (cases "enc [] x")
    case (Inl e)
    then show ?thesis using enc_appends [of out x] by simp
  next
    case (Inr b)
    then show ?thesis
      using enc_appends [of out x] Cons [of "out @ b"] Cons [of b] by (simp add: res_bind_assoc)
  qed
qed simp

lemma dec_enc_items:
  "list_all ok xs \<Longrightarrow> enc_items enc [] xs = Inr bs \<Longrightarrow> dec_items dec (length xs) (bs @ rest) = Inr (xs, rest)"
proof (induction xs arbitrary: bs)
  case (Cons x xs)
  from Cons.prems(2) obtain b1 where b1: "enc [] x = Inr b1" "enc_items enc b1 xs = Inr bs"
    by (auto simp: res_bind_eq_Inr)
  then obtain b2 where "enc_items enc [] xs = Inr b2" "bs = b1 @ b2"
    using enc_items_appends [of b1 xs] by (cases "enc_items enc [] xs") simp_all
  with Cons dec_enc [OF _ b1(1)] show ?case by simp
qed simp

lemma dec_items_ok:
  "dec_items dec n fields = Inr (xs, rest) \<Longrightarrow> length xs = n \<and> list_all ok xs"
proof (induction n arbitrary: fields xs rest)
  case (Suc n)
  then obtain v f vs where d: "dec fields = Inr (v, f)" "dec_items dec n f = Inr (vs, rest)" "xs = v # vs"
    by (auto simp: res_bind_eq_Inr)
  with Suc.IH [OF d(2)] dec_ok [OF d(1)] show ?case by simp
qed simp

end

lemma atom_cases: "length p < 2 ^ 56 \<or> (\<forall>out. put_atom out p = Inl LengthOverflow)"
  using put_atom_overflow not_less by blast

lemma put_atom_appends: "put_atom out p = res_bind (put_atom [] p) (\<lambda>bs. Inr (out @ bs))"
  using atom_cases [of p] by (auto simp: put_atom_eq)

lemma put_atom_Inr: "put_atom [] p = Inr bs \<Longrightarrow> length p < 2 ^ 56 \<and> bs = enc_atom p"
  using atom_cases [of p] by (auto simp: put_atom_eq)

lemma get_atom_put_atom:
  "put_atom [] p = Inr bs \<Longrightarrow> length p \<le> maximum \<Longrightarrow> get_atom (bs @ rest) maximum = Inr (p, rest)"
  using put_atom_Inr [of p bs] by (auto simp: get_atom_enc_atom)

lemma put_compound_appends:
  "put_compound_payload out f = res_bind (put_compound_payload [] f) (\<lambda>bs. Inr (out @ bs))"
  by (simp add: put_compound_payload_def put_length_prefix_None)

lemma get_atom_put_compound:
  assumes "put_compound_payload [] f = Inr bs"
  shows "get_atom (bs @ rest) usize_max = Inr (f, rest)"
proof -
  from assms have "length_bytes (length f) \<le> 7" and bs: "bs = len_prefix (length f) @ f"
    by (auto simp: put_compound_payload_def put_length_prefix_None split: if_splits)
  then have l: "length f < 2 ^ 56" by (simp add: length_bytes_le_iff)
  then have "get_atom (len_prefix (length f) @ (f @ rest)) usize_max = Inr (f, rest)"
    using get_atom_explicit [OF l, of "f @ rest" usize_max] by (simp add: usize_max_def)
  with bs show ?thesis by simp
qed

lemma get_atom_progress: "get_atom input m = Inr (p, rest) \<Longrightarrow> length rest < length input"
  using get_atom_slice by blast

lemma get_atom_bounded: "get_atom input m = Inr (p, rest) \<Longrightarrow> length p \<le> m"
  using get_atom_slice by blast

lemma get_u64_progress: "get_u64 input = Inr (v, rest) \<Longrightarrow> length rest < length input"
  by (auto simp: get_u64_def res_bind_eq_Inr dest: get_atom_progress)

lemma get_i64_progress: "get_i64 input = Inr (v, rest) \<Longrightarrow> length rest < length input"
  by (auto simp: get_i64_def res_bind_eq_Inr dest: get_u64_progress)

interpretation u64_wire: wire_value put_u64 get_u64 "\<lambda>_. True"
  by unfold_locales (auto simp: put_u64_ok get_u64_enc dest: get_u64_progress)

interpretation i64_wire: wire_value put_i64 get_i64 "\<lambda>_. True"
  by unfold_locales (auto simp: put_i64_ok get_i64_enc dest: get_i64_progress)

lemma wire_unsigned:
  assumes "LENGTH('a::len) \<le> 64"
  shows "wire_value enc_unsigned (dec_unsigned :: bytes \<Rightarrow> wire_error + ('a word \<times> bytes)) (\<lambda>_. True)"
proof
  fix v :: "'a word" and bs rest
  assume "enc_unsigned [] v = Inr bs"
  then have "bs = enc_u64 (ucast v)" by (simp add: enc_unsigned_def put_u64_ok)
  moreover have "unat (ucast v :: u64) = unat v"
  proof -
    have "unat v < 2 ^ LENGTH('a)" by (rule unsigned_less)
    also have "(2::nat) ^ LENGTH('a) \<le> 2 ^ 64" using assms by (rule power_increasing) simp
    finally show ?thesis by (simp add: unsigned_ucast_eq take_bit_nat_eq_self_iff)
  qed
  moreover have "unat v < 2 ^ LENGTH('a)" by (rule unsigned_less)
  moreover have "ucast (ucast v :: u64) = v"
    by (rule ucast_up_ucast_id) (use assms in \<open>simp add: is_up\<close>)
  ultimately show "dec_unsigned (bs @ rest) = Inr (v, rest)"
    by (simp add: dec_unsigned_def get_u64_enc)
qed (auto simp: enc_unsigned_def put_u64_ok dec_unsigned_def res_bind_eq_Inr split: if_splits
      dest: get_u64_progress)

lemma wire_signed:
  assumes "LENGTH('a::len) \<le> 64"
  shows "wire_value enc_signed (dec_signed :: bytes \<Rightarrow> wire_error + ('a word \<times> bytes)) (\<lambda>_. True)"
proof
  fix v :: "'a word" and bs rest
  assume "enc_signed [] v = Inr bs"
  then have "bs = enc_u64 (zigzag (scast v))" by (simp add: enc_signed_def put_i64_ok)
  moreover have "sint (scast v :: u64) = sint v"
    by (rule sint_up_scast) (use assms in \<open>simp add: is_up\<close>)
  moreover have "- (2 ^ (LENGTH('a) - 1)) \<le> sint v" "sint v < 2 ^ (LENGTH('a) - 1)"
    by (simp_all add: sint_greater_eq sint_less)
  moreover have "scast (scast v :: u64) = v"
    using assms by (simp add: scast_up_scast_id is_up)
  ultimately show "dec_signed (bs @ rest) = Inr (v, rest)"
    by (simp add: dec_signed_def get_i64_enc)
qed (auto simp: enc_signed_def put_i64_ok dec_signed_def res_bind_eq_Inr split: if_splits
      dest: get_i64_progress)

interpretation u16_wire: wire_value enc_unsigned "dec_unsigned :: bytes \<Rightarrow> wire_error + (u16 \<times> bytes)" "\<lambda>_. True"
  by (rule wire_unsigned) simp

interpretation u32_wire: wire_value enc_unsigned "dec_unsigned :: bytes \<Rightarrow> wire_error + (u32 \<times> bytes)" "\<lambda>_. True"
  by (rule wire_unsigned) simp

interpretation i32_wire: wire_value enc_signed "dec_signed :: bytes \<Rightarrow> wire_error + (u32 \<times> bytes)" "\<lambda>_. True"
  by (rule wire_signed) simp

lemma le_val_map_drop: "le_val (map (\<lambda>i. ucast (drop_bit (8 * i) v)) [0..<k]) = take_bit (8 * k) v"
proof (induction k arbitrary: v)
  case (Suc k)
  have "map (\<lambda>i. ucast (drop_bit (8 * i) v) :: u8) [0..<Suc k]
      = ucast v # map (\<lambda>i. ucast (drop_bit (8 * i) (drop_bit 8 v))) [0..<k]"
    by (simp add: upt_conv_Cons map_Suc_upt [symmetric] comp_def drop_bit_drop_bit add.commute del: upt_Suc)
  then have "le_val (map (\<lambda>i. ucast (drop_bit (8 * i) v)) [0..<Suc k])
      = ucast (ucast v :: u8) OR push_bit 8 (take_bit (8 * k) (drop_bit 8 v))"
    by (simp only: le_val.simps Suc)
  also have "\<dots> = take_bit (8 * Suc k) v"
  proof (rule bit_word_eqI)
    fix n assume "n < LENGTH(64)"
    then show "bit (ucast (ucast v :: u8) OR push_bit 8 (take_bit (8 * k) (drop_bit 8 v))) n
        = bit (take_bit (8 * Suc k) v) n"
      by (cases "n < 8") (auto simp: bit_simps)
  qed
  finally show ?case .
qed simp

interpretation f64_wire: wire_value enc_f64 dec_f64 "\<lambda>_. True"
proof
  fix out v show "enc_f64 out v = res_bind (enc_f64 [] v) (\<lambda>bs. Inr (out @ bs))"
    unfolding enc_f64_def by (rule put_atom_appends)
next
  fix v bs rest
  assume "enc_f64 [] v = Inr bs"
  moreover have "le_val (f64_to_le_bytes v) = v"
    unfolding f64_to_le_bytes_def le_val_map_drop by (simp add: take_bit_word_eq_self)
  moreover have "length (f64_to_le_bytes v) = 8" by (simp add: f64_to_le_bytes_def)
  ultimately show "dec_f64 (bs @ rest) = Inr (v, rest)"
    by (simp add: enc_f64_def dec_f64_def get_atom_put_atom)
qed (auto simp: dec_f64_def res_bind_eq_Inr split: if_splits dest: get_atom_progress)

interpretation bool_wire: wire_value enc_bool dec_bool "\<lambda>_. True"
proof
  fix v bs rest
  assume "enc_bool [] v = Inr bs"
  then have "bs = enc_u64 (if v then 1 else 0)" by (simp add: enc_bool_def put_u64_ok)
  then show "dec_bool (bs @ rest) = Inr (v, rest)" by (simp add: dec_bool_def get_u64_enc)
qed (auto simp: enc_bool_def dec_bool_def put_u64_ok res_bind_eq_Inr
      split: if_splits dest: get_u64_progress)

interpretation unit_wire: wire_value enc_unit dec_unit "\<lambda>_. True"
proof
  fix v bs rest
  assume "enc_unit [] v = Inr bs"
  then have "bs = len_prefix 0" by (simp add: enc_unit_def put_compound_payload_def put_length_prefix_None)
  then show "dec_unit (bs @ rest) = Inr (v, rest)"
    using get_atom_explicit [of 0 rest 0] by (simp add: dec_unit_def)
qed (auto simp: enc_unit_def dec_unit_def put_compound_payload_def put_length_prefix_None
      res_bind_eq_Inr split: if_splits dest: get_atom_progress)

lemma wire_bounded_bytes:
  "wire_value (enc_bounded_bytes m) (dec_bounded_bytes m) (\<lambda>v. length v \<le> m)"
proof
  fix out v show "enc_bounded_bytes m out v = res_bind (enc_bounded_bytes m [] v) (\<lambda>bs. Inr (out @ bs))"
    unfolding enc_bounded_bytes_def using put_atom_appends [of out v] by simp
qed (auto simp: enc_bounded_bytes_def dec_bounded_bytes_def get_atom_put_atom split: if_splits
      dest: get_atom_progress get_atom_bounded)

lemma wire_bounded_text:
  "wire_value (enc_bounded_text m) (dec_bounded_text m) (\<lambda>v. length v \<le> m \<and> utf8_valid v)"
proof
  fix out v show "enc_bounded_text m out v = res_bind (enc_bounded_text m [] v) (\<lambda>bs. Inr (out @ bs))"
    unfolding enc_bounded_text_def using put_atom_appends [of out v] by simp
qed (auto simp: enc_bounded_text_def dec_bounded_text_def get_atom_put_atom res_bind_eq_Inr
      split: if_splits dest: get_atom_progress get_atom_bounded)

lemma wire_fixed_bytes:
  "wire_value enc_fixed_bytes (dec_fixed_bytes n) (\<lambda>v. length v = n)"
proof
  fix out v show "enc_fixed_bytes out v = res_bind (enc_fixed_bytes [] v) (\<lambda>bs. Inr (out @ bs))"
    unfolding enc_fixed_bytes_def by (rule put_atom_appends)
qed (auto simp: enc_fixed_bytes_def dec_fixed_bytes_def get_atom_put_atom res_bind_eq_Inr
      split: if_splits dest: get_atom_progress)

lemma compound_appends:
  "res_bind r (\<lambda>f. put_compound_payload out f)
    = res_bind (res_bind r (\<lambda>f. put_compound_payload [] f)) (\<lambda>bs. Inr (out @ bs))"
  by (cases r) (simp_all add: put_compound_appends [of out])

context wire_value
begin

lemma wire_option: "wire_value (enc_option enc) (dec_option dec) (pred_option ok)"
proof
  fix out x show "enc_option enc out x = res_bind (enc_option enc [] x) (\<lambda>bs. Inr (out @ bs))"
    unfolding enc_option_def by (rule compound_appends)
next
  fix x bs rest
  assume okx: "pred_option ok x" and e: "enc_option enc [] x = Inr bs"
  show "dec_option dec (bs @ rest) = Inr (x, rest)"
  proof (cases x)
    case None
    with e have "put_compound_payload [] (enc_u64 0) = Inr bs" by (simp add: enc_option_def put_u64_ok)
    from get_atom_put_compound [OF this] None get_u64_enc [of 0 "[]"] show ?thesis
      by (simp add: dec_option_def require_empty_def)
  next
    case (Some v)
    with e obtain f where "enc (enc_u64 1) v = Inr f" and c: "put_compound_payload [] f = Inr bs"
      by (auto simp: enc_option_def put_u64_ok res_bind_eq_Inr)
    then obtain g where g: "enc [] v = Inr g" and f: "f = enc_u64 1 @ g"
      using enc_appends [of "enc_u64 1" v] by (cases "enc [] v") auto
    have "dec g = Inr (v, [])" using dec_enc [OF _ g, of "[]"] okx Some by simp
    with get_atom_put_compound [OF c] Some f show ?thesis
      by (simp add: dec_option_def get_u64_enc require_empty_def)
  qed
next
  fix input x rest
  assume "dec_option dec input = Inr (x, rest)"
  then show "pred_option ok x"
    by (auto simp: dec_option_def res_bind_eq_Inr split: if_splits dest: dec_ok)
next
  fix input x rest
  assume "dec_option dec input = Inr (x, rest)"
  then show "length rest < length input"
    by (auto simp: dec_option_def res_bind_eq_Inr dest: get_atom_progress)
qed

lemma wire_vec:
  assumes "maximum < 2 ^ 64"
  shows "wire_value (enc_bounded_vec enc minimum maximum) (dec_bounded_vec dec minimum maximum)
    (\<lambda>xs. minimum \<le> length xs \<and> length xs \<le> maximum \<and> list_all ok xs)"
proof
  fix out xs
  show "enc_bounded_vec enc minimum maximum out xs
      = res_bind (enc_bounded_vec enc minimum maximum [] xs) (\<lambda>bs. Inr (out @ bs))"
    unfolding enc_bounded_vec_def
    by (simp add: put_u64_ok check_item_count_def compound_appends [of "enc_items enc f xs" out for f])
next
  fix xs bs rest
  assume okx: "minimum \<le> length xs \<and> length xs \<le> maximum \<and> list_all ok xs"
    and e: "enc_bounded_vec enc minimum maximum [] xs = Inr bs"
  let ?n = "of_nat (length xs) :: u64"
  from e obtain f where "enc_items enc (enc_u64 ?n) xs = Inr f" and c: "put_compound_payload [] f = Inr bs"
    by (auto simp: enc_bounded_vec_def put_u64_ok res_bind_eq_Inr)
  then obtain g where g: "enc_items enc [] xs = Inr g" and f: "f = enc_u64 ?n @ g"
    using enc_items_appends [of "enc_u64 ?n" xs] by (cases "enc_items enc [] xs") auto
  have n: "unat ?n = length xs" using okx assms by (simp add: unat_of_nat)
  have "dec_items dec (length xs) g = Inr (xs, [])"
    using dec_enc_items [OF _ g, of "[]"] okx by simp
  with get_atom_put_compound [OF c] f n okx show "dec_bounded_vec dec minimum maximum (bs @ rest) = Inr (xs, rest)"
    by (simp add: dec_bounded_vec_def get_u64_enc require_empty_def check_item_count_def)
next
  fix input xs rest
  assume "dec_bounded_vec dec minimum maximum input = Inr (xs, rest)"
  then show "minimum \<le> length xs \<and> length xs \<le> maximum \<and> list_all ok xs"
    by (auto simp: dec_bounded_vec_def check_item_count_def res_bind_eq_Inr split: if_splits
        dest!: dec_items_ok)
next
  fix input xs rest
  assume "dec_bounded_vec dec minimum maximum input = Inr (xs, rest)"
  then show "length rest < length input"
    by (auto simp: dec_bounded_vec_def res_bind_eq_Inr dest: get_atom_progress)
qed

end

text \<open>A map's codec rests on two instances of the contract, one for its keys and one for its
  values.\<close>

locale wire_map = key: wire_value enck deck okk + val: wire_value encv decv okv
  for enck :: "bytes \<Rightarrow> 'k::linorder \<Rightarrow> wire_error + bytes" and deck okk
    and encv :: "bytes \<Rightarrow> 'v \<Rightarrow> wire_error + bytes" and decv okv
begin

lemma enc_entries_appends:
  "enc_entries enck encv out m = res_bind (enc_entries enck encv [] m) (\<lambda>bs. Inr (out @ bs))"
proof (induction m arbitrary: out)
  case (Cons p m)
  obtain k v where p: "p = (k, v)" by fastforce
  show ?case
  proof (cases "enck [] k")
    case (Inl e)
    then show ?thesis using key.enc_appends [of out k] p by simp
  next
    case k: (Inr bk)
    show ?thesis
    proof (cases "encv [] v")
      case (Inl e)
      then show ?thesis using key.enc_appends [of out k] k
          val.enc_appends [of "out @ bk" v] val.enc_appends [of bk v] p by simp
    next
      case (Inr bv)
      then show ?thesis using key.enc_appends [of out k] k
          val.enc_appends [of "out @ bk" v] val.enc_appends [of bk v] p
          Cons [of "out @ bk @ bv"] Cons [of "bk @ bv"] by (simp add: res_bind_assoc)
    qed
  qed
qed simp

lemma dec_enc_entries:
  assumes "list_all (\<lambda>(k, v). okk k \<and> okv v) m" and "enc_entries enck encv [] m = Inr bs"
    and "bt_wf (acc @ m)"
  shows "dec_entries deck decv (length m) acc (bs @ rest) = Inr (acc @ m, rest)"
  using assms
proof (induction m arbitrary: acc bs)
  case (Cons p m)
  obtain k v where p: "p = (k, v)" by fastforce
  from Cons.prems(2) p obtain bk where bk: "enck [] k = Inr bk" by (auto simp: res_bind_eq_Inr)
  with Cons.prems(2) p obtain bv where bv: "encv [] v = Inr bv"
    using val.enc_appends [of bk v] by (cases "encv [] v") auto
  with Cons.prems(2) p bk obtain b2 where b2: "enc_entries enck encv [] m = Inr b2" and bs: "bs = bk @ bv @ b2"
    using val.enc_appends [of bk v] enc_entries_appends [of "bk @ bv" m]
    by (cases "enc_entries enck encv [] m") auto
  have lt: "\<forall>x \<in> fst ` set acc. x < k" using Cons.prems(3) p by (auto simp: bt_wf_append)
  then have "\<not> bt_contains acc k" by (auto simp: bt_contains_iff)
  moreover have "bt_insert k v acc = acc @ [p]" using bt_insert_greatest [OF lt] p by simp
  moreover have "deck (bk @ bv @ b2 @ rest) = Inr (k, bv @ b2 @ rest)"
    using key.dec_enc [OF _ bk] Cons.prems(1) p by simp
  moreover have "decv (bv @ b2 @ rest) = Inr (v, b2 @ rest)"
    using val.dec_enc [OF _ bv] Cons.prems(1) p by simp
  ultimately show ?case
    using Cons.IH [OF _ b2, of "acc @ [p]"] Cons.prems(1,3) by (simp add: bs)
qed simp

lemma dec_entries_ok:
  "dec_entries deck decv n acc f = Inr (m, rest) \<Longrightarrow> bt_wf acc \<Longrightarrow> list_all (\<lambda>(k, v). okk k \<and> okv v) acc
    \<Longrightarrow> bt_wf m \<and> list_all (\<lambda>(k, v). okk k \<and> okv v) m \<and> length m = length acc + n"
proof (induction n arbitrary: acc f)
  case (Suc n)
  from Suc.prems(1) obtain k f1 v f2 where d: "deck f = Inr (k, f1)" "decv f1 = Inr (v, f2)"
      "\<not> bt_contains acc k" "dec_entries deck decv n (bt_insert k v acc) f2 = Inr (m, rest)"
    by (auto simp: res_bind_eq_Inr split: if_splits)
  have "set (bt_insert k v acc) \<subseteq> insert (k, v) (set acc)"
    by (induction k v acc rule: bt_insert.induct) auto
  with Suc.prems(3) have "list_all (\<lambda>(k, v). okk k \<and> okv v) (bt_insert k v acc)"
    using key.dec_ok [OF d(1)] val.dec_ok [OF d(2)] by (auto simp: list_all_iff)
  moreover have "length (bt_insert k v acc) = Suc (length acc)" if "\<not> bt_contains acc k" for acc
    using that by (induction k v acc rule: bt_insert.induct) (auto simp: bt_contains_iff)
  ultimately show ?case using Suc.IH [OF d(4)] Suc.prems(2) d(3) by simp
qed simp

lemma wire_bounded_map:
  assumes "maximum < 2 ^ 64"
  shows "wire_value (enc_bounded_map enck encv maximum) (dec_bounded_map deck decv maximum)
    (\<lambda>m. bt_wf m \<and> length m \<le> maximum \<and> list_all (\<lambda>(k, v). okk k \<and> okv v) m)"
proof
  fix out m
  show "enc_bounded_map enck encv maximum out m
      = res_bind (enc_bounded_map enck encv maximum [] m) (\<lambda>bs. Inr (out @ bs))"
    unfolding enc_bounded_map_def
    by (simp add: put_u64_ok compound_appends [of "enc_entries enck encv f m" out for f])
next
  fix m bs rest
  assume okm: "bt_wf m \<and> length m \<le> maximum \<and> list_all (\<lambda>(k, v). okk k \<and> okv v) m"
    and e: "enc_bounded_map enck encv maximum [] m = Inr bs"
  let ?n = "of_nat (length m) :: u64"
  from e obtain f where "enc_entries enck encv (enc_u64 ?n) m = Inr f" and c: "put_compound_payload [] f = Inr bs"
    by (auto simp: enc_bounded_map_def put_u64_ok res_bind_eq_Inr split: if_splits)
  then obtain g where g: "enc_entries enck encv [] m = Inr g" and f: "f = enc_u64 ?n @ g"
    using enc_entries_appends [of "enc_u64 ?n" m] by (cases "enc_entries enck encv [] m") auto
  have n: "unat ?n = length m" using okm assms by (simp add: unat_of_nat)
  have "dec_entries deck decv (length m) [] g = Inr (m, [])"
    using dec_enc_entries [OF _ g, of "[]" "[]"] okm by simp
  with get_atom_put_compound [OF c] f n okm
  show "dec_bounded_map deck decv maximum (bs @ rest) = Inr (m, rest)"
    by (simp add: dec_bounded_map_def get_u64_enc require_empty_def)
next
  fix input m rest
  assume "dec_bounded_map deck decv maximum input = Inr (m, rest)"
  then show "bt_wf m \<and> length m \<le> maximum \<and> list_all (\<lambda>(k, v). okk k \<and> okv v) m"
    by (auto simp: dec_bounded_map_def res_bind_eq_Inr split: if_splits dest!: dec_entries_ok)
next
  fix input m rest
  assume "dec_bounded_map deck decv maximum input = Inr (m, rest)"
  then show "length rest < length input"
    by (auto simp: dec_bounded_map_def res_bind_eq_Inr split: if_splits dest: get_atom_progress)
qed

end

interpretation environment_wire: wire_map
  "enc_bounded_bytes 4096" "dec_bounded_bytes 4096" "\<lambda>v. length v \<le> 4096"
  "enc_bounded_bytes 1048576" "dec_bounded_bytes 1048576" "\<lambda>v. length v \<le> 1048576"
  by (intro wire_map.intro wire_bounded_bytes)

interpretation environment: wire_value enc_environment dec_environment environment_ok
  unfolding enc_environment_def dec_environment_def environment_ok_def
  by (rule environment_wire.wire_bounded_map) simp

section \<open>Properties\<close>

text \<open>C24: the environment of a box, a bounded map of bounded byte strings, is decoded to exactly the
  map that was encoded, wherever it stands in the input; and whatever bytes arrive, a decoder that
  accepts them returns a map within the schema's bounds, with its keys strictly increasing (a
  repeated key is refused), and consumes some input.\<close>

theorem environment_roundtrip:
  "(environment_ok m \<longrightarrow> enc_environment [] m = Inr bs \<longrightarrow> dec_environment (bs @ rest) = Inr (m, rest))
    \<and> (dec_environment input = Inr (m', rest') \<longrightarrow> environment_ok m' \<and> length rest' < length input)"
  using environment.dec_enc environment.dec_ok environment.dec_progress by blast

theorem environment_roundtrip_witness:
  "enc_environment [] [([65], [1, 2])] = Inr [0xc5, 1, 65, 0xc2, 1, 2]
    \<and> dec_environment [0xc5, 1, 65, 0xc2, 1, 2] = Inr ([([65], [1, 2])], [])"
proof -
  have "u64_le_bytes 1 = [1]" by (simp add: u64_le_bytes.simps)
  then have e: "enc_environment [] [([65], [1, 2])] = Inr [0xc5, 1, 65, 0xc2, 1, 2]"
    by (simp add: enc_environment_def enc_bounded_map_def enc_bounded_bytes_def put_u64_def put_atom_def
        encoded_len_def put_length_prefix_def first_byte_def put_compound_payload_def length_bytes.simps)
  moreover have "environment_ok [([65], [1, 2])]" by (simp add: environment_ok_def)
  ultimately show ?thesis
    using environment_roundtrip [of "[([65], [1, 2])]" _ "[]"] by auto
qed

end
