(* ===== verification/Frames.thy ===== *)
theory Frames
  imports Wire
begin

text \<open>
  The muxed box channel of \<open>engine/src/frames.rs\<close>: a frame is an outer atom holding a type atom
  and a payload atom. The theory models \<open>encode\<close>, \<open>decode\<close>, the resize payload and the
  accumulate, decode and drain step every reader of the channel performs (\<open>engine/src/pty.rs\<close>).
  A panic (an \<open>assert!\<close> or \<open>expect\<close>) is \<open>None\<close>.
\<close>

section \<open>Definitions\<close>

definition max_frame_len :: nat where
  "max_frame_len = 16 * 1024 * 1024"

definition pty_resize_payload :: "u16 \<Rightarrow> u16 \<Rightarrow> bytes" where
  "pty_resize_payload rows cols =
     [ucast (drop_bit 8 rows), ucast rows, ucast (drop_bit 8 cols), ucast cols]"

definition u16_from_be_bytes :: "u8 \<Rightarrow> u8 \<Rightarrow> u16" where
  "u16_from_be_bytes hi lo = push_bit 8 (ucast hi) OR ucast lo"

definition pty_resize_parse :: "bytes \<Rightarrow> (u16 \<times> u16) option" where
  "pty_resize_parse payload =
     (if length payload < 4 then None
      else Some (u16_from_be_bytes (payload ! 0) (payload ! 1),
                 u16_from_be_bytes (payload ! 2) (payload ! 3)))"

definition echo_payload :: "u8 \<Rightarrow> bytes \<Rightarrow> bytes" where
  "echo_payload stream_id content = stream_id # content"

definition frame_encode :: "u8 \<Rightarrow> bytes \<Rightarrow> bytes option" where
  "frame_encode ftype payload =
     (if length payload + 1 \<le> max_frame_len
      then case put_many [] [if ftype = 0 then [] else [ftype], payload] of
          Inl _ \<Rightarrow> None
        | Inr out \<Rightarrow> Some out
      else None)"

function decode_loop :: "nat \<Rightarrow> (u8 \<times> bytes) list \<Rightarrow> bytes \<Rightarrow> (u8 \<times> bytes) list \<times> nat" where
  "decode_loop buf_len frames remaining =
     (if remaining = [] then (frames, buf_len - length remaining)
      else case get_atom remaining (max_frame_len + 16) of
          Inl Truncated \<Rightarrow> (frames, buf_len - length remaining)
        | Inl _ \<Rightarrow> (frames, buf_len)
        | Inr (outer, remaining') \<Rightarrow>
            (case get_u64 outer of
               Inl _ \<Rightarrow> (frames, buf_len)
             | Inr (ftype, fields) \<Rightarrow>
                 (case get_atom fields max_frame_len of
                    Inl _ \<Rightarrow> (frames, buf_len)
                  | Inr (payload, fields') \<Rightarrow>
                      if unat ftype > 255 \<or> fields' \<noteq> [] \<or> length payload + 1 > max_frame_len
                      then (frames, buf_len)
                      else decode_loop buf_len (frames @ [(ucast ftype, payload)]) remaining')))"
  by pat_completeness auto
termination
  by (relation "measure (\<lambda>(n, frames, remaining). length remaining)") (use get_atom_slice in force)+

declare decode_loop.simps [simp del]

definition frame_decode :: "bytes \<Rightarrow> (u8 \<times> bytes) list \<times> nat" where
  "frame_decode buf = decode_loop (length buf) [] buf"

text \<open>One turn of a reader: extend the accumulator with the bytes that arrived, take the whole
  frames, keep the rest.\<close>

definition reader_step :: "bytes \<Rightarrow> bytes \<Rightarrow> bytes \<times> (u8 \<times> bytes) list" where
  "reader_step acc chunk =
     (let acc' = acc @ chunk; (frames, used) = frame_decode acc' in (drop used acc', frames))"

fun reader_run :: "bytes \<Rightarrow> bytes list \<Rightarrow> bytes \<times> (u8 \<times> bytes) list" where
  "reader_run acc [] = (acc, [])"
| "reader_run acc (chunk # chunks) =
     (let (acc1, fs1) = reader_step acc chunk; (acc2, fs2) = reader_run acc1 chunks
      in (acc2, fs1 @ fs2))"

section \<open>Encoding\<close>

definition frame_fields :: "u8 \<Rightarrow> bytes \<Rightarrow> bytes" where
  "frame_fields ftype payload = enc_u64 (ucast ftype) @ enc_atom payload"

lemma u64_le_bytes_byte: "u64_le_bytes (ucast (b :: u8)) = (if b = 0 then [] else [b])"
proof (cases "b = 0")
  case True
  then show ?thesis by (simp add: u64_le_bytes.simps)
next
  case False
  have "drop_bit 8 (ucast b :: u64) = 0"
    by (rule bit_word_eqI) (auto simp: bit_simps dest: bit_imp_le_length)
  moreover have "(ucast b :: u64) \<noteq> 0"
  proof
    assume "(ucast b :: u64) = 0"
    then have "ucast (ucast b :: u64) = (0 :: u8)" by (simp only: ucast_0)
    with False show False by (simp only: ucast_u8_u64)
  qed
  ultimately show ?thesis using False
    by (simp add: u64_le_bytes.simps [of "ucast b"] u64_le_bytes.simps [of 0])
qed

lemma frame_fields_eq:
  "frame_fields ftype payload = concat (map enc_atom [if ftype = 0 then [] else [ftype], payload])"
  by (simp add: frame_fields_def u64_le_bytes_byte)

lemma length_frame_fields:
  assumes "length payload + 1 \<le> max_frame_len"
  shows "length (frame_fields ftype payload) \<le> max_frame_len + 16"
proof -
  have "length (enc_atom payload) \<le> Suc 4 + length payload"
    by (rule length_enc_atom_le) (use assms in \<open>simp add: max_frame_len_def\<close>)
  moreover have "length (enc_u64 (ucast ftype)) \<le> 2"
    by (simp add: u64_le_bytes_byte enc_atom_def length_len_prefix)
  ultimately show ?thesis using assms by (simp add: frame_fields_def)
qed

lemma frame_encode_eq:
  assumes "length payload + 1 \<le> max_frame_len"
  shows "frame_encode ftype payload =
    Some (len_prefix (length (frame_fields ftype payload)) @ frame_fields ftype payload)"
proof -
  have "length (frame_fields ftype payload) < 2 ^ 56"
    using length_frame_fields [OF assms, of ftype] by (simp add: max_frame_len_def)
  then show ?thesis
    using assms put_many_eq [of "[if ftype = 0 then [] else [ftype], payload]" "[]"]
    unfolding frame_fields_eq by (simp add: frame_encode_def max_frame_len_def)
qed

lemma frame_encode_Some:
  "frame_encode ftype payload = Some bs \<Longrightarrow>
    length payload + 1 \<le> max_frame_len
    \<and> bs = len_prefix (length (frame_fields ftype payload)) @ frame_fields ftype payload"
  using frame_encode_eq by (cases "length payload + 1 \<le> max_frame_len") (auto simp: frame_encode_def)

section \<open>Decoding\<close>

lemma get_outer:
  assumes "length payload + 1 \<le> max_frame_len"
  shows "get_atom (len_prefix (length (frame_fields ftype payload)) @ frame_fields ftype payload @ rest)
      (max_frame_len + 16) = Inr (frame_fields ftype payload, rest)"
proof -
  let ?f = "frame_fields ftype payload"
  have l: "length ?f \<le> max_frame_len + 16" by (rule length_frame_fields) (rule assms)
  then have "length ?f < 2 ^ 56" by (simp add: max_frame_len_def)
  from get_atom_explicit [OF this, of "?f @ rest" "max_frame_len + 16"] l show ?thesis by simp
qed

lemma decode_loop_frame:
  assumes "frame_encode ftype payload = Some bs"
  shows "decode_loop n fs (bs @ rest) = decode_loop n (fs @ [(ftype, payload)]) rest"
proof -
  from frame_encode_Some [OF assms] have l: "length payload + 1 \<le> max_frame_len"
    and bs: "bs = len_prefix (length (frame_fields ftype payload)) @ frame_fields ftype payload" by auto
  have ne: "bs @ rest \<noteq> []" using bs by (auto simp: len_prefix_def)
  have outer: "get_atom (bs @ rest) (max_frame_len + 16) = Inr (frame_fields ftype payload, rest)"
    using get_outer [OF l] bs by simp
  have "get_atom (enc_atom payload) max_frame_len = Inr (payload, [])"
    using get_atom_enc_atom [of payload "[]" max_frame_len] l by (simp add: max_frame_len_def)
  moreover have "get_u64 (frame_fields ftype payload) = Inr (ucast ftype, enc_atom payload)"
    by (simp add: frame_fields_def get_u64_enc)
  moreover have "unat (ucast ftype :: u64) \<le> 255" and "ucast (ucast ftype :: u64) = ftype"
    by (simp_all only: unat_u8_u64 unat_u8_le ucast_u8_u64)
  ultimately show ?thesis
    by (subst decode_loop.simps) (use ne outer l in auto)
qed

fun encode_all :: "(u8 \<times> bytes) list \<Rightarrow> bytes option" where
  "encode_all [] = Some []"
| "encode_all ((t, p) # fs) =
     Option.bind (frame_encode t p) (\<lambda>b. Option.bind (encode_all fs) (\<lambda>bs. Some (b @ bs)))"

lemma decode_loop_frames:
  "encode_all fs = Some bs \<Longrightarrow> decode_loop n acc (bs @ rest) = decode_loop n (acc @ fs) rest"
proof (induction fs arbitrary: acc bs)
  case (Cons p fs)
  obtain t q where p: "p = (t, q)" by fastforce
  with Cons.prems obtain b1 b2 where b: "frame_encode t q = Some b1" "encode_all fs = Some b2" "bs = b1 @ b2"
    by (auto simp: bind_eq_Some_conv)
  then show ?case using Cons.IH [OF b(2)] decode_loop_frame [OF b(1)] p by simp
qed simp

lemma decode_loop_partial:
  assumes "frame_encode ftype payload = Some bs" and "k < length bs"
  shows "decode_loop n fs (take k bs) = (fs, n - k)"
proof (cases "k = 0")
  case True
  then show ?thesis by (simp add: decode_loop.simps)
next
  case False
  from frame_encode_Some [OF assms(1)] have l: "length payload + 1 \<le> max_frame_len"
    and bs: "bs = len_prefix (length (frame_fields ftype payload)) @ frame_fields ftype payload" by auto
  let ?f = "frame_fields ftype payload"
  have m: "length ?f \<le> max_frame_len + 16" by (rule length_frame_fields) (rule l)
  then have f: "length ?f < 2 ^ 56" by (simp add: max_frame_len_def)
  have "get_atom (take k bs) (max_frame_len + 16) = Inl Truncated"
  proof (cases "k < length (len_prefix (length ?f))")
    case True
    then show ?thesis using get_atom_len_prefix_truncated [OF f] bs by simp
  next
    case F: False
    with assms(2) bs m show ?thesis by (simp add: get_atom_explicit [OF f] not_less)
  qed
  with assms(2) False show ?thesis by (subst decode_loop.simps) (auto simp: min_def)
qed

section \<open>Reassembly of a fragmented stream\<close>

text \<open>\<open>pending acc fs\<close>: the accumulator holds nothing, or a proper prefix of the next frame.\<close>

definition pending :: "bytes \<Rightarrow> (u8 \<times> bytes) list \<Rightarrow> bool" where
  "pending acc fs \<longleftrightarrow> acc = [] \<or> (\<exists>t p fs' b k. fs = (t, p) # fs' \<and> frame_encode t p = Some b
     \<and> k < length b \<and> acc = take k b)"

lemma frame_encode_nonempty: "frame_encode t p = Some b \<Longrightarrow> b \<noteq> []"
  using frame_encode_Some [of t p b] by (auto simp: len_prefix_def)

lemma frame_decode_pending:
  assumes "encode_all fs = Some b" and "pending r gs"
  shows "frame_decode (b @ r) = (fs, length b)"
proof -
  have *: "frame_decode (b @ r) = decode_loop (length (b @ r)) fs r"
    using decode_loop_frames [OF assms(1), of _ "[]" r] by (simp add: frame_decode_def)
  show ?thesis
  proof (cases "r = []")
    case True
    with * show ?thesis by (simp add: decode_loop.simps)
  next
    case False
    with assms(2) obtain t p c k where "frame_encode t p = Some c" "k < length c" "r = take k c"
      by (auto simp: pending_def)
    with * decode_loop_partial [of t p c k] show ?thesis by (simp add: min_def)
  qed
qed

lemma split_stream:
  "encode_all fs = Some bs \<Longrightarrow> bs = x @ y \<Longrightarrow>
    \<exists>fs1 fs2 b1 b2 r. fs = fs1 @ fs2 \<and> encode_all fs1 = Some b1 \<and> encode_all fs2 = Some b2
      \<and> x = b1 @ r \<and> b2 = r @ y \<and> pending r fs2"
proof (induction fs arbitrary: bs x)
  case Nil
  then show ?case by (auto simp: pending_def)
next
  case (Cons q fs)
  obtain t p where q: "q = (t, p)" by fastforce
  with Cons.prems(1) obtain c d where c: "frame_encode t p = Some c" "encode_all fs = Some d" "bs = c @ d"
    by (auto simp: bind_eq_Some_conv)
  show ?case
  proof (cases "length x < length c")
    case True
    with Cons.prems(2) c(3) have "x = take (length x) c"
      by (auto simp: append_eq_append_conv_if)
    with True c(1) q have "pending x (q # fs)" by (auto simp: pending_def)
    with Cons.prems show ?thesis
      by (intro exI [of _ "[]"] exI [of _ "q # fs"] exI [of _ bs] exI [of _ x]) simp
  next
    case False
    with Cons.prems(2) c(3) obtain x' where x: "x = c @ x'" and d: "d = x' @ y"
      by (auto simp: append_eq_append_conv2)
    from Cons.IH [OF c(2) d] obtain fs1 fs2 b1 b2 r where "fs = fs1 @ fs2" "encode_all fs1 = Some b1"
        "encode_all fs2 = Some b2" "x' = b1 @ r" "b2 = r @ y" "pending r fs2" by blast
    with c x q show ?thesis
      by (intro exI [of _ "q # fs1"] exI [of _ fs2] exI [of _ "c @ b1"] exI [of _ b2] exI [of _ r]) simp
  qed
qed

lemma reader_run_stream:
  assumes "encode_all fs = Some bs" and "bs = acc @ concat chunks" and "pending acc fs"
  shows "reader_run acc chunks = ([], fs)"
  using assms
proof (induction chunks arbitrary: acc fs bs)
  case Nil
  have "fs = []"
  proof (cases fs)
    case (Cons q fs')
    obtain t p where q: "q = (t, p)" by fastforce
    with Cons Nil.prems(1) obtain c d where c: "frame_encode t p = Some c" "bs = c @ d"
      by (auto simp: bind_eq_Some_conv)
    have "length acc < length c"
      using Nil.prems(3) Cons q c(1) frame_encode_nonempty [OF c(1)] by (auto simp: pending_def)
    moreover have "length c \<le> length acc"
      using Nil.prems(2) c(2) by auto
    ultimately show ?thesis by simp
  qed simp
  with Nil.prems show ?case by simp
next
  case (Cons chunk chunks)
  from split_stream [OF Cons.prems(1), of "acc @ chunk" "concat chunks"] Cons.prems(2)
  obtain fs1 fs2 b1 b2 r where s: "fs = fs1 @ fs2" "encode_all fs1 = Some b1"
      "encode_all fs2 = Some b2" "acc @ chunk = b1 @ r" "b2 = r @ concat chunks" "pending r fs2" by auto
  have "reader_step acc chunk = (r, fs1)"
    using frame_decode_pending [OF s(2,6)] s(4) by (simp add: reader_step_def)
  with Cons.IH [OF s(3,5,6)] s(1) show ?case by simp
qed

text \<open>Whatever the bytes, the decoder never claims more than it was given, and every payload it
  returns respects the frame bound.\<close>

lemma decode_loop_bounds:
  "decode_loop n fs r = (gs, used) \<Longrightarrow> length r \<le> n \<Longrightarrow> \<forall>(t, p) \<in> set fs. length p < max_frame_len
    \<Longrightarrow> used \<le> n \<and> (\<forall>(t, p) \<in> set gs. length p < max_frame_len)"
proof (induction n fs r rule: decode_loop.induct)
  case (1 n fs r)
  note unf = decode_loop.simps [of n fs r]
  show ?case
  proof (cases "r = []")
    case True
    with "1.prems" show ?thesis by (auto simp: decode_loop.simps [of n fs "[]"])
  next
    case ne: False
    show ?thesis
    proof (cases "get_atom r (max_frame_len + 16)")
      case (Inl e)
      with ne "1.prems" show ?thesis by (cases e) (auto simp: unf)
    next
      case outer: (Inr x)
      obtain outer r' where x: "x = (outer, r')" by fastforce
      show ?thesis
      proof (cases "get_u64 outer")
        case (Inl e)
        with ne outer x "1.prems" show ?thesis by (auto simp: unf)
      next
        case ftype: (Inr y)
        obtain ftype fields where y: "y = (ftype, fields)" by fastforce
        show ?thesis
        proof (cases "get_atom fields max_frame_len")
          case (Inl e)
          with ne outer x ftype y "1.prems" show ?thesis by (auto simp: unf)
        next
          case payload: (Inr z)
          obtain payload fields' where z: "z = (payload, fields')" by fastforce
          let ?bad = "unat ftype > 255 \<or> fields' \<noteq> [] \<or> length payload + 1 > max_frame_len"
          show ?thesis
          proof (cases ?bad)
            case True
            with ne outer x ftype y payload z "1.prems" show ?thesis by (simp add: unf)
          next
            case good: False
            have step: "decode_loop n fs r = decode_loop n (fs @ [(ucast ftype, payload)]) r'"
              using ne outer x ftype y payload z good by (simp add: unf)
            have "length r' \<le> n" using get_atom_slice [of r _ outer r'] outer x "1.prems"(2) by fastforce
            moreover have "\<forall>(t, p) \<in> set (fs @ [(ucast ftype, payload)]). length p < max_frame_len"
              using good "1.prems"(3) by auto
            ultimately show ?thesis
              using "1.IH" [OF ne outer x [symmetric] ftype y [symmetric] payload z [symmetric] good] "1.prems"(1) step by simp
          qed
        qed
      qed
    qed
  qed
qed

section \<open>Properties\<close>

text \<open>C8: a stream of frames is reassembled whatever way the transport cuts it. However the encoded
  frames are split into chunks (in the middle of a length, a type or a payload, with empty chunks
  among them), the readers deliver exactly the frames that were sent, in order, and end with an
  empty accumulator.\<close>

theorem frames_reassembled:
  assumes "encode_all fs = Some (concat chunks)"
  shows "reader_run [] chunks = ([], fs)"
  using reader_run_stream [OF assms] by (simp add: pending_def)

theorem frames_reassembled_witness:
  "reader_run [] [[0xc2, 5], [], [9, 0xc3, 6, 0xc1], [0xff]] = ([], [(5, [9]), (6, [0xff])])"
  by (rule frames_reassembled)
    (simp add: frame_encode_def max_frame_len_def put_many_def encoded_len_def checked_add_def
      put_length_prefix_def put_atom_def first_byte_def length_bytes.simps)

text \<open>C33: hostile bytes cannot make the channel decoder run past its buffer or deliver an oversized
  payload: it consumes at most the bytes it was given and every payload, with its type byte, is
  within \<open>MAX_FRAME_LEN\<close>. The decoder is a total function: it returns on every buffer.\<close>

theorem frame_decode_bounded:
  "case frame_decode buf of (frames, used) \<Rightarrow>
     used \<le> length buf \<and> list_all (\<lambda>(t, p). length p + 1 \<le> max_frame_len) frames"
proof -
  obtain frames used where "frame_decode buf = (frames, used)" by fastforce
  then show ?thesis
    using decode_loop_bounds [of "length buf" "[]" buf frames used]
    by (auto simp: frame_decode_def list_all_iff)
qed

text \<open>A window size survives the resize frame.\<close>

lemma pty_resize_roundtrip:
  "pty_resize_parse (pty_resize_payload rows cols) = Some (rows, cols)"
proof -
  have "u16_from_be_bytes (ucast (drop_bit 8 w)) (ucast w) = w" for w :: u16
    unfolding u16_from_be_bytes_def
    by (rule bit_word_eqI) (auto simp: bit_simps dest: bit_imp_le_length)
  then show ?thesis by (simp add: pty_resize_parse_def pty_resize_payload_def)
qed

end
