(* ===== verification/Slip_Pool.thy ===== *)
theory Slip_Pool
  imports Sarun_Prelude "HOL-Library.Multiset" "HOL-Library.Sublist"
begin

text \<open>
  The engine-global jobserver of \<open>engine/src/slippool.rs\<close>: the record \<open>Pool\<close> and its operations
  \<open>new\<close>, \<open>acquire\<close>, \<open>hand_off_one\<close>, \<open>release\<close>, \<open>reap_pid\<close> and \<open>reap_box\<close>. A reply channel
  (\<open>SlipReply\<close>) is a token of type \<open>'r\<close>; calling \<open>grant\<close> or \<open>deny_again\<close> on it is an event, and every
  operation returns the events it caused, in order. The ledger is a hash map that is never iterated,
  here an ordered association list; its counts are 32-bit words.
\<close>

section \<open>Definitions\<close>

datatype answer = Granted | Denied

datatype watch = WatchPid int | WatchNone

record 'r pool =
  pool_total :: nat
  pool_available :: nat
  pool_ledger :: "(int, u32) btree"
  pool_waiters :: "(int \<times> 'r) list"

type_synonym 'r events = "('r \<times> answer) list"

definition pool_new :: "nat \<Rightarrow> 'r pool" where
  "pool_new n =
     (let n' = max n 1 in
      \<lparr>pool_total = n', pool_available = n', pool_ledger = [], pool_waiters = []\<rparr>)"

definition ledger_count :: "(int, u32) btree \<Rightarrow> int \<Rightarrow> u32" where
  "ledger_count ledger pid = (case bt_get ledger pid of None \<Rightarrow> 0 | Some c \<Rightarrow> c)"

definition ledger_incr :: "int \<Rightarrow> (int, u32) btree \<Rightarrow> (int, u32) btree" where
  "ledger_incr pid ledger = bt_insert pid (ledger_count ledger pid + 1) ledger"

definition acquire :: "'r pool \<Rightarrow> int \<Rightarrow> 'r \<Rightarrow> bool \<Rightarrow> 'r pool \<times> watch \<times> 'r events" where
  "acquire p pid reply nonblocking =
     (if pool_available p > 0
      then (p\<lparr>pool_available := pool_available p - 1, pool_ledger := ledger_incr pid (pool_ledger p)\<rparr>,
            WatchPid pid, [(reply, Granted)])
      else if nonblocking then (p, WatchNone, [(reply, Denied)])
      else (p\<lparr>pool_waiters := pool_waiters p @ [(pid, reply)]\<rparr>, WatchPid pid, []))"

definition hand_off_one :: "'r pool \<Rightarrow> 'r pool \<times> int option \<times> 'r events" where
  "hand_off_one p =
     (case pool_waiters p of
        (wpid, reply) # ws \<Rightarrow>
          (p\<lparr>pool_waiters := ws, pool_ledger := ledger_incr wpid (pool_ledger p)\<rparr>,
           Some wpid, [(reply, Granted)])
      | [] \<Rightarrow> (p\<lparr>pool_available := pool_available p + 1\<rparr>, None, []))"

definition release :: "'r pool \<Rightarrow> int \<Rightarrow> 'r pool \<times> int option \<times> 'r events" where
  "release p pid =
     (case bt_get (pool_ledger p) pid of
        None \<Rightarrow> (p, None, [])
      | Some c \<Rightarrow>
          if c > 0
          then hand_off_one (p\<lparr>pool_ledger :=
                 (if c - 1 = 0 then bt_remove pid (pool_ledger p)
                  else bt_insert pid (c - 1) (pool_ledger p))\<rparr>)
          else (p, None, []))"

fun drop_waiters :: "int \<Rightarrow> (int \<times> 'r) list \<Rightarrow> (int \<times> 'r) list \<Rightarrow> 'r events
    \<Rightarrow> (int \<times> 'r) list \<times> 'r events" where
  "drop_waiters pid [] kept evs = (kept, evs)"
| "drop_waiters pid ((wpid, reply) # ws) kept evs =
     (if wpid = pid then drop_waiters pid ws kept (evs @ [(reply, Denied)])
      else drop_waiters pid ws (kept @ [(wpid, reply)]) evs)"

fun hand_off_n :: "nat \<Rightarrow> 'r pool \<Rightarrow> int list \<Rightarrow> 'r events \<Rightarrow> 'r pool \<times> int list \<times> 'r events" where
  "hand_off_n 0 p granted evs = (p, granted, evs)"
| "hand_off_n (Suc n) p granted evs =
     (let (p', g, es) = hand_off_one p in
      hand_off_n n p' (case g of Some q \<Rightarrow> granted @ [q] | None \<Rightarrow> granted) (evs @ es))"

definition reap_pid :: "'r pool \<Rightarrow> int \<Rightarrow> 'r pool \<times> int list \<times> 'r events" where
  "reap_pid p pid =
     (let (kept, evs) = drop_waiters pid (pool_waiters p) [] [];
          held = ledger_count (pool_ledger p) pid in
      hand_off_n (unat held)
        (p\<lparr>pool_waiters := kept, pool_ledger := bt_remove pid (pool_ledger p)\<rparr>) [] evs)"

fun reap_box :: "'r pool \<Rightarrow> int list \<Rightarrow> 'r pool \<times> int list \<times> 'r events" where
  "reap_box p [] = (p, [], [])"
| "reap_box p (pid # pids) =
     (let (p1, g1, e1) = reap_pid p pid; (p2, g2, e2) = reap_box p1 pids in
      (p2, g1 @ g2, e1 @ e2))"

text \<open>The calls the pool receives, and a run of them with everything it answered.\<close>

datatype 'r pool_call =
    Acquire int 'r bool
  | Release int
  | ReapPid int
  | ReapBox "int list"

fun pool_step :: "'r pool \<Rightarrow> 'r pool_call \<Rightarrow> 'r pool \<times> 'r events" where
  "pool_step p (Acquire pid reply nonblocking) =
     (let (p', _, es) = acquire p pid reply nonblocking in (p', es))"
| "pool_step p (Release pid) = (let (p', _, es) = release p pid in (p', es))"
| "pool_step p (ReapPid pid) = (let (p', _, es) = reap_pid p pid in (p', es))"
| "pool_step p (ReapBox pids) = (let (p', _, es) = reap_box p pids in (p', es))"

fun pool_run :: "'r pool \<Rightarrow> 'r pool_call list \<Rightarrow> 'r pool \<times> 'r events" where
  "pool_run p [] = (p, [])"
| "pool_run p (c # cs) =
     (let (p1, e1) = pool_step p c; (p2, e2) = pool_run p1 cs in (p2, e1 @ e2))"

fun submitted :: "'r pool_call list \<Rightarrow> 'r list" where
  "submitted [] = []"
| "submitted (Acquire pid reply nonblocking # cs) = reply # submitted cs"
| "submitted (_ # cs) = submitted cs"

definition grants :: "'r events \<Rightarrow> 'r list" where
  "grants es = map fst (filter (\<lambda>e. snd e = Granted) es)"

definition held_by :: "'r pool \<Rightarrow> int \<Rightarrow> nat" where
  "held_by p pid = unat (ledger_count (pool_ledger p) pid)"

definition slips_held :: "(int, u32) btree \<Rightarrow> nat" where
  "slips_held ledger = sum_list (map (unat \<circ> snd) ledger)"

text \<open>The invariant: every slip is free or in the ledger, nobody is recorded with no slip, and
  nobody waits while a slip is free.\<close>

definition pool_ok :: "'r pool \<Rightarrow> bool" where
  "pool_ok p \<longleftrightarrow> bt_wf (pool_ledger p) \<and> list_all (\<lambda>(_, c). c \<noteq> 0) (pool_ledger p)
     \<and> pool_available p + slips_held (pool_ledger p) = pool_total p
     \<and> 0 < pool_total p \<and> pool_total p < 2 ^ 32
     \<and> (0 < pool_available p \<longrightarrow> pool_waiters p = [])"

section \<open>The ledger\<close>

lemma slips_held_insert:
  "bt_wf m \<Longrightarrow> slips_held (bt_insert k v m) + unat (ledger_count m k) = slips_held m + unat v"
proof (induction m)
  case (Cons x m)
  obtain a b where x: "x = (a, b)" by fastforce
  have none: "bt_get m k = None" if "k \<le> a"
    using that Cons.prems x by (auto simp: bt_get_None_iff)
  show ?case using Cons none x by (auto simp: slips_held_def ledger_count_def)
qed (simp add: slips_held_def ledger_count_def)

lemma slips_held_remove:
  "bt_wf m \<Longrightarrow> slips_held (bt_remove k m) + unat (ledger_count m k) = slips_held m"
proof (induction m)
  case (Cons x m)
  then show ?case by (cases x) (auto simp: slips_held_def ledger_count_def)
qed (simp add: slips_held_def ledger_count_def)

lemma ledger_count_insert [simp]: "ledger_count (bt_insert k v m) k' = (if k' = k then v else ledger_count m k')"
  by (simp add: ledger_count_def)

lemma ledger_count_remove [simp]:
  "bt_wf m \<Longrightarrow> ledger_count (bt_remove k m) k' = (if k' = k then 0 else ledger_count m k')"
  by (simp add: ledger_count_def)

lemma count_le_held: "bt_wf m \<Longrightarrow> unat (ledger_count m k) \<le> slips_held m"
  using slips_held_remove [of m k] by linarith

lemma unat_incr: "unat (c :: u32) + 1 < 2 ^ 32 \<Longrightarrow> unat (c + 1) = unat c + 1 \<and> c + 1 \<noteq> 0"
proof -
  assume *: "unat c + 1 < 2 ^ 32"
  then have u: "unat (c + 1) = unat c + 1" by (simp add: unat_word_ariths)
  moreover from u have "c + 1 \<noteq> 0" by (metis Suc_eq_plus1 nat.distinct(1) unat_0)
  ultimately show ?thesis by simp
qed

lemma slips_held_incr:
  assumes "bt_wf m" and "slips_held m + 1 < 2 ^ 32"
  shows "slips_held (ledger_incr k m) = slips_held m + 1"
proof -
  have "unat (ledger_count m k) + 1 < 2 ^ 32" using count_le_held [OF assms(1), of k] assms(2) by linarith
  then have "unat (ledger_count m k + 1) = unat (ledger_count m k) + 1" using unat_incr by blast
  then show ?thesis
    using slips_held_insert [OF assms(1), of k "ledger_count m k + 1"] by (simp add: ledger_incr_def)
qed

section \<open>Slips in flight\<close>

text \<open>While a freed slip is on its way to a waiter it is neither free nor in the ledger:
  \<open>in_flight n p\<close> is the invariant with \<open>n\<close> such slips.\<close>

definition in_flight :: "nat \<Rightarrow> 'r pool \<Rightarrow> bool" where
  "in_flight n p \<longleftrightarrow> bt_wf (pool_ledger p) \<and> list_all (\<lambda>(_, c). c \<noteq> 0) (pool_ledger p)
     \<and> pool_available p + slips_held (pool_ledger p) + n = pool_total p
     \<and> 0 < pool_total p \<and> pool_total p < 2 ^ 32
     \<and> (0 < pool_available p \<longrightarrow> pool_waiters p = [])"

lemma pool_ok_in_flight: "pool_ok p \<longleftrightarrow> in_flight 0 p"
  by (simp add: pool_ok_def in_flight_def)

lemma incr_ok:
  assumes "bt_wf m" and "list_all (\<lambda>(_, c). c \<noteq> 0) m" and "slips_held m + 1 < 2 ^ 32"
  shows "bt_wf (ledger_incr k m) \<and> list_all (\<lambda>(_, c). c \<noteq> 0) (ledger_incr k m)
    \<and> slips_held (ledger_incr k m) = slips_held m + 1"
proof -
  have "unat (ledger_count m k) + 1 < 2 ^ 32" using count_le_held [OF assms(1), of k] assms(3) by linarith
  then have "ledger_count m k + 1 \<noteq> 0" using unat_incr by blast
  with assms slips_held_incr [OF assms(1,3)] show ?thesis
    by (simp add: ledger_incr_def list_all_bt_insert)
qed

lemma hand_off_one_ok:
  assumes "in_flight (Suc n) p" and "hand_off_one p = (p', g, es)"
  shows "in_flight n p'"
proof (cases "pool_waiters p")
  case Nil
  with assms show ?thesis by (auto simp: hand_off_one_def in_flight_def)
next
  case (Cons w ws)
  obtain wpid r where w: "w = (wpid, r)" by fastforce
  have "slips_held (pool_ledger p) + 1 < 2 ^ 32" using assms(1) by (auto simp: in_flight_def)
  with incr_ok [of "pool_ledger p" wpid] assms Cons w show ?thesis
    by (auto simp: hand_off_one_def in_flight_def)
qed

lemma hand_off_n_ok: "in_flight n p \<Longrightarrow> hand_off_n n p g es = (p', g', es') \<Longrightarrow> in_flight 0 p'"
proof (induction n arbitrary: p g es)
  case (Suc n)
  then show ?case
    by (cases "hand_off_one p") (auto dest: hand_off_one_ok)
qed simp

lemma take_slip_ok:
  assumes "in_flight 0 p" and "bt_get (pool_ledger p) pid = Some c"
  shows "in_flight 1 (p\<lparr>pool_ledger := (if c - 1 = 0 then bt_remove pid (pool_ledger p)
            else bt_insert pid (c - 1) (pool_ledger p))\<rparr>)"
proof -
  have wf: "bt_wf (pool_ledger p)" using assms(1) by (simp add: in_flight_def)
  have c: "c \<noteq> 0" using assms bt_get_Some_in [OF assms(2)] by (auto simp: in_flight_def list_all_iff)
  then have u: "unat c = unat (c - 1) + 1" by (metis Suc_eq_plus1 unat_minus_one Suc_pred' unat_gt_0)
  have lc: "ledger_count (pool_ledger p) pid = c" using assms(2) by (simp add: ledger_count_def)
  have "slips_held (bt_remove pid (pool_ledger p)) + unat c = slips_held (pool_ledger p)"
    using slips_held_remove [OF wf, of pid] lc by simp
  moreover have "slips_held (bt_insert pid (c - 1) (pool_ledger p)) + unat c
      = slips_held (pool_ledger p) + unat (c - 1)"
    using slips_held_insert [OF wf, of pid "c - 1"] lc by simp
  ultimately show ?thesis using assms(1) u wf
    by (auto simp: in_flight_def list_all_bt_remove list_all_bt_insert)
qed

lemma drop_waiters_eq:
  "drop_waiters pid ws kept evs =
    (kept @ filter (\<lambda>w. fst w \<noteq> pid) ws, evs @ map (\<lambda>w. (snd w, Denied)) (filter (\<lambda>w. fst w = pid) ws))"
  by (induction pid ws kept evs rule: drop_waiters.induct) auto

lemma reap_start_ok:
  assumes "in_flight 0 p"
  shows "in_flight (unat (ledger_count (pool_ledger p) pid))
    (p\<lparr>pool_waiters := filter f (pool_waiters p), pool_ledger := bt_remove pid (pool_ledger p)\<rparr>)"
  using assms slips_held_remove [of "pool_ledger p" pid]
  by (auto simp: in_flight_def list_all_bt_remove)

lemma acquire_ok: "pool_ok p \<Longrightarrow> acquire p pid r nb = (p', w, es) \<Longrightarrow> pool_ok p'"
  using incr_ok [of "pool_ledger p" pid]
  by (auto simp: pool_ok_def acquire_def split: if_splits)

lemma release_ok: "pool_ok p \<Longrightarrow> release p pid = (p', g, es) \<Longrightarrow> pool_ok p'"
  unfolding pool_ok_in_flight
  using take_slip_ok [of p pid] hand_off_one_ok [of 0]
  by (auto simp: release_def split: option.splits if_splits)

lemma reap_pid_ok: "pool_ok p \<Longrightarrow> reap_pid p pid = (p', g, es) \<Longrightarrow> pool_ok p'"
  unfolding pool_ok_in_flight
  using reap_start_ok [of p pid] hand_off_n_ok
  by (fastforce simp: reap_pid_def drop_waiters_eq)

lemma reap_box_ok: "pool_ok p \<Longrightarrow> reap_box p pids = (p', g, es) \<Longrightarrow> pool_ok p'"
proof (induction pids arbitrary: p p' g es)
  case (Cons pid pids)
  then show ?case
    by (auto split: prod.splits dest: reap_pid_ok)
qed simp

section \<open>Replies\<close>

definition waiting :: "'r pool \<Rightarrow> 'r list" where
  "waiting p = map snd (pool_waiters p)"

lemma grants_simps [simp]:
  "grants [] = []" "grants ((r, Granted) # es) = r # grants es" "grants ((r, Denied) # es) = grants es"
  "grants (es @ es') = grants es @ grants es'"
  by (simp_all add: grants_def)

lemma grants_denied [simp]: "grants (map (\<lambda>w. (f w, Denied)) ws) = []"
  by (induction ws) auto

lemma hand_off_one_replies:
  "hand_off_one p = (p', g, es) \<Longrightarrow> waiting p = map fst es @ waiting p' \<and> grants es = map fst es"
  by (auto simp: hand_off_one_def waiting_def split: list.splits)

lemma hand_off_n_replies:
  "hand_off_n n p g es = (p', g', es') \<Longrightarrow>
    \<exists>new. es' = es @ new \<and> waiting p = map fst new @ waiting p' \<and> grants new = map fst new"
proof (induction n arbitrary: p g es)
  case (Suc n)
  obtain q h fs where o: "hand_off_one p = (q, h, fs)" by (cases "hand_off_one p")
  with Suc obtain new where "es' = (es @ fs) @ new" "waiting q = map fst new @ waiting p'" "grants new = map fst new"
    by (fastforce split: option.splits)
  with hand_off_one_replies [OF o] show ?case by (intro exI [of _ "fs @ new"]) auto
qed simp

text \<open>What every call promises of the replies entrusted to the pool.\<close>

definition replies_ok :: "'r pool \<Rightarrow> 'r list \<Rightarrow> 'r events \<Rightarrow> 'r pool \<Rightarrow> bool" where
  "replies_ok p new es p' \<longleftrightarrow>
     mset (waiting p @ new) = mset (map fst es @ waiting p')
     \<and> subseq (grants es @ waiting p') (waiting p @ new)"

lemma acquire_replies:
  "pool_ok p \<Longrightarrow> acquire p pid r nb = (p', w, es) \<Longrightarrow> replies_ok p [r] es p'"
  by (auto simp: acquire_def replies_ok_def waiting_def pool_ok_def split: if_splits)

lemma hand_off_replies_ok:
  "waiting p = map fst es @ waiting p' \<Longrightarrow> grants es = map fst es \<Longrightarrow> replies_ok p [] es p'"
  by (simp add: replies_ok_def)

lemma waiting_ledger [simp]: "waiting (p\<lparr>pool_ledger := l\<rparr>) = waiting p"
  by (simp add: waiting_def)

lemma replies_ok_none: "replies_ok p [] [] p"
  by (simp add: replies_ok_def)

lemma release_replies: "release p pid = (p', g, es) \<Longrightarrow> replies_ok p [] es p'"
  by (auto simp: release_def replies_ok_none split: option.splits if_splits
      dest!: hand_off_one_replies intro!: hand_off_replies_ok)

lemma mset_filter_split:
  "mset (map f xs) = mset (map f (filter P xs)) + mset (map f (filter (\<lambda>x. \<not> P x) xs))"
  by (induction xs) auto

lemma reap_pid_replies:
  assumes "reap_pid p pid = (p', g, es)"
  shows "replies_ok p [] es p'"
proof -
  let ?keep = "filter (\<lambda>w. fst w \<noteq> pid) (pool_waiters p)"
  let ?gone = "filter (\<lambda>w. fst w = pid) (pool_waiters p)"
  from assms hand_off_n_replies obtain new where
    es: "es = map (\<lambda>w. (snd w, Denied)) ?gone @ new"
    and k: "map snd ?keep = map fst new @ waiting p'" "grants new = map fst new"
    unfolding reap_pid_def drop_waiters_eq by (fastforce simp: waiting_def)
  have "mset (waiting p) = mset (map snd ?gone) + mset (map snd ?keep)"
    unfolding waiting_def by (rule mset_filter_split)
  moreover have "subseq (map snd ?keep) (waiting p)"
    unfolding waiting_def by (intro subseq_map subseq_filter_left)
  ultimately show ?thesis using es k by (simp add: replies_ok_def comp_def)
qed

lemma replies_ok_trans:
  assumes "replies_ok p a es q" and "replies_ok q b fs r"
  shows "replies_ok p (a @ b) (es @ fs) r"
proof -
  have "subseq (grants es @ (grants fs @ waiting r)) (grants es @ (waiting q @ b))"
    by (rule list_emb_append_mono) (use assms(2) in \<open>auto simp: replies_ok_def\<close>)
  moreover have "subseq ((grants es @ waiting q) @ b) ((waiting p @ a) @ b)"
    by (rule list_emb_append_mono) (use assms(1) in \<open>auto simp: replies_ok_def\<close>)
  ultimately have "subseq (grants (es @ fs) @ waiting r) (waiting p @ a @ b)"
    by (auto intro: subseq_order.order_trans)
  moreover have "mset (waiting p @ a @ b) = mset (map fst (es @ fs) @ waiting r)"
  proof -
    have "mset (waiting p @ a @ b) = mset (waiting p @ a) + mset b" by simp
    also have "\<dots> = mset (map fst es) + mset (waiting q @ b)"
      using assms(1) by (simp add: replies_ok_def add.assoc)
    also have "\<dots> = mset (map fst (es @ fs) @ waiting r)"
      using assms(2) by (simp add: replies_ok_def add.assoc)
    finally show ?thesis .
  qed
  ultimately show ?thesis by (simp add: replies_ok_def)
qed

lemma reap_box_replies: "reap_box p pids = (p', g, es) \<Longrightarrow> replies_ok p [] es p'"
proof (induction pids arbitrary: p p' g es)
  case (Cons pid pids)
  obtain p1 g1 e1 where 1: "reap_pid p pid = (p1, g1, e1)" by (cases "reap_pid p pid")
  obtain p2 g2 e2 where 2: "reap_box p1 pids = (p2, g2, e2)" by (cases "reap_box p1 pids")
  from replies_ok_trans [OF reap_pid_replies [OF 1] Cons.IH [OF 2]] Cons.prems 1 2
  show ?case by simp
qed (simp add: replies_ok_def)

section \<open>The contract of a slip authority\<close>

locale slip_authority =
  fixes step :: "'r pool \<Rightarrow> 'c \<Rightarrow> 'r pool \<times> 'r events"
    and run :: "'r pool \<Rightarrow> 'c list \<Rightarrow> 'r pool \<times> 'r events"
    and tokens :: "'c list \<Rightarrow> 'r list"
  assumes step_ok: "pool_ok p \<Longrightarrow> step p c = (p', es) \<Longrightarrow> pool_ok p'"
    and step_replies: "pool_ok p \<Longrightarrow> step p c = (p', es) \<Longrightarrow> replies_ok p (tokens [c]) es p'"
    and step_total: "step p c = (p', es) \<Longrightarrow> pool_total p' = pool_total p"
    and run_Nil: "run p [] = (p, [])"
    and run_Cons: "run p (c # cs) = (let (p1, e1) = step p c; (p2, e2) = run p1 cs in (p2, e1 @ e2))"
    and tokens_Nil: "tokens [] = []"
    and tokens_Cons: "tokens (c # cs) = tokens [c] @ tokens cs"
begin

lemma run_ok:
  "pool_ok p \<Longrightarrow> run p cs = (p', es) \<Longrightarrow>
    pool_ok p' \<and> pool_total p' = pool_total p \<and> replies_ok p (tokens cs) es p'"
proof (induction cs arbitrary: p es)
  case Nil
  then show ?case by (simp add: run_Nil tokens_Nil replies_ok_none)
next
  case (Cons c cs)
  obtain p1 e1 where 1: "step p c = (p1, e1)" by (cases "step p c")
  obtain p2 e2 where 2: "run p1 cs = (p2, e2)" by (cases "run p1 cs")
  from Cons.prems(2) 1 2 have eq: "p' = p2" "es = e1 @ e2" by (simp_all add: run_Cons)
  from Cons.IH [OF step_ok [OF Cons.prems(1) 1]] 2
  have ih: "pool_ok p2" "pool_total p2 = pool_total p1" "replies_ok p1 (tokens cs) e2 p2" by (simp_all add: eq)
  from replies_ok_trans [OF step_replies [OF Cons.prems(1) 1] ih(3)] ih(1,2) step_total [OF 1] eq
  show ?case by (simp add: tokens_Cons [of c cs])
qed

end

lemma hand_off_one_total: "hand_off_one p = (p', g, es) \<Longrightarrow> pool_total p' = pool_total p"
  by (auto simp: hand_off_one_def split: list.splits)

lemma hand_off_n_total: "hand_off_n n p g es = (p', g', es') \<Longrightarrow> pool_total p' = pool_total p"
proof (induction n arbitrary: p g es)
  case (Suc n)
  then show ?case by (cases "hand_off_one p") (fastforce dest: hand_off_one_total)
qed simp

lemma release_total: "release p pid = (p', g, es) \<Longrightarrow> pool_total p' = pool_total p"
  by (auto simp: release_def split: option.splits if_splits dest: hand_off_one_total)

lemma reap_pid_total: "reap_pid p pid = (p', g, es) \<Longrightarrow> pool_total p' = pool_total p"
  by (auto simp: reap_pid_def drop_waiters_eq dest: hand_off_n_total)

lemma reap_box_total: "reap_box p pids = (p', g, es) \<Longrightarrow> pool_total p' = pool_total p"
proof (induction pids arbitrary: p p' g es)
  case (Cons pid pids)
  then show ?case by (auto split: prod.splits dest: reap_pid_total)
qed simp

interpretation slips: slip_authority pool_step pool_run submitted
proof
  fix p :: "'a pool" and c p' es
  assume "pool_ok p" and s: "pool_step p c = (p', es)"
  then show "pool_ok p'"
    by (cases c) (auto split: prod.splits dest: acquire_ok release_ok reap_pid_ok reap_box_ok)
next
  fix p :: "'a pool" and c p' es
  assume "pool_ok p" and s: "pool_step p c = (p', es)"
  then show "replies_ok p (submitted [c]) es p'"
    by (cases c) (auto split: prod.splits dest: acquire_replies release_replies reap_pid_replies reap_box_replies)
next
  fix p :: "'a pool" and c p' es
  assume s: "pool_step p c = (p', es)"
  then show "pool_total p' = pool_total p"
    by (cases c) (auto simp: acquire_def split: prod.splits if_splits
        dest: release_total reap_pid_total reap_box_total)
next
  fix c :: "'a pool_call" and cs
  show "submitted (c # cs) = submitted [c] @ submitted cs" by (cases c) auto
qed simp_all

section \<open>Reaping\<close>

text \<open>Who is known to the pool: holders and waiters.\<close>

definition known :: "'r pool \<Rightarrow> int set" where
  "known p = {pid. bt_get (pool_ledger p) pid \<noteq> None} \<union> fst ` set (pool_waiters p)"

lemma known_hand_off_one: "hand_off_one p = (p', g, es) \<Longrightarrow> known p' \<subseteq> known p"
  by (auto simp: hand_off_one_def known_def ledger_incr_def split: list.splits)

lemma known_hand_off_n: "hand_off_n n p g es = (p', g', es') \<Longrightarrow> known p' \<subseteq> known p"
proof (induction n arbitrary: p g es)
  case (Suc n)
  then show ?case by (cases "hand_off_one p") (fastforce dest: known_hand_off_one)
qed simp

lemma known_acquire: "acquire p pid r nb = (p', w, es) \<Longrightarrow> known p' \<subseteq> known p \<union> (if w = WatchPid pid then {pid} else {})"
  by (auto simp: acquire_def known_def ledger_incr_def split: if_splits)

lemma known_release: "bt_wf (pool_ledger p) \<Longrightarrow> release p pid = (p', g, es) \<Longrightarrow> known p' \<subseteq> known p"
proof -
  assume wf: "bt_wf (pool_ledger p)" and r: "release p pid = (p', g, es)"
  have *: "known (p\<lparr>pool_ledger := (if c - 1 = 0 then bt_remove pid (pool_ledger p)
      else bt_insert pid (c - 1) (pool_ledger p))\<rparr>) \<subseteq> known p"
    if "bt_get (pool_ledger p) pid = Some c" for c
    using that wf by (auto simp: known_def split: if_splits)
  show ?thesis
  proof (cases "p' = p")
    case False
    with r obtain c where "bt_get (pool_ledger p) pid = Some c"
      and "hand_off_one (p\<lparr>pool_ledger := (if c - 1 = 0 then bt_remove pid (pool_ledger p)
        else bt_insert pid (c - 1) (pool_ledger p))\<rparr>) = (p', g, es)"
      by (auto simp: release_def split: option.splits if_splits)
    with * known_hand_off_one show ?thesis by (meson subset_trans)
  qed simp
qed

lemma known_reap_pid:
  assumes "bt_wf (pool_ledger p)" and "reap_pid p pid = (p', g, es)"
  shows "known p' \<subseteq> known p - {pid}"
proof -
  let ?q = "p\<lparr>pool_waiters := filter (\<lambda>w. fst w \<noteq> pid) (pool_waiters p),
    pool_ledger := bt_remove pid (pool_ledger p)\<rparr>"
  have "known p' \<subseteq> known ?q"
    using assms(2) by (auto simp: reap_pid_def drop_waiters_eq dest!: known_hand_off_n)
  also have "\<dots> \<subseteq> known p - {pid}"
    using assms(1) by (auto simp: known_def split: if_splits)
  finally show ?thesis .
qed

text \<open>What reaping does to the ledger: the dead process is forgotten, the slips it held go to the
  first waiters that survive, one each, and the others become free.\<close>

definition credit :: "(int, u32) btree \<Rightarrow> int list \<Rightarrow> (int, u32) btree" where
  "credit ledger pids = fold ledger_incr pids ledger"

lemma hand_off_n_eq:
  "hand_off_n n p g es =
     (let k = min n (length (pool_waiters p)); ws = take k (pool_waiters p) in
      (p\<lparr>pool_waiters := drop k (pool_waiters p), pool_ledger := credit (pool_ledger p) (map fst ws),
         pool_available := pool_available p + (n - k)\<rparr>,
       g @ map fst ws, es @ map (\<lambda>w. (snd w, Granted)) ws))"
proof (induction n arbitrary: p g es)
  case 0
  then show ?case by (simp add: credit_def)
next
  case (Suc n)
  show ?case
  proof (cases "pool_waiters p")
    case Nil
    then show ?thesis by (simp add: hand_off_one_def Suc.IH credit_def)
  next
    case (Cons w ws)
    then show ?thesis by (cases w) (simp add: hand_off_one_def Suc.IH credit_def Let_def)
  qed
qed

lemma reap_pid_eq:
  "reap_pid p pid =
     (let held = held_by p pid; ws = filter (\<lambda>w. fst w \<noteq> pid) (pool_waiters p);
          k = min held (length ws) in
      (p\<lparr>pool_waiters := drop k ws, pool_available := pool_available p + (held - k),
         pool_ledger := credit (bt_remove pid (pool_ledger p)) (map fst (take k ws))\<rparr>,
       map fst (take k ws),
       map (\<lambda>w. (snd w, Denied)) (filter (\<lambda>w. fst w = pid) (pool_waiters p))
         @ map (\<lambda>w. (snd w, Granted)) (take k ws)))"
  by (simp add: reap_pid_def drop_waiters_eq hand_off_n_eq held_by_def Let_def)

section \<open>Properties\<close>

text \<open>C2: the machine bound. Starting from a fresh pool of at most \<open>2^32 - 1\<close> slips, after any
  sequence of acquires, releases and reaps by any processes, free slips and slips recorded in the
  ledger add up to exactly the capacity the pool was created with. No call loses a slip or makes one
  up, no process is recorded with an empty or wrapped-around count, and nobody is kept waiting while a
  slip is free.\<close>

theorem pool_conserves_slips:
  assumes "n < 2 ^ 32" and "pool_run (pool_new n) calls = (p, es)"
  shows "pool_available p + slips_held (pool_ledger p) = max n 1
    \<and> (\<forall>pid. held_by p pid \<le> max n 1)
    \<and> (pool_waiters p \<noteq> [] \<longrightarrow> pool_available p = 0)"
proof -
  have "pool_ok (pool_new n :: 'a pool)"
    using assms(1) by (auto simp: pool_ok_def pool_new_def slips_held_def Let_def max_def)
  from slips.run_ok [OF this assms(2)] have ok: "pool_ok p" and t: "pool_total p = max n 1"
    by (simp_all add: pool_new_def Let_def)
  have "held_by p pid \<le> max n 1" for pid
    using ok t count_le_held [of "pool_ledger p" pid] by (auto simp: pool_ok_def held_by_def)
  with ok t show ?thesis by (auto simp: pool_ok_def)
qed

theorem pool_conserves_slips_witness:
  "\<exists>p es. pool_run (pool_new 2) [Acquire 10 (0 :: nat) False, Acquire 11 1 False, Acquire 12 2 False,
      ReapPid 10, Release 11] = (p, es) \<and> pool_available p = 1 \<and> slips_held (pool_ledger p) = 1"
proof -
  let ?cs = "[Acquire 10 (0 :: nat) False, Acquire 11 1 False, Acquire 12 2 False, ReapPid 10, Release 11]"
  obtain p es where r: "pool_run (pool_new 2) ?cs = (p, es)" by fastforce
  moreover from r have "pool_available p = 1"
    by (auto simp: pool_new_def acquire_def release_def reap_pid_def hand_off_one_def ledger_incr_def
        ledger_count_def Let_def)
  ultimately show ?thesis using pool_conserves_slips [OF _ r] by auto
qed

text \<open>C10: every reply channel entrusted to the pool is answered at most once and is never dropped.
  After any sequence of calls, the channels submitted are exactly (as a multiset) those answered and
  those still waiting. Grants are first come, first served: the channels granted, in the order of the
  grants, followed by the queue, form a subsequence of the order of submission.\<close>

theorem pool_answers_once_in_order:
  assumes "n < 2 ^ 32" and "pool_run (pool_new n) calls = (p, es)"
  shows "mset (submitted calls) = mset (map fst es) + mset (waiting p)
    \<and> subseq (grants es @ waiting p) (submitted calls)"
proof -
  have "pool_ok (pool_new n :: 'a pool)"
    using assms(1) by (auto simp: pool_ok_def pool_new_def slips_held_def Let_def max_def)
  from slips.run_ok [OF this assms(2)] have "replies_ok (pool_new n) (submitted calls) es p" by simp
  moreover have "waiting (pool_new n :: 'a pool) = []" by (simp add: waiting_def pool_new_def Let_def)
  ultimately show ?thesis by (simp add: replies_ok_def)
qed

theorem pool_answers_once_in_order_witness:
  "\<exists>p es. pool_run (pool_new 1) [Acquire 10 (0 :: nat) False, Acquire 11 1 False, Release 10] = (p, es)
     \<and> subseq (grants es @ waiting p) [0, 1] \<and> mset [0, 1] = mset (map fst es) + mset (waiting p)"
proof -
  let ?cs = "[Acquire 10 (0 :: nat) False, Acquire 11 1 False, Release 10]"
  obtain p es where r: "pool_run (pool_new 1) ?cs = (p, es)" by fastforce
  with pool_answers_once_in_order [OF _ r] show ?thesis by auto
qed

text \<open>C11: reaping a dead process returns all it had. Its waiting requests, and only they, are denied, in
  queue order, and it is recorded nowhere any more; the first waiters of other processes, as many as it
  held slips, are then granted one slip each in queue order, the remaining slips become free, and no
  other process's count changes except by those grants. Nothing else is answered.\<close>

theorem reap_pid_returns_all:
  assumes "pool_ok p"
  shows "case reap_pid p pid of (p', granted, es) \<Rightarrow>
    held_by p' pid = 0 \<and> pid \<notin> fst ` set (pool_waiters p')
    \<and> (let ws = filter (\<lambda>w. fst w \<noteq> pid) (pool_waiters p); k = min (held_by p pid) (length ws) in
       granted = map fst (take k ws) \<and> pool_waiters p' = drop k ws
       \<and> pool_available p' = pool_available p + (held_by p pid - k)
       \<and> pool_ledger p' = credit (bt_remove pid (pool_ledger p)) granted
       \<and> es = map (\<lambda>w. (snd w, Denied)) (filter (\<lambda>w. fst w = pid) (pool_waiters p))
            @ map (\<lambda>w. (snd w, Granted)) (take k ws))"
proof -
  obtain p' g es where r: "reap_pid p pid = (p', g, es)" by (cases "reap_pid p pid")
  have wf: "bt_wf (pool_ledger p)" using assms by (simp add: pool_ok_def)
  have "pid \<notin> known p'" using known_reap_pid [OF wf r] by auto
  then have "held_by p' pid = 0 \<and> pid \<notin> fst ` set (pool_waiters p')"
    by (auto simp: known_def held_by_def ledger_count_def)
  then show ?thesis using r by (auto simp: reap_pid_eq Let_def)
qed

text \<open>Witness: a process with two slips and a request in the queue dies while another process waits.\<close>

theorem reap_pid_returns_all_witness:
  "let p = fst (pool_run (pool_new 2) [Acquire 10 (0 :: nat) False, Acquire 10 1 False, Acquire 10 2 False, Acquire 11 3 False])
   in pool_ok p \<and> held_by p 10 = 2 \<and>
      (case reap_pid p 10 of (p', granted, es) \<Rightarrow>
         held_by p' 10 = 0 \<and> granted = [11] \<and> es = [(2, Denied), (3, Granted)])"
proof -
  let ?p = "\<lparr>pool_total = 2, pool_available = 0, pool_ledger = [(10, 2)], pool_waiters = [(10, 2 :: nat), (11, 3)]\<rparr>"
  have "fst (pool_run (pool_new 2) [Acquire 10 0 False, Acquire 10 1 False, Acquire 10 2 False, Acquire 11 3 False]) = ?p"
    by (simp add: pool_new_def acquire_def ledger_incr_def ledger_count_def Let_def)
  moreover have "pool_ok ?p" by (simp add: pool_ok_def slips_held_def)
  moreover have "held_by ?p 10 = 2" by (simp add: held_by_def ledger_count_def)
  ultimately show ?thesis using reap_pid_returns_all [of ?p 10] by (auto simp: Let_def split: prod.splits)
qed

end
