(* ===== verification/Slip_Reaper.thy ===== *)
theory Slip_Reaper
  imports Slip_Pool
begin

text \<open>
  The reaper of \<open>engine/src/slippool.rs\<close> (Linux) and the handler that feeds it
  (\<open>acquire_jobserver\<close> of \<open>engine/src/sarunfs/synthetic.rs\<close>), as threads interleaved at the lock
  boundaries of the code: the handler takes the pool lock to acquire and drops it before it calls
  \<open>watch\<close>; \<open>watch\<close> takes the lock of \<open>watched\<close> twice with the system call \<open>pidfd_open\<close> in between and
  reaps without holding it; the reaper thread removes a pid from \<open>watched\<close> and reaps it in two
  critical sections. Processes exit at any moment. What the kernel answers (a pidfd or an error, the
  result of \<open>epoll_ctl\<close>) is arbitrary; it reports the exit of a process whose pidfd is registered.
\<close>

section \<open>Definitions\<close>

text \<open>Where a thread stands inside \<open>Reaper::watch\<close>.\<close>

datatype watch_pc =
    WCheck          \<comment> \<open>about to look the pid up in \<open>watched\<close>\<close>
  | WOpen           \<comment> \<open>not watched: about to call \<open>pidfd_open\<close>\<close>
  | WRegister int   \<comment> \<open>has a pidfd: about to take the lock again and register it\<close>
  | WReap           \<comment> \<open>the pid is gone or could not be registered: about to reap it\<close>

record 'r reaper_sys =
  rs_pool :: "'r pool"
  rs_watched :: "(int, int) btree"
  rs_threads :: "(int \<times> watch_pc) list"
  rs_reaping :: "int option"
  rs_dead :: "int set"

definition reaper_init :: "nat \<Rightarrow> 'r reaper_sys" where
  "reaper_init n = \<lparr>rs_pool = pool_new n, rs_watched = [], rs_threads = [], rs_reaping = None, rs_dead = {}\<rparr>"

text \<open>The handler \<open>acquire_jobserver\<close>: acquire under the pool lock, then, for a host process, watch
  the pid the pool asked to watch.\<close>

definition acquire_jobserver :: "'r reaper_sys \<Rightarrow> int \<Rightarrow> 'r \<Rightarrow> bool \<Rightarrow> bool \<Rightarrow> 'r reaper_sys" where
  "acquire_jobserver s actor reply nonblocking watch_host_pid =
     (let (p, w, _) = acquire (rs_pool s) actor reply nonblocking in
      s\<lparr>rs_pool := p,
        rs_threads := (if watch_host_pid
          then case w of WatchPid pid \<Rightarrow> rs_threads s @ [(pid, WCheck)] | WatchNone \<Rightarrow> rs_threads s
          else rs_threads s)\<rparr>)"

text \<open>One critical section or system call of the \<open>i\<close>th thread inside \<open>watch\<close>. \<open>fd\<close> is the answer of
  \<open>pidfd_open\<close>, \<open>rc\<close> that of \<open>epoll_ctl\<close>.\<close>

definition remove_nth :: "nat \<Rightarrow> 'a list \<Rightarrow> 'a list" where
  "remove_nth i xs = take i xs @ drop (Suc i) xs"

definition watch_step :: "'r reaper_sys \<Rightarrow> nat \<Rightarrow> int \<Rightarrow> int \<Rightarrow> 'r reaper_sys" where
  "watch_step s i fd rc =
     (let (pid, pc) = rs_threads s ! i;
          goto = (\<lambda>pc'. s\<lparr>rs_threads := (rs_threads s)[i := (pid, pc')]\<rparr>);
          finish = (\<lambda>s'. s'\<lparr>rs_threads := remove_nth i (rs_threads s)\<rparr>) in
      case pc of
        WCheck \<Rightarrow> if bt_contains (rs_watched s) pid then finish s else goto WOpen
      | WOpen \<Rightarrow> if fd < 0 then goto WReap else goto (WRegister fd)
      | WRegister pidfd \<Rightarrow>
          if bt_contains (rs_watched s) pid then finish s
          else if rc < 0 then goto WReap
          else finish (s\<lparr>rs_watched := bt_insert pid pidfd (rs_watched s)\<rparr>)
      | WReap \<Rightarrow> finish (s\<lparr>rs_pool := fst (reap_pid (rs_pool s) pid)\<rparr>))"

text \<open>The reaper thread: an event for \<open>pid\<close> removes it from \<open>watched\<close> (the pidfd is closed), then the
  slips of \<open>pid\<close> are reaped under the pool lock.\<close>

definition run_event :: "'r reaper_sys \<Rightarrow> int \<Rightarrow> 'r reaper_sys" where
  "run_event s pid =
     s\<lparr>rs_watched := bt_remove pid (rs_watched s), rs_reaping := Some pid\<rparr>"

definition run_reap :: "'r reaper_sys \<Rightarrow> 'r reaper_sys" where
  "run_reap s =
     (case rs_reaping s of
        None \<Rightarrow> s
      | Some pid \<Rightarrow> s\<lparr>rs_pool := fst (reap_pid (rs_pool s) pid), rs_reaping := None\<rparr>)"

inductive reaper_step :: "'r reaper_sys \<Rightarrow> 'r reaper_sys \<Rightarrow> bool" where
  rs_acquire: "watch_host_pid = (0 < actor) \<Longrightarrow>
     reaper_step s (acquire_jobserver s actor reply nonblocking watch_host_pid)"
| rs_release: "release (rs_pool s) pid = (p, g, es) \<Longrightarrow> reaper_step s (s\<lparr>rs_pool := p\<rparr>)"
| rs_box: "reap_box (rs_pool s) pids = (p, g, es) \<Longrightarrow> reaper_step s (s\<lparr>rs_pool := p\<rparr>)"
| rs_exit: "reaper_step s (s\<lparr>rs_dead := insert pid (rs_dead s)\<rparr>)"
| rs_watch: "i < length (rs_threads s) \<Longrightarrow> reaper_step s (watch_step s i fd rc)"
| rs_event: "bt_contains (rs_watched s) pid \<Longrightarrow> pid \<in> rs_dead s \<Longrightarrow> rs_reaping s = None \<Longrightarrow>
     reaper_step s (run_event s pid)"
| rs_reap: "rs_reaping s \<noteq> None \<Longrightarrow> reaper_step s (run_reap s)"

inductive reaper_reach :: "nat \<Rightarrow> 'r reaper_sys \<Rightarrow> bool" for n where
  reach_init: "reaper_reach n (reaper_init n)"
| reach_step: "reaper_reach n s \<Longrightarrow> reaper_step s s' \<Longrightarrow> reaper_reach n s'"

inductive_cases reaper_stepE: "reaper_step s s'"

text \<open>The coverage invariant: a host process the pool knows is watched, about to be watched, or about
  to be reaped.\<close>

definition covered :: "'r reaper_sys \<Rightarrow> bool" where
  "covered s \<longleftrightarrow> pool_ok (rs_pool s) \<and> bt_wf (rs_watched s)
     \<and> (\<forall>pid. 0 < pid \<and> pid \<in> known (rs_pool s) \<longrightarrow>
          bt_contains (rs_watched s) pid \<or> pid \<in> fst ` set (rs_threads s) \<or> rs_reaping s = Some pid)"

section \<open>Coverage is kept by every step\<close>

lemma remove_nth_keys:
  "i < length xs \<Longrightarrow> fst ` set xs \<subseteq> insert (fst (xs ! i)) (fst ` set (remove_nth i xs))"
proof -
  assume "i < length xs"
  then have "set xs = set (take i xs @ xs ! i # drop (Suc i) xs)" by (simp add: id_take_nth_drop [symmetric])
  then show ?thesis by (auto simp: remove_nth_def)
qed

lemma update_keys: "i < length xs \<Longrightarrow> fst y = fst (xs ! i) \<Longrightarrow> fst ` set (xs[i := y]) = fst ` set xs"
proof -
  assume "i < length xs" and "fst y = fst (xs ! i)"
  then have "map fst (xs[i := y]) = map fst xs" by (metis list_update_id map_update nth_map)
  then show ?thesis by (metis set_map)
qed

lemma covered_acquire: "covered s \<Longrightarrow> covered (acquire_jobserver s actor r nb (0 < actor))"
proof -
  assume c: "covered s"
  obtain p w es where a: "acquire (rs_pool s) actor r nb = (p, w, es)" by (cases "acquire (rs_pool s) actor r nb")
  have "pool_ok p" using acquire_ok [OF _ a] c by (simp add: covered_def)
  moreover have "known p \<subseteq> known (rs_pool s) \<union> (if w = WatchPid actor then {actor} else {})"
    by (rule known_acquire) (rule a)
  ultimately show ?thesis using c a
    by (auto simp: covered_def acquire_jobserver_def split: watch.splits if_splits)
qed

lemma covered_pool:
  "covered s \<Longrightarrow> pool_ok p \<Longrightarrow> known p \<subseteq> known (rs_pool s) \<Longrightarrow> covered (s\<lparr>rs_pool := p\<rparr>)"
  by (auto simp: covered_def)

lemma reap_fst:
  assumes "covered s"
  shows "pool_ok (fst (reap_pid (rs_pool s) pid))"
    and "known (fst (reap_pid (rs_pool s) pid)) \<subseteq> known (rs_pool s) - {pid}"
proof -
  have ok: "pool_ok (rs_pool s)" using assms by (simp add: covered_def)
  then have wf: "bt_wf (pool_ledger (rs_pool s))" by (simp add: pool_ok_def)
  obtain p g es where r: "reap_pid (rs_pool s) pid = (p, g, es)" by (cases "reap_pid (rs_pool s) pid")
  show "pool_ok (fst (reap_pid (rs_pool s) pid))" using reap_pid_ok [OF ok r] r by simp
  show "known (fst (reap_pid (rs_pool s) pid)) \<subseteq> known (rs_pool s) - {pid}"
    using known_reap_pid [OF wf r] r by simp
qed

lemma known_reap_box: "pool_ok p \<Longrightarrow> reap_box p pids = (p', g, es) \<Longrightarrow> known p' \<subseteq> known p"
proof (induction pids arbitrary: p p' g es)
  case (Cons pid pids)
  obtain p1 g1 e1 where 1: "reap_pid p pid = (p1, g1, e1)" by (cases "reap_pid p pid")
  obtain p2 g2 e2 where 2: "reap_box p1 pids = (p2, g2, e2)" by (cases "reap_box p1 pids")
  have "known p1 \<subseteq> known p" using known_reap_pid [OF _ 1] Cons.prems(1) by (auto simp: pool_ok_def)
  moreover have "known p2 \<subseteq> known p1" by (rule Cons.IH [OF reap_pid_ok [OF Cons.prems(1) 1] 2])
  ultimately show ?case using Cons.prems(2) 1 2 by auto
qed simp

lemma covered_watch_step:
  assumes c: "covered s" and i: "i < length (rs_threads s)"
  shows "covered (watch_step s i fd rc)"
proof -
  obtain pid pc where t: "rs_threads s ! i = (pid, pc)" by fastforce
  have goto: "covered (s\<lparr>rs_threads := (rs_threads s)[i := (pid, pc')]\<rparr>)" for pc'
    using c update_keys [OF i, of "(pid, pc')"] t by (simp add: covered_def)
  have keys: "fst ` set (rs_threads s) \<subseteq> insert pid (fst ` set (remove_nth i (rs_threads s)))"
    using remove_nth_keys [OF i] t by simp
  have finish: "covered (s\<lparr>rs_threads := remove_nth i (rs_threads s)\<rparr>)" if "bt_contains (rs_watched s) pid"
    using c keys that unfolding covered_def by simp blast
  have register: "covered (s\<lparr>rs_watched := bt_insert pid f (rs_watched s),
      rs_threads := remove_nth i (rs_threads s)\<rparr>)" for f
    using c keys unfolding covered_def bt_contains_def by simp blast
  have reap: "covered (s\<lparr>rs_pool := fst (reap_pid (rs_pool s) pid), rs_threads := remove_nth i (rs_threads s)\<rparr>)"
    using c keys reap_fst [OF c, of pid] unfolding covered_def by simp blast
  show ?thesis
    using goto finish register reap t by (cases pc) (auto simp: watch_step_def Let_def)
qed

lemma covered_run_event: "covered s \<Longrightarrow> rs_reaping s = None \<Longrightarrow> covered (run_event s pid)"
  by (auto simp: covered_def run_event_def bt_contains_def)

lemma covered_run_reap: "covered s \<Longrightarrow> covered (run_reap s)"
proof (cases "rs_reaping s")
  case (Some pid)
  moreover assume "covered s"
  ultimately show ?thesis
    using reap_fst [of s pid] unfolding covered_def run_reap_def by simp blast
qed (simp add: run_reap_def)

lemma covered_step: "reaper_step s s' \<Longrightarrow> covered s \<Longrightarrow> covered s'"
proof (induction rule: reaper_step.induct)
  case (rs_release s pid p g es)
  then have ok: "pool_ok (rs_pool s)" by (simp add: covered_def)
  with rs_release show ?case
    by (intro covered_pool release_ok [OF ok] known_release) (auto simp: pool_ok_def)
next
  case (rs_box s pids p g es)
  then have ok: "pool_ok (rs_pool s)" by (simp add: covered_def)
  with rs_box show ?case by (intro covered_pool reap_box_ok [OF ok] known_reap_box [OF ok])
next
  case (rs_exit s pid)
  then show ?case by (simp add: covered_def)
qed (simp_all add: covered_acquire covered_watch_step covered_run_event covered_run_reap)

lemma reachable_covered: "reaper_reach n s \<Longrightarrow> n < 2 ^ 32 \<Longrightarrow> covered s"
proof (induction rule: reaper_reach.induct)
  case reach_init
  then show ?case
    by (auto simp: covered_def reaper_init_def pool_ok_def pool_new_def slips_held_def Let_def known_def max_def)
qed (use covered_step in blast)

section \<open>Properties\<close>

text \<open>C9: no slip is leaked by a process that dies, whatever the interleaving of handlers, exits and
  the reaper thread. In every reachable state a dead host process that still holds a slip or waits for
  one is due to be reaped: its exit event can be delivered now, or the reaper thread has already taken
  it and is about to reap, or a thread is still inside \<open>watch\<close> for it. In particular, once no thread is
  inside \<open>watch\<close>, the reaper is idle and no exit event is outstanding, no dead host process holds a slip
  or blocks the queue. Handling its event leaves it with no slip and no queued request.\<close>

theorem dead_process_is_reaped:
  assumes "reaper_reach n s" and "n < 2 ^ 32" and "0 < pid" and "pid \<in> rs_dead s"
    and "held_by (rs_pool s) pid \<noteq> 0 \<or> pid \<in> fst ` set (pool_waiters (rs_pool s))"
  shows "((bt_contains (rs_watched s) pid \<and> (rs_reaping s = None \<longrightarrow> reaper_step s (run_event s pid)))
     \<or> rs_reaping s = Some pid \<or> (\<exists>pc. (pid, pc) \<in> set (rs_threads s)))
    \<and> held_by (rs_pool (run_reap (run_event s pid))) pid = 0
    \<and> pid \<notin> fst ` set (pool_waiters (rs_pool (run_reap (run_event s pid))))"
proof -
  have c: "covered s" by (rule reachable_covered [OF assms(1,2)])
  have "pid \<in> known (rs_pool s)"
    using assms(5) by (auto simp: known_def held_by_def ledger_count_def split: option.splits)
  with c assms(3,4) have "(bt_contains (rs_watched s) pid
      \<and> (rs_reaping s = None \<longrightarrow> reaper_step s (run_event s pid)))
     \<or> rs_reaping s = Some pid \<or> (\<exists>pc. (pid, pc) \<in> set (rs_threads s))"
    by (force simp: covered_def intro: rs_event)
  moreover have "pid \<notin> known (rs_pool (run_reap (run_event s pid)))"
    using reap_fst(2) [OF c, of pid] by (auto simp: run_reap_def run_event_def)
  ultimately show ?thesis by (auto simp: known_def held_by_def ledger_count_def)
qed

theorem dead_process_is_reaped_witness:
  "\<exists>s :: nat reaper_sys. reaper_reach 1 s \<and> 7 \<in> rs_dead s \<and> held_by (rs_pool s) 7 = 1
    \<and> held_by (rs_pool (run_reap (run_event s 7))) 7 = 0"
proof -
  let ?s1 = "acquire_jobserver (reaper_init 1) 7 (0 :: nat) False True"
  let ?s = "?s1\<lparr>rs_dead := insert 7 (rs_dead ?s1)\<rparr>"
  have "reaper_step (reaper_init 1) ?s1" using rs_acquire [of True 7] by simp
  then have r: "reaper_reach 1 ?s" by (blast intro: reach_init reach_step rs_exit)
  have h: "held_by (rs_pool ?s) 7 = 1"
    by (simp add: acquire_jobserver_def reaper_init_def pool_new_def acquire_def held_by_def
        ledger_incr_def ledger_count_def Let_def)
  with dead_process_is_reaped [OF r, of 7] r show ?thesis by (intro exI [of _ ?s]) simp
qed

end
