(* ===== verification/Depot_Model.thy ===== *)
theory Depot_Model
  imports Sarun_Prelude
begin

text \<open>
  The node model and the layer algebra of \<open>chupa/depot/src/lib.rs\<close>: resolved trees (\<open>View\<close>), delta
  trees (\<open>Node\<close>), and the operations on them. \<open>Arc\<close> sharing is copy-on-write and not observable, so a
  shared value is the value; a \<open>BTreeMap\<close> is a strictly ascending association list; a \<open>for\<close> loop that
  recurses is a function over the list of children beside the one over nodes. The theory holds the
  definitions and the well-formedness of both kinds of tree; the laws are in \<open>Depot_Algebra\<close>.
\<close>

section \<open>Trees\<close>

type_synonym name = bytes
type_synonym attrs = "(name, bytes) btree"

datatype view = View (vblob: "bytes option") (vattrs: attrs) (vchildren: "(name \<times> view) list")

datatype blob_op = Keep | Set bytes | Remove

datatype presence = Live | Tombstone

datatype anchor = Lower | Backdrop

datatype node =
  Node (npresence: presence) (nblob: blob_op) (nopaque: bool) (nattrs: "attrs option")
    (nanchor: anchor) (nchildren: "(name \<times> node) list")

record layer =
  root :: node

definition keep :: node where
  "keep = Node Live Keep False None Lower []"

definition tombstone :: node where
  "tombstone = Node Tombstone Keep False None Lower []"

definition hole :: node where
  "hole = Node Live Keep False None Backdrop []"

definition is_identity :: "node \<Rightarrow> bool" where
  "is_identity n \<longleftrightarrow> npresence n = Live \<and> nblob n = Keep \<and> \<not> nopaque n \<and> nattrs n = None
     \<and> nanchor n = Lower \<and> nchildren n = []"

definition empty_layer :: layer where
  "empty_layer = \<lparr>root = keep\<rparr>"

text \<open>Well-formed trees: every map is strictly ascending. A layer cannot delete its own root.\<close>

fun view_wf :: "view \<Rightarrow> bool" where
  "view_wf (View blob attrs children) \<longleftrightarrow>
     bt_wf attrs \<and> bt_wf children \<and> list_all (\<lambda>(_, c). view_wf c) children"

fun node_wf :: "node \<Rightarrow> bool" where
  "node_wf (Node pres blob opaq attrs anchor children) \<longleftrightarrow>
     pred_option bt_wf attrs \<and> bt_wf children \<and> list_all (\<lambda>(_, c). node_wf c) children"

definition layer_wf :: "layer \<Rightarrow> bool" where
  "layer_wf l \<longleftrightarrow> node_wf (root l) \<and> npresence (root l) = Live"

section \<open>Apply\<close>

definition is_empty_view :: "view \<Rightarrow> bool" where
  "is_empty_view v \<longleftrightarrow> vblob v = None \<and> vattrs v = [] \<and> vchildren v = []"

definition asserts_self :: "node \<Rightarrow> bool" where
  "asserts_self n \<longleftrightarrow> nblob n \<noteq> Keep \<or> nattrs n \<noteq> None \<or> nopaque n"

fun apply_node :: "view option \<Rightarrow> node \<Rightarrow> view option"
  and apply_children :: "(name \<times> view) list \<Rightarrow> (name \<times> view) list \<Rightarrow> (name \<times> node) list
    \<Rightarrow> (name \<times> view) list" where
  "apply_node base (Node pres blob_op opaq attrs_op anchor kids) =
     (if pres = Tombstone then None
      else
        let base_empty_present = (case base of None \<Rightarrow> False | Some b \<Rightarrow> is_empty_view b);
            blob = (case blob_op of
                Keep \<Rightarrow> Option.bind base vblob
              | Set bs \<Rightarrow> Some bs
              | Remove \<Rightarrow> None);
            attrs = (case attrs_op of
                Some m \<Rightarrow> m
              | None \<Rightarrow> (case base of None \<Rightarrow> [] | Some b \<Rightarrow> vattrs b));
            lower = (if opaq then [] else case base of None \<Rightarrow> [] | Some b \<Rightarrow> vchildren b);
            untouched = filter (\<lambda>(name, _). \<not> bt_contains kids name) lower;
            children = apply_children lower untouched kids;
            exists = (blob \<noteq> None \<or> attrs \<noteq> [] \<or> children \<noteq> []
              \<or> asserts_self (Node pres blob_op opaq attrs_op anchor kids) \<or> base_empty_present)
        in if exists then Some (View blob attrs children) else None)"
| "apply_children lower acc [] = acc"
| "apply_children lower acc ((name, child) # kids) =
     apply_children lower
       (case apply_node (bt_get lower name) child of
          Some v \<Rightarrow> bt_insert name v acc
        | None \<Rightarrow> acc) kids"

definition apply_layer :: "view option \<Rightarrow> layer \<Rightarrow> view option" where
  "apply_layer base l = apply_node base (root l)"

text \<open>The in-place variant.\<close>

definition empty_view :: view where
  "empty_view = View None [] []"

fun apply_child_mut :: "view option \<Rightarrow> node \<Rightarrow> view option"
  and mutate_view :: "view \<Rightarrow> node \<Rightarrow> view"
  and mutate_children :: "(name \<times> view) list \<Rightarrow> (name \<times> node) list \<Rightarrow> (name \<times> view) list" where
  "apply_child_mut slot (Node pres blob_op opaq attrs_op anchor kids) =
     (if pres = Tombstone then None
      else
        let base_empty_present = (case slot of None \<Rightarrow> False | Some b \<Rightarrow> is_empty_view b);
            v = mutate_view (case slot of None \<Rightarrow> empty_view | Some b \<Rightarrow> b)
                  (Node pres blob_op opaq attrs_op anchor kids);
            exists = (vblob v \<noteq> None \<or> vattrs v \<noteq> [] \<or> vchildren v \<noteq> []
              \<or> asserts_self (Node pres blob_op opaq attrs_op anchor kids) \<or> base_empty_present)
        in if exists then Some v else None)"
| "mutate_view v (Node pres blob_op opaq attrs_op anchor kids) =
     View (case blob_op of Keep \<Rightarrow> vblob v | Set bs \<Rightarrow> Some bs | Remove \<Rightarrow> None)
       (case attrs_op of Some m \<Rightarrow> m | None \<Rightarrow> vattrs v)
       (mutate_children (if opaq then [] else vchildren v) kids)"
| "mutate_children children [] = children"
| "mutate_children children ((name, child) # kids) =
     mutate_children
       (case apply_child_mut (bt_get children name) child of
          Some c \<Rightarrow> bt_insert name c (bt_remove name children)
        | None \<Rightarrow> bt_remove name children) kids"

definition apply_node_mut :: "view option \<Rightarrow> node \<Rightarrow> view option" where
  "apply_node_mut slot n =
     (if npresence n = Tombstone then None
      else
        let base_empty_present = (case slot of None \<Rightarrow> False | Some b \<Rightarrow> is_empty_view b);
            v = mutate_view (case slot of None \<Rightarrow> empty_view | Some b \<Rightarrow> b) n;
            exists = (vblob v \<noteq> None \<or> vattrs v \<noteq> [] \<or> vchildren v \<noteq> []
              \<or> asserts_self n \<or> base_empty_present)
        in if exists then Some v else None)"

definition apply_mut :: "view option \<Rightarrow> layer \<Rightarrow> view option" where
  "apply_mut base l = apply_node_mut base (root l)"

definition resolve :: "layer list \<Rightarrow> view option" where
  "resolve stack = fold (\<lambda>l v. apply_layer v l) stack None"

section \<open>Compose\<close>

fun materializes :: "node \<Rightarrow> bool" where
  "materializes (Node pres blob opaq attrs anchor kids) \<longleftrightarrow>
     pres = Live \<and> (asserts_self (Node pres blob opaq attrs anchor kids)
       \<or> list_ex (\<lambda>(_, c). materializes c) kids)"

fun harden :: "node \<Rightarrow> node"
  and harden_children :: "(name \<times> node) list \<Rightarrow> (name \<times> node) list" where
  "harden (Node pres blob opaq attrs anchor kids) =
     (if \<not> materializes (Node pres blob opaq attrs anchor kids) then tombstone
      else Node Live (case blob of Set bs \<Rightarrow> Set bs | _ \<Rightarrow> Remove) True
             (Some (case attrs of None \<Rightarrow> [] | Some m \<Rightarrow> m)) Lower (harden_children kids))"
| "harden_children [] = []"
| "harden_children ((k, v) # kids) =
     (let h = harden v in
      if npresence h = Live then (k, h) # harden_children kids else harden_children kids)"

fun compose_right :: "bool \<Rightarrow> (name \<times> node) list \<Rightarrow> (name \<times> node) list \<Rightarrow> (name \<times> node) list
    \<Rightarrow> (name \<times> node) list" where
  "compose_right a_opaque a_kids kids [] = kids"
| "compose_right a_opaque a_kids kids ((name, bc) # b_kids) =
     compose_right a_opaque a_kids
       (if bt_contains a_kids name then kids
        else if a_opaque then
          (let h = harden bc in if npresence h = Live then bt_insert name h kids else kids)
        else if \<not> is_identity bc then bt_insert name bc kids
        else kids) b_kids"

fun compose_node :: "node \<Rightarrow> node \<Rightarrow> node"
  and compose_left :: "(name \<times> node) list \<Rightarrow> (name \<times> node) list \<Rightarrow> (name \<times> node) list
    \<Rightarrow> (name \<times> node) list" where
  "compose_node (Node a_pres a_blob a_opaq a_attrs a_anchor a_kids) b =
     (if npresence b = Tombstone then tombstone
      else if nanchor b = Backdrop then b
      else if a_pres = Tombstone then harden b
      else
        let blob = (case nblob b of Keep \<Rightarrow> a_blob | other \<Rightarrow> other);
            attrs = (case nattrs b of Some m \<Rightarrow> Some m | None \<Rightarrow> a_attrs);
            (opaq, children) =
              (if nopaque b then (True, harden_children (nchildren b))
               else (a_opaq,
                 compose_right a_opaq a_kids (compose_left (nchildren b) [] a_kids) (nchildren b)))
        in Node Live blob opaq attrs a_anchor children)"
| "compose_left b_kids kids [] = kids"
| "compose_left b_kids kids ((name, ac) # a_kids) =
     compose_left b_kids
       (case bt_get b_kids name of
          Some bc \<Rightarrow>
            (let c = compose_node ac bc in if \<not> is_identity c then bt_insert name c kids else kids)
        | None \<Rightarrow> bt_insert name ac kids) a_kids"

definition compose :: "layer \<Rightarrow> layer \<Rightarrow> layer" where
  "compose a b = \<lparr>root = compose_node (root a) (root b)\<rparr>"

definition squash :: "layer list \<Rightarrow> layer" where
  "squash stack = fold (\<lambda>l acc. compose acc l) stack empty_layer"

definition resolve_over :: "view option \<Rightarrow> layer list \<Rightarrow> view option" where
  "resolve_over backdrop stack = apply_layer backdrop (squash stack)"

section \<open>Diff\<close>

text \<open>\<open>same\<close> stands for \<open>Arc::ptr_eq\<close> on two children: whether two slots hold the same allocation is
  not a function of the values, so it is a parameter.\<close>

fun diff_removed :: "(name \<times> view) list \<Rightarrow> (name \<times> node) list \<Rightarrow> (name \<times> view) list
    \<Rightarrow> (name \<times> node) list" where
  "diff_removed t_kids kids [] = kids"
| "diff_removed t_kids kids ((name, _) # b_kids) =
     diff_removed t_kids
       (if \<not> bt_contains t_kids name then bt_insert name tombstone kids else kids) b_kids"

fun diff_node :: "(view \<Rightarrow> view \<Rightarrow> bool) \<Rightarrow> view option \<Rightarrow> view \<Rightarrow> node"
  and diff_children :: "(view \<Rightarrow> view \<Rightarrow> bool) \<Rightarrow> view option \<Rightarrow> (name \<times> node) list
    \<Rightarrow> (name \<times> view) list \<Rightarrow> (name \<times> node) list" where
  "diff_node same base (View t_blob t_attrs t_kids) =
     (let blob = (case (Option.bind base vblob, t_blob) of
              (Some old, Some new) \<Rightarrow> if old = new then Keep else Set new
            | (None, Some new) \<Rightarrow> Set new
            | (Some _, None) \<Rightarrow> Remove
            | (None, None) \<Rightarrow> Keep);
          attrs = (case base of
              Some b \<Rightarrow> if vattrs b = t_attrs then None else Some t_attrs
            | None \<Rightarrow> if t_attrs = [] then None else Some t_attrs);
          removed = (case base of None \<Rightarrow> [] | Some b \<Rightarrow> diff_removed t_kids [] (vchildren b));
          children = diff_children same base removed t_kids;
          n = Node Live blob False attrs Lower children
      in if is_empty_view (View t_blob t_attrs t_kids) \<and> \<not> asserts_self n
            \<and> \<not> (case base of None \<Rightarrow> False | Some b \<Rightarrow> is_empty_view b)
         then Node Live blob False (Some t_attrs) Lower children
         else n)"
| "diff_children same base kids [] = kids"
| "diff_children same base kids ((name, tchild) # t_kids) =
     (let bchild = Option.bind base (\<lambda>b. bt_get (vchildren b) name) in
      diff_children same base
        (if (case bchild of None \<Rightarrow> False | Some b \<Rightarrow> same b tchild) then kids
         else let d = diff_node same bchild tchild in
           if \<not> is_identity d then bt_insert name d kids else kids) t_kids)"

definition diff :: "(view \<Rightarrow> view \<Rightarrow> bool) \<Rightarrow> view option \<Rightarrow> view option \<Rightarrow> layer" where
  "diff same base target =
     (case target of
        Some t \<Rightarrow> \<lparr>root = diff_node same base t\<rparr>
      | None \<Rightarrow> \<lparr>root = Node Live Remove True (Some []) Lower []\<rparr>)"

section \<open>Rotation\<close>

definition records :: "node \<Rightarrow> bool" where
  "records n \<longleftrightarrow> \<not> is_identity n"

definition facets_recorded :: "node \<Rightarrow> bool" where
  "facets_recorded n \<longleftrightarrow> npresence n = Tombstone \<or> nblob n \<noteq> Keep \<or> nattrs n \<noteq> None
     \<or> nopaque n \<or> nanchor n = Backdrop"

definition replicate_node :: "node \<Rightarrow> node" where
  "replicate_node net =
     (if npresence net = Tombstone then tombstone
      else Node (npresence net) (nblob net) (nopaque net) (nattrs net) Backdrop (nchildren net))"

fun inverse_node :: "node option \<Rightarrow> node \<Rightarrow> node"
  and inverse_children :: "node option \<Rightarrow> (name \<times> node) list \<Rightarrow> (name \<times> node) list
    \<Rightarrow> (name \<times> node) list" where
  "inverse_node net (Node pres blob opaq attrs anchor kids) =
     (if facets_recorded (Node pres blob opaq attrs anchor kids)
      then case net of Some n \<Rightarrow> replicate_node n | None \<Rightarrow> hole
      else if (case net of Some n \<Rightarrow> npresence n = Tombstone | None \<Rightarrow> False) then tombstone
      else Node Live Keep False None Lower (inverse_children net [] kids))"
| "inverse_children net out [] = out"
| "inverse_children net out ((name, bc) # kids) =
     inverse_children net
       (if \<not> records bc then out
        else let inv = inverse_node (Option.bind net (\<lambda>n. bt_get (nchildren n) name)) bc in
          if \<not> is_identity inv then bt_insert name inv out else out) kids"

definition rotate_layers :: "layer list \<Rightarrow> layer \<Rightarrow> layer \<Rightarrow> layer \<times> layer" where
  "rotate_layers ancestors a b =
     (let b_new = compose a b; net = squash (ancestors @ [a]) in
      (b_new, \<lparr>root = inverse_node (Some (root net)) (root b)\<rparr>))"

end
