(* ===== verification/Depot_Algebra.thy ===== *)
theory Depot_Algebra
  imports Depot_Model
begin

text \<open>
  The laws of the layer algebra. A resolved tree is read as the function from paths to facets it
  presents (\<open>content\<close>), a delta as a function on such functions (\<open>sem\<close>): \<open>apply\<close> implements \<open>sem\<close>, and
  \<open>compose\<close> of anchor-free layers implements the composition of their meanings. Existence of
  contentless nodes is finer than content; the theory shows where the algebra is exact.
\<close>

section \<open>Induction and lookups\<close>

lemma node_induct [case_names Node]:
  assumes "\<And>pres blob opaq attrs anchor kids.
    (\<And>k c. (k, c) \<in> set kids \<Longrightarrow> P c) \<Longrightarrow> P (Node pres blob opaq attrs anchor kids)"
  shows "P n"
  by (induction n) (rule assms, force)

lemma view_induct [case_names View]:
  assumes "\<And>blob attrs kids. (\<And>k c. (k, c) \<in> set kids \<Longrightarrow> P c) \<Longrightarrow> P (View blob attrs kids)"
  shows "P v"
  by (induction v) (rule assms, force)

definition lower_kids :: "view option \<Rightarrow> bool \<Rightarrow> (name \<times> view) list" where
  "lower_kids base opaq = (if opaq then [] else case base of None \<Rightarrow> [] | Some b \<Rightarrow> vchildren b)"

definition eff_blob :: "view option \<Rightarrow> blob_op \<Rightarrow> bytes option" where
  "eff_blob base blob_op = (case blob_op of Keep \<Rightarrow> Option.bind base vblob | Set bs \<Rightarrow> Some bs | Remove \<Rightarrow> None)"

definition eff_attrs :: "view option \<Rightarrow> attrs option \<Rightarrow> attrs" where
  "eff_attrs base attrs_op = (case attrs_op of Some m \<Rightarrow> m
     | None \<Rightarrow> (case base of None \<Rightarrow> [] | Some b \<Rightarrow> vattrs b))"

definition eff_kids :: "view option \<Rightarrow> bool \<Rightarrow> (name \<times> node) list \<Rightarrow> (name \<times> view) list" where
  "eff_kids base opaq kids = apply_children (lower_kids base opaq)
     (filter (\<lambda>(name, _). \<not> bt_contains kids name) (lower_kids base opaq)) kids"

definition empty_present :: "view option \<Rightarrow> bool" where
  "empty_present base = (case base of None \<Rightarrow> False | Some b \<Rightarrow> is_empty_view b)"

lemma apply_node_eq:
  "apply_node base (Node pres blob_op opaq attrs_op anchor kids) =
    (if pres = Tombstone then None
     else if eff_blob base blob_op \<noteq> None \<or> eff_attrs base attrs_op \<noteq> [] \<or> eff_kids base opaq kids \<noteq> []
       \<or> asserts_self (Node pres blob_op opaq attrs_op anchor kids) \<or> empty_present base
     then Some (View (eff_blob base blob_op) (eff_attrs base attrs_op) (eff_kids base opaq kids))
     else None)"
  by (simp add: Let_def eff_blob_def eff_attrs_def eff_kids_def lower_kids_def empty_present_def)

declare apply_node.simps [simp del]

lemma apply_children_get:
  "bt_wf kids \<Longrightarrow> bt_get (apply_children lower acc kids) k =
    (case bt_get kids k of
       None \<Rightarrow> bt_get acc k
     | Some c \<Rightarrow> (case apply_node (bt_get lower k) c of Some v \<Rightarrow> Some v | None \<Rightarrow> bt_get acc k))"
proof (induction kids arbitrary: acc)
  case (Cons x kids)
  obtain name child where x: "x = (name, child)" by fastforce
  then have "bt_get kids name = None" using Cons.prems by (auto simp: bt_get_None_iff)
  then show ?case using Cons x by (auto split: option.splits)
qed simp

lemma apply_children_wf: "bt_wf acc \<Longrightarrow> bt_wf (apply_children lower acc kids)"
proof (induction kids arbitrary: acc)
  case (Cons x kids)
  then show ?case by (cases x) (auto split: option.splits)
qed simp

lemma lower_kids_wf: "pred_option view_wf base \<Longrightarrow> bt_wf (lower_kids base opaq)"
  by (auto simp: lower_kids_def split: option.splits elim!: view_wf.elims)

lemma eff_kids_get:
  "bt_wf kids \<Longrightarrow> bt_get (eff_kids base opaq kids) k =
    (case bt_get kids k of
       None \<Rightarrow> bt_get (lower_kids base opaq) k
     | Some c \<Rightarrow> apply_node (bt_get (lower_kids base opaq) k) c)"
  by (auto simp: eff_kids_def apply_children_get bt_get_filter_key bt_contains_def split: option.splits)

lemma eff_kids_wf: "pred_option view_wf base \<Longrightarrow> bt_wf (eff_kids base opaq kids)"
  by (simp add: eff_kids_def apply_children_wf bt_wf_filter lower_kids_wf)

lemma view_wf_child: "view_wf v \<Longrightarrow> pred_option view_wf (bt_get (vchildren v) k)"
  by (cases v) (auto simp: list_all_iff option.pred_set dest: bt_get_Some_in)

lemma lower_kids_child: "pred_option view_wf base \<Longrightarrow> pred_option view_wf (bt_get (lower_kids base opaq) k)"
  using view_wf_child by (auto simp: lower_kids_def split: option.splits)

lemma node_wf_child: "node_wf n \<Longrightarrow> bt_get (nchildren n) k = Some c \<Longrightarrow> node_wf c"
  by (cases n) (auto simp: list_all_iff dest: bt_get_Some_in)

lemma view_wf_iff:
  "view_wf v \<longleftrightarrow> bt_wf (vattrs v) \<and> bt_wf (vchildren v) \<and> (\<forall>k. pred_option view_wf (bt_get (vchildren v) k))"
proof (cases v)
  case (View b a kids)
  have "list_all (\<lambda>(_, c). view_wf c) kids \<longleftrightarrow> (\<forall>k. pred_option view_wf (bt_get kids k))" if "bt_wf kids"
    using that by (fastforce simp: list_all_iff option.pred_set dest: bt_get_Some_in intro: bt_in_get)
  with View show ?thesis by auto
qed

lemma node_wf_iff:
  "node_wf n \<longleftrightarrow> pred_option bt_wf (nattrs n) \<and> bt_wf (nchildren n)
     \<and> (\<forall>k. pred_option node_wf (bt_get (nchildren n) k))"
proof (cases n)
  case (Node p b q a x kids)
  have "list_all (\<lambda>(_, c). node_wf c) kids \<longleftrightarrow> (\<forall>k. pred_option node_wf (bt_get kids k))" if "bt_wf kids"
    using that by (fastforce simp: list_all_iff option.pred_set dest: bt_get_Some_in intro: bt_in_get)
  with Node show ?thesis by auto
qed

lemma apply_node_wf: "node_wf n \<Longrightarrow> pred_option view_wf base \<Longrightarrow> pred_option view_wf (apply_node base n)"
proof (induction n arbitrary: base rule: node_induct)
  case (Node pres blob opaq attrs anchor kids)
  have "pred_option view_wf (bt_get (eff_kids base opaq kids) k)" for k
    using Node.prems lower_kids_child [OF Node.prems(2)] Node.IH
    by (auto simp: eff_kids_get list_all_iff dest!: bt_get_Some_in split: option.splits)
  moreover have "bt_wf (eff_attrs base attrs)"
    using Node.prems by (auto simp: eff_attrs_def view_wf_iff split: option.splits)
  ultimately show ?case
    using eff_kids_wf [OF Node.prems(2)] by (auto simp: apply_node_eq view_wf_iff)
qed

section \<open>In-place application\<close>

lemma mutate_children_get:
  "bt_wf kids \<Longrightarrow> bt_wf children \<Longrightarrow> bt_get (mutate_children children kids) k =
    (case bt_get kids k of
       None \<Rightarrow> bt_get children k
     | Some c \<Rightarrow> apply_child_mut (bt_get children k) c)"
proof (induction kids arbitrary: children)
  case (Cons x kids)
  obtain name child where x: "x = (name, child)" by fastforce
  then have "bt_get kids name = None" using Cons.prems by (auto simp: bt_get_None_iff)
  then show ?case using Cons x by (auto split: option.splits)
qed simp

lemma mutate_children_wf: "bt_wf children \<Longrightarrow> bt_wf (mutate_children children kids)"
proof (induction kids arbitrary: children)
  case (Cons x kids)
  then show ?case by (cases x) (auto split: option.splits)
qed simp

lemma apply_child_mut_eq:
  "node_wf n \<Longrightarrow> pred_option view_wf slot \<Longrightarrow> apply_child_mut slot n = apply_node slot n"
proof (induction n arbitrary: slot rule: node_induct)
  case (Node pres blob opaq attrs anchor kids)
  let ?v = "case slot of None \<Rightarrow> empty_view | Some b \<Rightarrow> b"
  have low: "(if opaq then [] else vchildren ?v) = lower_kids slot opaq"
    by (simp add: lower_kids_def empty_view_def split: option.splits)
  have wf: "bt_wf (lower_kids slot opaq)" by (rule lower_kids_wf) (rule Node.prems)
  have kids: "bt_wf kids" using Node.prems by simp
  have "bt_get (mutate_children (lower_kids slot opaq) kids) k = bt_get (eff_kids slot opaq kids) k" for k
  proof (cases "bt_get kids k")
    case (Some c)
    then have "(k, c) \<in> set kids" by (rule bt_get_Some_in)
    moreover from this have "node_wf c" using Node.prems(1) by (auto simp: list_all_iff)
    ultimately show ?thesis
      using Node.IH lower_kids_child [OF Node.prems(2)] Some
      by (simp add: mutate_children_get [OF kids wf] eff_kids_get [OF kids])
  qed (simp add: mutate_children_get [OF kids wf] eff_kids_get [OF kids])
  then have "mutate_children (lower_kids slot opaq) kids = eff_kids slot opaq kids"
    by (intro bt_ext ext mutate_children_wf wf eff_kids_wf Node.prems)
  moreover have "(case blob of Keep \<Rightarrow> vblob ?v | Set bs \<Rightarrow> Some bs | Remove \<Rightarrow> None) = eff_blob slot blob"
    by (simp add: eff_blob_def empty_view_def split: option.splits blob_op.splits)
  moreover have "(case attrs of Some m \<Rightarrow> m | None \<Rightarrow> vattrs ?v) = eff_attrs slot attrs"
    by (simp add: eff_attrs_def empty_view_def split: option.splits)
  ultimately have "mutate_view ?v (Node pres blob opaq attrs anchor kids)
      = View (eff_blob slot blob) (eff_attrs slot attrs) (eff_kids slot opaq kids)"
    by (simp only: mutate_view.simps low)
  then show ?case
    by (simp only: apply_child_mut.simps apply_node_eq Let_def view.sel empty_present_def)
qed

lemma apply_node_mut_eq: "apply_node_mut slot n = apply_child_mut slot n"
  by (cases n) (simp add: apply_node_mut_def)

section \<open>Content and the meaning of a delta\<close>

type_synonym facets = "bytes option \<times> attrs"
type_synonym content = "name list \<Rightarrow> facets"

definition nothing :: content where
  "nothing = (\<lambda>_. (None, []))"

fun content :: "view option \<Rightarrow> content" where
  "content None p = (None, [])"
| "content (Some v) [] = (vblob v, vattrs v)"
| "content (Some v) (k # p) = content (bt_get (vchildren v) k) p"

definition below :: "bool \<Rightarrow> content \<Rightarrow> name \<Rightarrow> content" where
  "below masked f k = (if masked then nothing else (\<lambda>p. f (k # p)))"

fun sem :: "node \<Rightarrow> content \<Rightarrow> content" where
  "sem n f [] =
     (if npresence n = Tombstone then (None, [])
      else (case nblob n of Keep \<Rightarrow> fst (f []) | Set bs \<Rightarrow> Some bs | Remove \<Rightarrow> None,
            case nattrs n of Some m \<Rightarrow> m | None \<Rightarrow> snd (f [])))"
| "sem n f (k # p) =
     (if npresence n = Tombstone then (None, [])
      else case bt_get (nchildren n) k of
          None \<Rightarrow> below (nopaque n) f k p
        | Some c \<Rightarrow> sem c (below (nopaque n) f k) p)"

lemma content_None [simp]: "content None = nothing"
  by (simp add: fun_eq_iff nothing_def)

lemma nothing_simp [simp]: "nothing p = (None, [])"
  by (simp add: nothing_def)

lemma nothing_fold [simp]: "(\<lambda>_. (None, [])) = nothing"
  by (simp add: fun_eq_iff)

lemma below_nothing [simp]: "below q nothing k = nothing"
  by (simp add: below_def fun_eq_iff)

lemma content_lower: "content (bt_get (lower_kids base opaq) k) = below opaq (content base) k"
  by (cases base) (auto simp: lower_kids_def below_def fun_eq_iff)

lemma content_apply_node:
  "content (apply_node base (Node pres blob opaq attrs anchor kids)) p =
    (if pres = Tombstone then (None, [])
     else case p of
         [] \<Rightarrow> (eff_blob base blob, eff_attrs base attrs)
       | k # q \<Rightarrow> content (bt_get (eff_kids base opaq kids) k) q)"
  by (auto simp: apply_node_eq split: list.splits)

lemma apply_node_sem: "node_wf n \<Longrightarrow> content (apply_node base n) = sem n (content base)"
proof -
  have "node_wf n \<Longrightarrow> content (apply_node base n) p = sem n (content base) p" for p
  proof (induction p arbitrary: n base)
    case Nil
    then show ?case
      by (cases n; cases base) (auto simp: content_apply_node eff_blob_def eff_attrs_def split: blob_op.splits option.splits)
  next
    case (Cons k p)
    obtain pres blob opaq attrs anchor kids where n: "n = Node pres blob opaq attrs anchor kids" by (cases n)
    then have kids: "bt_wf kids" using Cons.prems by simp
    show ?case
    proof (cases "bt_get kids k")
      case None
      then show ?thesis by (simp add: n content_apply_node eff_kids_get [OF kids] content_lower)
    next
      case (Some c)
      then have "node_wf c" using Cons.prems node_wf_child [of n k c] n by simp
      with Some show ?thesis
        by (simp add: n content_apply_node eff_kids_get [OF kids] Cons.IH content_lower)
    qed
  qed
  then show "node_wf n \<Longrightarrow> content (apply_node base n) = sem n (content base)" by blast
qed

section \<open>Lookups in hardened and composed nodes\<close>

lemma harden_children_keys: "fst ` set (harden_children kids) \<subseteq> fst ` set kids"
proof (induction kids)
  case (Cons x kids)
  then show ?case by (cases x) (auto simp: Let_def)
qed simp

lemma harden_children_wf: "bt_wf kids \<Longrightarrow> bt_wf (harden_children kids)"
proof (induction kids)
  case (Cons x kids)
  obtain k v where x: "x = (k, v)" by fastforce
  have "\<forall>y \<in> fst ` set (harden_children kids). k < y"
    using Cons.prems x harden_children_keys [of kids] by fastforce
  with Cons x show ?case by (auto simp: Let_def)
qed simp

lemma harden_children_get:
  "bt_wf kids \<Longrightarrow> bt_get (harden_children kids) k =
    Option.bind (bt_get kids k) (\<lambda>c. if npresence (harden c) = Live then Some (harden c) else None)"
proof (induction kids)
  case (Cons x kids)
  obtain name c where x: "x = (name, c)" by fastforce
  then have "bt_get kids name = None" using Cons.prems by (auto simp: bt_get_None_iff)
  with Cons x show ?case by (auto simp: Let_def)
qed simp

lemma compose_left_wf: "bt_wf kids \<Longrightarrow> bt_wf (compose_left b_kids kids a_kids)"
proof (induction a_kids arbitrary: kids)
  case (Cons x a_kids)
  then show ?case by (cases x) (auto simp: Let_def split: option.splits)
qed simp

lemma compose_left_get:
  "bt_wf a_kids \<Longrightarrow> bt_get (compose_left b_kids kids a_kids) k =
    (case bt_get a_kids k of
       None \<Rightarrow> bt_get kids k
     | Some ac \<Rightarrow> (case bt_get b_kids k of
         None \<Rightarrow> Some ac
       | Some bc \<Rightarrow> if is_identity (compose_node ac bc) then bt_get kids k else Some (compose_node ac bc)))"
proof (induction a_kids arbitrary: kids)
  case (Cons x a_kids)
  obtain name c where x: "x = (name, c)" by fastforce
  then have "bt_get a_kids name = None" using Cons.prems by (auto simp: bt_get_None_iff)
  with Cons x show ?case by (auto simp: Let_def split: option.splits)
qed simp

lemma compose_right_wf: "bt_wf kids \<Longrightarrow> bt_wf (compose_right q a_kids kids b_kids)"
proof (induction b_kids arbitrary: kids)
  case (Cons x b_kids)
  then show ?case by (cases x) (auto simp: Let_def)
qed simp

lemma compose_right_get:
  "bt_wf b_kids \<Longrightarrow> bt_get (compose_right q a_kids kids b_kids) k =
    (case bt_get b_kids k of
       None \<Rightarrow> bt_get kids k
     | Some bc \<Rightarrow>
         if bt_contains a_kids k then bt_get kids k
         else if q then (if npresence (harden bc) = Live then Some (harden bc) else bt_get kids k)
         else if is_identity bc then bt_get kids k else Some bc)"
proof (induction b_kids arbitrary: kids)
  case (Cons x b_kids)
  obtain name c where x: "x = (name, c)" by fastforce
  then have none: "bt_get b_kids name = None" and wf: "bt_wf b_kids"
    using Cons.prems by (auto simp: bt_get_None_iff)
  show ?case
  proof (cases "k = name")
    case True
    then show ?thesis using Cons.IH [OF wf] x none by (simp add: Let_def)
  next
    case False
    define acc where "acc = (if bt_contains a_kids name then kids
        else if q then let h = harden c in if npresence h = Live then bt_insert name h kids else kids
        else if \<not> is_identity c then bt_insert name c kids else kids)"
    have "bt_get acc k = bt_get kids k" using False by (simp add: acc_def Let_def)
    then show ?thesis using Cons.IH [OF wf, of acc] x False
      by (simp only: compose_right.simps acc_def [symmetric] bt_get.simps prod.case if_False)
  qed
qed simp

definition compose_kids :: "node \<Rightarrow> node \<Rightarrow> (name \<times> node) list" where
  "compose_kids a b =
     (if nopaque b then harden_children (nchildren b)
      else compose_right (nopaque a) (nchildren a) (compose_left (nchildren b) [] (nchildren a)) (nchildren b))"

lemma compose_kids_wf: "bt_wf (nchildren b) \<Longrightarrow> bt_wf (compose_kids a b)"
  by (simp add: compose_kids_def harden_children_wf compose_right_wf compose_left_wf)

lemma compose_kids_get:
  assumes "bt_wf (nchildren a)" and "bt_wf (nchildren b)" and "\<not> nopaque b"
  shows "bt_get (compose_kids a b) k =
    (case (bt_get (nchildren a) k, bt_get (nchildren b) k) of
       (None, None) \<Rightarrow> None
     | (Some ac, None) \<Rightarrow> Some ac
     | (Some ac, Some bc) \<Rightarrow> if is_identity (compose_node ac bc) then None else Some (compose_node ac bc)
     | (None, Some bc) \<Rightarrow>
         if nopaque a then (if npresence (harden bc) = Live then Some (harden bc) else None)
         else if is_identity bc then None else Some bc)"
  using assms by (simp add: compose_kids_def compose_right_get compose_left_get bt_contains_def split: option.splits)

lemma compose_node_eq:
  "compose_node a b =
    (if npresence b = Tombstone then tombstone
     else if nanchor b = Backdrop then b
     else if npresence a = Tombstone then harden b
     else Node Live (case nblob b of Keep \<Rightarrow> nblob a | other \<Rightarrow> other) (nopaque b \<or> nopaque a)
       (case nattrs b of Some m \<Rightarrow> Some m | None \<Rightarrow> nattrs a) (nanchor a) (compose_kids a b))"
  by (cases a) (simp add: compose_kids_def split: blob_op.splits option.splits)

declare compose_node.simps [simp del]

lemma harden_eq:
  "harden n =
    (if \<not> materializes n then tombstone
     else Node Live (case nblob n of Set bs \<Rightarrow> Set bs | _ \<Rightarrow> Remove) True
       (Some (case nattrs n of None \<Rightarrow> [] | Some m \<Rightarrow> m)) Lower (harden_children (nchildren n)))"
  by (cases n) (simp add: harden.simps)

declare harden.simps [simp del]

lemma tombstone_sel [simp]:
  "npresence tombstone = Tombstone" "nblob tombstone = Keep" "nopaque tombstone = False"
  "nattrs tombstone = None" "nanchor tombstone = Lower" "nchildren tombstone = []"
  by (simp_all add: tombstone_def)

lemma npresence_harden: "npresence (harden n) = Live \<longleftrightarrow> materializes n"
  by (simp add: harden_eq)

lemma node_wf_Node:
  "node_wf (Node pres blob opaq attrs anchor kids) \<longleftrightarrow> pred_option bt_wf attrs \<and> bt_wf kids
     \<and> (\<forall>k. pred_option node_wf (bt_get kids k))"
  by (simp only: node_wf_iff [of "Node pres blob opaq attrs anchor kids"] node.sel)

lemma tombstone_wf [simp]: "node_wf tombstone"
  by (simp add: tombstone_def)

declare node_wf.simps [simp del]

lemma harden_wf: "node_wf n \<Longrightarrow> node_wf (harden n)"
proof (induction n rule: node_induct)
  case (Node pres blob opaq attrs anchor kids)
  note wf = Node.prems [unfolded node_wf_Node]
  have "pred_option node_wf (bt_get (harden_children kids) k)" for k
  proof (cases "bt_get kids k")
    case (Some c)
    with wf have "node_wf c" by (metis option.pred_inject(2))
    with Some Node.IH [OF bt_get_Some_in [OF Some]] show ?thesis using wf by (simp add: harden_children_get)
  qed (simp add: wf harden_children_get)
  with wf show ?case
    by (auto simp: harden_eq node_wf_Node harden_children_wf split: option.splits)
qed

lemma compose_kids_child_wf:
  assumes "node_wf a" and "node_wf b"
    and "\<And>k ac bc. bt_get (nchildren a) k = Some ac \<Longrightarrow> node_wf bc \<Longrightarrow> node_wf (compose_node ac bc)"
  shows "pred_option node_wf (bt_get (compose_kids a b) k)"
proof -
  have wf: "bt_wf (nchildren a)" "bt_wf (nchildren b)" using assms by (auto simp: node_wf_iff)
  have ak: "pred_option node_wf (bt_get (nchildren a) k)" and bk: "pred_option node_wf (bt_get (nchildren b) k)"
    using assms by (simp_all add: node_wf_iff)
  show ?thesis
  proof (cases "nopaque b")
    case True
    then show ?thesis using bk wf harden_wf
      by (cases "bt_get (nchildren b) k") (simp_all add: compose_kids_def harden_children_get)
  next
    case False
    then show ?thesis using ak bk harden_wf assms(3)
      unfolding compose_kids_get [OF wf False]
      by (cases "bt_get (nchildren a) k"; cases "bt_get (nchildren b) k") auto
  qed
qed

lemma compose_node_wf: "node_wf a \<Longrightarrow> node_wf b \<Longrightarrow> node_wf (compose_node a b)"
proof (induction a arbitrary: b rule: node_induct)
  case (Node pres blob opaq attrs anchor kids)
  let ?a = "Node pres blob opaq attrs anchor kids"
  note wfa = Node.prems(1) [unfolded node_wf_Node]
  have "pred_option node_wf (bt_get (compose_kids ?a b) k)" for k
  proof (rule compose_kids_child_wf [OF Node.prems])
    fix k ac bc
    assume "bt_get (nchildren ?a) k = Some ac" and bc: "node_wf bc"
    then have *: "bt_get kids k = Some ac" by simp
    with wfa have "node_wf ac" by (metis option.pred_inject(2))
    then show "node_wf (compose_node ac bc)" using Node.IH [OF bt_get_Some_in [OF *]] bc by blast
  qed
  moreover have "pred_option bt_wf (nattrs b)" and "bt_wf (nchildren b)"
    using Node.prems(2) by (simp_all add: node_wf_iff)
  ultimately show ?case
    using Node.prems(2) wfa harden_wf [OF Node.prems(2)] compose_kids_wf [of b ?a]
    by (auto simp: compose_node_eq node_wf_Node split: option.splits)
qed

section \<open>Composition implements composition\<close>

text \<open>Layers whose facets all resolve against what lies below; a tombstone's fields are ignored.\<close>

fun anchor_free :: "node \<Rightarrow> bool" where
  "anchor_free (Node pres blob opaq attrs anchor kids) \<longleftrightarrow>
     pres = Tombstone \<or> anchor = Lower \<and> list_all (\<lambda>(_, c). anchor_free c) kids"

lemma anchor_free_child: "anchor_free n \<Longrightarrow> npresence n = Live \<Longrightarrow> bt_get (nchildren n) k = Some c \<Longrightarrow> anchor_free c"
  by (cases n) (auto simp: list_all_iff dest: bt_get_Some_in)

lemma anchor_free_anchor: "anchor_free n \<Longrightarrow> npresence n = Live \<Longrightarrow> nanchor n = Lower"
  by (cases n) auto

lemma sem_tombstone: "npresence n = Tombstone \<Longrightarrow> sem n f = nothing"
proof
  fix p
  assume "npresence n = Tombstone"
  then show "sem n f p = nothing p" by (cases p) simp_all
qed

lemma sem_identity: "is_identity n \<Longrightarrow> sem n f = f"
proof
  fix p
  assume "is_identity n"
  then show "sem n f p = f p" by (cases p) (simp_all add: is_identity_def below_def)
qed

lemma not_Live [simp]: "p \<noteq> Live \<longleftrightarrow> p = Tombstone" "p \<noteq> Tombstone \<longleftrightarrow> p = Live"
  by (cases p; simp)+

lemma sem_not_materializes: "\<not> materializes n \<Longrightarrow> sem n nothing = nothing"
proof
  fix p
  show "\<not> materializes n \<Longrightarrow> sem n nothing p = nothing p"
  proof (induction p arbitrary: n)
    case Nil
    then show ?case by (cases n) (auto simp: asserts_self_def)
  next
    case (Cons k p)
    obtain pres blob opaq attrs anchor kids where n: "n = Node pres blob opaq attrs anchor kids" by (cases n)
    show ?case
    proof (cases "bt_get kids k")
      case None
      then show ?thesis by (simp add: n)
    next
      case (Some c)
      then have "pres = Tombstone \<or> \<not> materializes c"
        using Cons.prems bt_get_Some_in [OF Some] by (auto simp: n list_ex_iff)
      with Cons.IH Some show ?thesis by (auto simp: n)
    qed
  qed
qed

lemma sem_harden: "node_wf n \<Longrightarrow> sem (harden n) f = sem n nothing"
proof
  fix p
  show "node_wf n \<Longrightarrow> sem (harden n) f p = sem n nothing p"
  proof (induction p arbitrary: n f)
    case Nil
    show ?case
    proof (cases "materializes n")
      case False
      then show ?thesis by (simp add: harden_eq sem_not_materializes sem_tombstone del: sem.simps)
    next
      case True
      then have "npresence n = Live" by (cases n) simp
      with True show ?thesis by (simp add: harden_eq split: blob_op.splits option.splits)
    qed
  next
    case (Cons k p)
    show ?case
    proof (cases "materializes n")
      case False
      then show ?thesis by (simp add: harden_eq sem_not_materializes sem_tombstone del: sem.simps)
    next
      case True
      then have live: "npresence n = Live" by (cases n) simp
      have wf: "bt_wf (nchildren n)" using Cons.prems by (simp add: node_wf_iff)
      show ?thesis
      proof (cases "bt_get (nchildren n) k")
        case None
        then show ?thesis using True live wf by (simp add: harden_eq harden_children_get below_def)
      next
        case (Some c)
        then have c: "node_wf c" by (rule node_wf_child [OF Cons.prems])
        have "sem (harden c) nothing p = sem c nothing p" by (rule Cons.IH) (rule c)
        moreover have "sem c nothing p = nothing p" if "npresence (harden c) \<noteq> Live"
          using that sem_not_materializes [of c] by (simp add: npresence_harden)
        ultimately show ?thesis using True live wf Some
          by (auto simp: harden_eq [of n] harden_children_get below_def)
      qed
    qed
  qed
qed

lemma below_sem:
  "npresence a = Live \<Longrightarrow> below False (sem a f) k =
    (case bt_get (nchildren a) k of None \<Rightarrow> below (nopaque a) f k | Some c \<Rightarrow> sem c (below (nopaque a) f k))"
  by (auto simp: below_def fun_eq_iff split: option.splits)

lemma sem_compose_node:
  "node_wf a \<Longrightarrow> node_wf b \<Longrightarrow> anchor_free b \<Longrightarrow> sem (compose_node a b) f = sem b (sem a f)"
proof
  fix p
  show "node_wf a \<Longrightarrow> node_wf b \<Longrightarrow> anchor_free b \<Longrightarrow> sem (compose_node a b) f p = sem b (sem a f) p"
  proof (induction p arbitrary: a b f)
    case Nil
    then show ?case
      using sem_harden [of b f] anchor_free_anchor [of b]
      by (cases "npresence b"; cases "npresence a")
        (auto simp: compose_node_eq sem_tombstone split: blob_op.splits option.splits)
  next
    case (Cons k p)
    consider "npresence b = Tombstone" | "npresence b = Live" "npresence a = Tombstone"
      | "npresence b = Live" "npresence a = Live" by (cases "npresence a"; cases "npresence b") auto
    then show ?case
    proof cases
      case 1
      then show ?thesis by (simp add: compose_node_eq sem_tombstone)
    next
      case 2
      then show ?thesis using sem_harden [OF Cons.prems(2)] anchor_free_anchor [OF Cons.prems(3)]
        by (simp add: compose_node_eq sem_tombstone del: sem.simps)
    next
      case 3
      have wf: "bt_wf (nchildren a)" "bt_wf (nchildren b)" using Cons.prems by (simp_all add: node_wf_iff)
      have c: "compose_node a b = Node Live (case nblob b of Keep \<Rightarrow> nblob a | other \<Rightarrow> other) (nopaque b \<or> nopaque a)
          (case nattrs b of Some m \<Rightarrow> Some m | None \<Rightarrow> nattrs a) (nanchor a) (compose_kids a b)"
        using 3 anchor_free_anchor [OF Cons.prems(3)] by (simp add: compose_node_eq)
      have hard: "sem (harden bc) g p = sem bc nothing p" if "bt_get (nchildren b) k = Some bc" for bc g
        using sem_harden [OF node_wf_child [OF Cons.prems(2) that]] by simp
      have drop: "sem bc nothing p = (None, [])" if "npresence (harden bc) = Tombstone" for bc
        using that sem_not_materializes [of bc] npresence_harden [of bc] by auto
      show ?thesis
      proof (cases "nopaque b")
        case True
        then show ?thesis using 3 wf hard drop
          by (cases "bt_get (nchildren b) k") (auto simp: c compose_kids_def harden_children_get below_def)
      next
        case False
        have rhs: "sem b (sem a f) (k # p) = (case bt_get (nchildren b) k of
            None \<Rightarrow> below False (sem a f) k p | Some bc \<Rightarrow> sem bc (below False (sem a f) k) p)"
          using 3 False by (simp split: option.splits)
        have both: "sem (compose_node ac bc) g p = sem bc (sem ac g) p"
          if "bt_get (nchildren a) k = Some ac" "bt_get (nchildren b) k = Some bc" for ac bc g
          using that 3 Cons.prems by (intro Cons.IH) (auto intro: node_wf_child anchor_free_child)
        have ident: "sem bc (sem ac g) p = g p"
          if "bt_get (nchildren a) k = Some ac" "bt_get (nchildren b) k = Some bc"
            "is_identity (compose_node ac bc)" for ac bc g
          using both [OF that(1,2), of g] sem_identity [OF that(3), of g] by simp
        show ?thesis
        proof (cases "bt_get (nchildren a) k"; cases "bt_get (nchildren b) k")
          fix bc
          assume *: "bt_get (nchildren a) k = None" "bt_get (nchildren b) k = Some bc"
          show ?thesis
            unfolding rhs using 3 False * hard [OF *(2)] drop [of bc] sem_identity [of bc "below False f k"]
            by (cases "npresence (harden bc)") (auto simp: c compose_kids_get [OF wf False] below_sem below_def)
        next
          fix ac bc
          assume *: "bt_get (nchildren a) k = Some ac" "bt_get (nchildren b) k = Some bc"
          show ?thesis
            unfolding rhs using 3 False * both [OF *] ident [OF *]
            by (simp add: c compose_kids_get [OF wf False] below_sem)
        qed (use 3 False in \<open>simp_all only: rhs\<close>, simp_all add: c compose_kids_get [OF wf False] below_sem)
      qed
    qed
  qed
qed

section \<open>Exact laws\<close>

lemma is_identity_eq: "is_identity n \<longleftrightarrow> n = keep"
  by (cases n) (auto simp: is_identity_def keep_def)

lemma apply_keep: "apply_node base keep = base"
proof (cases base)
  case (Some v)
  then show ?thesis
    by (cases v) (auto simp: keep_def apply_node_eq eff_blob_def eff_attrs_def eff_kids_def lower_kids_def
        empty_present_def is_empty_view_def bt_contains_def)
qed (simp add: keep_def apply_node_eq eff_blob_def eff_attrs_def eff_kids_def lower_kids_def
    empty_present_def asserts_self_def)

lemma eff_None [simp]:
  "eff_blob None b = (case b of Set bs \<Rightarrow> Some bs | _ \<Rightarrow> None)"
  "eff_attrs None a = (case a of Some m \<Rightarrow> m | None \<Rightarrow> [])"
  "lower_kids None q = []" "lower_kids base True = []" "empty_present None = False"
  by (simp_all add: eff_blob_def eff_attrs_def lower_kids_def empty_present_def split: blob_op.splits option.splits)

lemma bt_Nil_iff: "m = [] \<longleftrightarrow> (\<forall>k. bt_get m k = None)"
  by (cases m) auto

lemma apply_None_iff: "node_wf n \<Longrightarrow> apply_node None n = None \<longleftrightarrow> \<not> materializes n"
proof (induction n rule: node_induct)
  case (Node pres blob opaq attrs anchor kids)
  note wf = Node.prems [unfolded node_wf_Node]
  have kid: "apply_node None c = None \<longleftrightarrow> \<not> materializes c" if "bt_get kids k = Some c" for k c
    using Node.IH [OF bt_get_Some_in [OF that]] wf that by (metis option.pred_inject(2))
  have "eff_kids None opaq kids = [] \<longleftrightarrow> \<not> list_ex (\<lambda>(_, c). materializes c) kids"
  proof -
    have "eff_kids None opaq kids = [] \<longleftrightarrow> (\<forall>k c. bt_get kids k = Some c \<longrightarrow> \<not> materializes c)"
      using wf kid by (auto simp: bt_Nil_iff eff_kids_get split: option.splits)
    also have "\<dots> \<longleftrightarrow> \<not> list_ex (\<lambda>(_, c). materializes c) kids"
      using wf by (auto simp: list_ex_iff dest: bt_get_Some_in bt_in_get [of kids])
    finally show ?thesis .
  qed
  then show ?case
    by (auto simp: apply_node_eq asserts_self_def split: blob_op.splits option.splits)
qed

lemma apply_harden: "node_wf n \<Longrightarrow> apply_node base (harden n) = apply_node None n"
proof (induction n arbitrary: base rule: node_induct)
  case (Node pres blob opaq attrs anchor kids)
  let ?n = "Node pres blob opaq attrs anchor kids"
  note wf = Node.prems [unfolded node_wf_Node]
  show ?case
  proof (cases "materializes ?n")
    case False
    then show ?thesis
      using apply_None_iff [OF Node.prems] by (simp add: harden_eq tombstone_def apply_node_eq)
  next
    case True
    have live: "pres = Live" using True by simp
    have "bt_get (eff_kids base True (harden_children kids)) k = bt_get (eff_kids None opaq kids) k" for k
    proof (cases "bt_get kids k")
      case (Some c)
      have c: "node_wf c" using wf Some by (metis option.pred_inject(2))
      with Some Node.IH [OF bt_get_Some_in [OF Some]] apply_None_iff [OF c] wf show ?thesis
        by (auto simp: eff_kids_get harden_children_wf harden_children_get npresence_harden)
    qed (use wf in \<open>simp add: eff_kids_get harden_children_wf harden_children_get\<close>)
    then have "eff_kids base True (harden_children kids) = eff_kids None opaq kids"
      by (intro bt_ext ext) (simp_all add: eff_kids_def apply_children_wf)
    moreover have "apply_node None ?n \<noteq> None" using True apply_None_iff [OF Node.prems] by blast
    then have "apply_node None ?n = Some (View (eff_blob None blob) (eff_attrs None attrs) (eff_kids None opaq kids))"
      using live by (auto simp only: apply_node_eq split: if_splits)
    ultimately show ?thesis
      using True by (auto simp: harden_eq apply_node_eq [of base] eff_blob_def eff_attrs_def asserts_self_def
          split: blob_op.splits option.splits)
  qed
qed

lemma lower_kids_apply:
  assumes "npresence a = Live" and "bt_wf (nchildren a)"
  shows "bt_get (lower_kids (apply_node base a) False) k = bt_get (eff_kids base (nopaque a) (nchildren a)) k"
  using assms by (cases a) (auto simp: lower_kids_def apply_node_eq)

lemma compose_kids_apply:
  assumes "node_wf a" and "node_wf b" and "npresence a = Live"
    and wfbase: "pred_option view_wf base"
    and both: "\<And>k ac bc base'. bt_get (nchildren a) k = Some ac \<Longrightarrow> bt_get (nchildren b) k = Some bc \<Longrightarrow>
      pred_option view_wf base' \<Longrightarrow> apply_node base' (compose_node ac bc) = apply_node (apply_node base' ac) bc"
  shows "bt_get (eff_kids base (nopaque b \<or> nopaque a) (compose_kids a b)) k
    = bt_get (eff_kids (apply_node base a) (nopaque b) (nchildren b)) k"
proof -
  have wf: "bt_wf (nchildren a)" "bt_wf (nchildren b)" using assms by (simp_all add: node_wf_iff)
  note ck = compose_kids_wf [OF wf(2), of a]
  have hard: "apply_node base' (harden bc) = apply_node None bc"
    and drop: "npresence (harden bc) \<noteq> Live \<Longrightarrow> apply_node None bc = None"
    if "bt_get (nchildren b) k = Some bc" for bc base'
    using apply_harden apply_None_iff node_wf_child [OF assms(2) that] npresence_harden by (blast, blast)
  show ?thesis
  proof (cases "nopaque b")
    case True
    then show ?thesis using hard drop
      by (auto simp: eff_kids_get [OF ck] eff_kids_get [OF wf(2)] compose_kids_def harden_children_get [OF wf(2)]
          harden_children_wf [OF wf(2)] eff_kids_get [OF harden_children_wf [OF wf(2)]] simp del: not_Live split: option.splits)
  next
    case False
    let ?low = "bt_get (lower_kids base (nopaque a)) k"
    have wfl: "pred_option view_wf ?low" by (rule lower_kids_child [OF wfbase])
    have ident: "apply_node (apply_node ?low ac) bc = ?low"
      if "bt_get (nchildren a) k = Some ac" "bt_get (nchildren b) k = Some bc"
        "is_identity (compose_node ac bc)" for ac bc
      using both [OF that(1,2) wfl] that(3) by (simp add: is_identity_eq apply_keep)
    show ?thesis
      using False hard drop ident both [OF _ _ wfl]
      by (auto simp: eff_kids_get [OF ck] eff_kids_get [OF wf(2)] compose_kids_get [OF wf False]
          lower_kids_apply [OF assms(3) wf(1)] eff_kids_get [OF wf(1)] is_identity_eq apply_keep
          simp del: not_Live split: option.splits)
  qed
qed

text \<open>A delta that deletes nothing by name.\<close>

fun tombstone_free :: "node \<Rightarrow> bool" where
  "tombstone_free (Node pres blob opaq attrs anchor kids) \<longleftrightarrow>
     pres = Live \<and> list_all (\<lambda>(_, c). tombstone_free c) kids"

lemma tombstone_free_child: "tombstone_free n \<Longrightarrow> bt_get (nchildren n) k = Some c \<Longrightarrow> tombstone_free c"
  by (cases n) (auto simp: list_all_iff dest: bt_get_Some_in)

lemma tombstone_free_Live: "tombstone_free n \<Longrightarrow> npresence n = Live"
  by (cases n) auto

lemma tombstone_free_keeps:
  "tombstone_free n \<Longrightarrow> node_wf n \<Longrightarrow> apply_node (Some v) n \<noteq> None"
proof (induction n arbitrary: v rule: node_induct)
  case (Node pres blob opaq attrs anchor kids)
  note wf = Node.prems(2) [unfolded node_wf_Node]
  have live: "pres = Live" using Node.prems(1) by simp
  show ?case
  proof (cases "asserts_self (Node pres blob opaq attrs anchor kids) \<or> is_empty_view v")
    case True
    with live show ?thesis by (auto simp: apply_node_eq empty_present_def)
  next
    case False
    then have n: "blob = Keep" "attrs = None" "\<not> opaq" by (auto simp: asserts_self_def)
    have "bt_get (eff_kids (Some v) False kids) k \<noteq> None" if *: "bt_get (vchildren v) k = Some w" for k w
    proof (cases "bt_get kids k")
      case (Some c)
      have "tombstone_free c" "node_wf c"
        using Some tombstone_free_child [OF Node.prems(1)] node_wf_child [OF Node.prems(2)] by auto
      with Some Node.IH [OF bt_get_Some_in [OF Some]] * wf show ?thesis by (simp add: eff_kids_get lower_kids_def)
    qed (use * wf in \<open>simp add: eff_kids_get lower_kids_def\<close>)
    then have "eff_kids (Some v) False kids \<noteq> []" if "vchildren v \<noteq> []"
      using that by (metis bt_Nil_iff not_None_eq)
    with False n live show ?thesis
      by (auto simp: apply_node_eq eff_blob_def eff_attrs_def is_empty_view_def)
  qed
qed

lemma asserts_compose:
  "asserts_self (Node Live (case nblob b of Keep \<Rightarrow> nblob a | other \<Rightarrow> other) (nopaque b \<or> nopaque a)
     (case nattrs b of Some m \<Rightarrow> Some m | None \<Rightarrow> nattrs a) x kids) \<longleftrightarrow> asserts_self a \<or> asserts_self b"
  by (auto simp: asserts_self_def split: blob_op.splits option.splits)

text \<open>Composing agrees with applying twice on everything but, possibly, the existence of a node left
  with no content; a delta without tombstones never leaves one behind.\<close>

lemma empty_kept:
  assumes "npresence a = Live" and "tombstone_free b" and "node_wf a" and "node_wf b" and "\<not> asserts_self b"
    and "eff_kids (apply_node base a) (nopaque b) (nchildren b) = []"
    and "eff_blob (apply_node base a) (nblob b) = None" and "eff_attrs (apply_node base a) (nattrs b) = []"
  shows "empty_present (apply_node base a) \<longleftrightarrow> asserts_self a \<or> empty_present base"
proof -
  obtain pres blob opaq attrs anchor kids where a: "a = Node pres blob opaq attrs anchor kids" by (cases a)
  have b: "nblob b = Keep" "nattrs b = None" "\<not> nopaque b" using assms(5) by (auto simp: asserts_self_def)
  have wfb: "bt_wf (nchildren b)" using assms(4) by (simp add: node_wf_iff)
  show ?thesis
  proof (cases "apply_node base a")
    case None
    then show ?thesis using assms(1) by (auto simp: a apply_node_eq split: if_splits)
  next
    case (Some v)
    have "bt_get (vchildren v) k = None" for k
    proof (rule ccontr)
      assume "bt_get (vchildren v) k \<noteq> None"
      then obtain w where w: "bt_get (vchildren v) k = Some w" by auto
      have "bt_get (eff_kids (Some v) False (nchildren b)) k \<noteq> None"
        using w tombstone_free_keeps tombstone_free_child [OF assms(2)] node_wf_child [OF assms(4)]
        by (cases "bt_get (nchildren b) k") (auto simp: eff_kids_get [OF wfb] lower_kids_def)
      with assms(6) Some b show False by simp
    qed
    then have "is_empty_view v" using assms(7,8) Some b by (auto simp: is_empty_view_def bt_Nil_iff eff_blob_def eff_attrs_def)
    moreover from this Some have "asserts_self a \<or> empty_present base"
      using assms(1) by (auto simp: a apply_node_eq is_empty_view_def split: if_splits)
    ultimately show ?thesis using Some by (simp add: empty_present_def)
  qed
qed

lemma apply_node_form:
  "npresence n = Live \<Longrightarrow> apply_node base n =
    (if eff_blob base (nblob n) \<noteq> None \<or> eff_attrs base (nattrs n) \<noteq> [] \<or> eff_kids base (nopaque n) (nchildren n) \<noteq> []
       \<or> asserts_self n \<or> empty_present base
     then Some (View (eff_blob base (nblob n)) (eff_attrs base (nattrs n)) (eff_kids base (nopaque n) (nchildren n)))
     else None)"
  by (cases n) (simp add: apply_node_eq)

lemma eff_blob_compose:
  "npresence a = Live \<Longrightarrow> eff_blob base (case nblob b of Keep \<Rightarrow> nblob a | other \<Rightarrow> other)
    = eff_blob (apply_node base a) (nblob b)"
  by (auto simp: apply_node_form eff_blob_def split: blob_op.splits)

lemma eff_attrs_compose:
  "npresence a = Live \<Longrightarrow> eff_attrs base (case nattrs b of Some m \<Rightarrow> Some m | None \<Rightarrow> nattrs a)
    = eff_attrs (apply_node base a) (nattrs b)"
  by (auto simp: apply_node_form eff_attrs_def split: option.splits)

lemma compose_exact:
  "node_wf a \<Longrightarrow> node_wf b \<Longrightarrow> anchor_free b \<Longrightarrow> tombstone_free b \<Longrightarrow> pred_option view_wf base \<Longrightarrow>
    apply_node base (compose_node a b) = apply_node (apply_node base a) b"
proof (induction a arbitrary: b base rule: node_induct)
  case (Node pres blob opaq attrs anchor kids)
  let ?a = "Node pres blob opaq attrs anchor kids"
  have b: "npresence b = Live" "nanchor b = Lower"
    using tombstone_free_Live anchor_free_anchor Node.prems by auto
  show ?case
  proof (cases pres)
    case Tombstone
    then show ?thesis using b Node.prems by (simp add: compose_node_eq apply_harden) (simp add: apply_node_eq)
  next
    case Live
    let ?c = "Node Live (case nblob b of Keep \<Rightarrow> nblob ?a | other \<Rightarrow> other) (nopaque b \<or> nopaque ?a)
        (case nattrs b of Some m \<Rightarrow> Some m | None \<Rightarrow> nattrs ?a) (nanchor ?a) (compose_kids ?a b)"
    have c: "compose_node ?a b = ?c" using b Live by (simp only: compose_node_eq node.sel) simp
    have "bt_get (eff_kids base (nopaque b \<or> nopaque ?a) (compose_kids ?a b)) k
        = bt_get (eff_kids (apply_node base ?a) (nopaque b) (nchildren b)) k" for k
    proof (rule compose_kids_apply [OF Node.prems(1,2) _ Node.prems(5)])
      fix k ac bc base'
      assume ac: "bt_get (nchildren ?a) k = Some ac" and bc: "bt_get (nchildren b) k = Some bc"
        and "pred_option view_wf base'"
      then show "apply_node base' (compose_node ac bc) = apply_node (apply_node base' ac) bc"
        using Node.prems b node_wf_child [OF Node.prems(1) ac] node_wf_child [OF Node.prems(2) bc]
          anchor_free_child tombstone_free_child
        by (intro Node.IH [of k]) (auto intro: bt_get_Some_in)
    qed (simp add: Live)
    then have kids: "eff_kids base (nopaque b \<or> nopaque ?a) (compose_kids ?a b)
        = eff_kids (apply_node base ?a) (nopaque b) (nchildren b)"
      by (intro bt_ext ext eff_kids_wf apply_node_wf Node.prems)
    have live: "npresence ?a = Live" "npresence ?c = Live" using Live by simp_all
    have "empty_present (apply_node base ?a) \<longleftrightarrow> asserts_self ?a \<or> empty_present base"
      if "\<not> asserts_self b" "eff_kids (apply_node base ?a) (nopaque b) (nchildren b) = []"
        "eff_blob (apply_node base ?a) (nblob b) = None" "eff_attrs (apply_node base ?a) (nattrs b) = []"
      by (rule empty_kept [OF live(1) Node.prems(4,1,2) that])
    then show ?thesis
      unfolding c apply_node_form [OF live(2)] apply_node_form [OF b(1)]
      using kids asserts_compose [where a = ?a and b = b]
        eff_blob_compose [OF live(1), of base b] eff_attrs_compose [OF live(1), of base b]
      by (simp only: node.sel) auto
  qed
qed

end
