(* ===== verification/Depot_Laws.thy ===== *)
theory Depot_Laws
  imports Depot_Algebra
begin

text \<open>
  The laws \<open>chupa/depot/src/lib.rs\<close> states for its algebra: \<open>diff\<close> inverts \<open>apply\<close>, and \<open>squash\<close> of a
  stack acts like the stack. The contract between a family of deltas and what it is observed to do is the locale \<open>delta_algebra\<close>.
\<close>

section \<open>Diff\<close>

lemma diff_removed_wf: "bt_wf kids \<Longrightarrow> bt_wf (diff_removed t_kids kids b_kids)"
proof (induction b_kids arbitrary: kids)
  case (Cons x b_kids)
  then show ?case by (cases x) auto
qed simp

lemma diff_removed_get:
  "bt_get (diff_removed t_kids kids b_kids) k =
    (if bt_get b_kids k \<noteq> None \<and> bt_get t_kids k = None then Some tombstone else bt_get kids k)"
proof (induction b_kids arbitrary: kids)
  case (Cons x b_kids)
  then show ?case by (cases x) (auto simp: bt_contains_def)
qed simp

lemma diff_children_wf: "bt_wf kids \<Longrightarrow> bt_wf (diff_children same base kids t_kids)"
proof (induction t_kids arbitrary: kids)
  case (Cons x t_kids)
  then show ?case by (cases x) (auto simp: Let_def)
qed simp

definition base_kid :: "view option \<Rightarrow> name \<Rightarrow> view option" where
  "base_kid base k = Option.bind base (\<lambda>b. bt_get (vchildren b) k)"

definition skipped :: "(view \<Rightarrow> view \<Rightarrow> bool) \<Rightarrow> view option \<Rightarrow> view \<Rightarrow> bool" where
  "skipped same b t \<longleftrightarrow> (case b of None \<Rightarrow> False | Some b' \<Rightarrow> same b' t) \<or> is_identity (diff_node same b t)"

lemma diff_children_get:
  "bt_wf t_kids \<Longrightarrow> bt_get (diff_children same base kids t_kids) k =
    (case bt_get t_kids k of
       None \<Rightarrow> bt_get kids k
     | Some t \<Rightarrow> if skipped same (base_kid base k) t then bt_get kids k
         else Some (diff_node same (base_kid base k) t))"
proof (induction t_kids arbitrary: kids)
  case (Cons x t_kids)
  obtain name t where x: "x = (name, t)" by fastforce
  have none: "bt_get t_kids name = None" and wf: "bt_wf t_kids"
    using Cons.prems x by (auto simp: bt_get_None_iff)
  define acc where "acc = (if skipped same (base_kid base name) t then kids
    else bt_insert name (diff_node same (base_kid base name) t) kids)"
  have "diff_children same base kids (x # t_kids) = diff_children same base acc t_kids"
    by (simp add: x acc_def Let_def skipped_def base_kid_def)
  moreover have "bt_get acc k = (if k = name \<and> \<not> skipped same (base_kid base name) t
      then Some (diff_node same (base_kid base name) t) else bt_get kids k)"
    by (simp add: acc_def)
  ultimately show ?case
    using Cons.IH [OF wf, of acc] none x by (cases "k = name") (simp_all split: option.splits)
qed simp

definition diff_kids :: "(view \<Rightarrow> view \<Rightarrow> bool) \<Rightarrow> view option \<Rightarrow> (name \<times> view) list \<Rightarrow> (name \<times> node) list" where
  "diff_kids same base t_kids = diff_children same base
     (case base of None \<Rightarrow> [] | Some b \<Rightarrow> diff_removed t_kids [] (vchildren b)) t_kids"

lemma diff_kids_wf: "bt_wf (diff_kids same base t_kids)"
  by (simp add: diff_kids_def diff_children_wf diff_removed_wf split: option.splits)

lemma diff_kids_get:
  "bt_wf t_kids \<Longrightarrow> bt_get (diff_kids same base t_kids) k =
    (case bt_get t_kids k of
       None \<Rightarrow> if base_kid base k \<noteq> None then Some tombstone else None
     | Some t \<Rightarrow> if skipped same (base_kid base k) t then None else Some (diff_node same (base_kid base k) t))"
  by (cases base) (auto simp: diff_kids_def diff_children_get diff_removed_get base_kid_def split: option.splits)

definition diff_blob :: "view option \<Rightarrow> bytes option \<Rightarrow> blob_op" where
  "diff_blob base t_blob = (case (Option.bind base vblob, t_blob) of
       (Some old, Some new) \<Rightarrow> if old = new then Keep else Set new
     | (None, Some new) \<Rightarrow> Set new
     | (Some _, None) \<Rightarrow> Remove
     | (None, None) \<Rightarrow> Keep)"

definition diff_attrs :: "view option \<Rightarrow> attrs \<Rightarrow> attrs option" where
  "diff_attrs base t_attrs = (case base of
       Some b \<Rightarrow> if vattrs b = t_attrs then None else Some t_attrs
     | None \<Rightarrow> if t_attrs = [] then None else Some t_attrs)"

lemma diff_node_eq:
  "diff_node same base (View t_blob t_attrs t_kids) =
    (let n = Node Live (diff_blob base t_blob) False (diff_attrs base t_attrs) Lower (diff_kids same base t_kids) in
     if is_empty_view (View t_blob t_attrs t_kids) \<and> \<not> asserts_self n \<and> \<not> empty_present base
     then Node Live (diff_blob base t_blob) False (Some t_attrs) Lower (diff_kids same base t_kids) else n)"
  by (simp only: diff_node.simps diff_blob_def diff_attrs_def diff_kids_def empty_present_def Let_def)

declare diff_node.simps [simp del]

lemma eff_diff_blob: "eff_blob base (diff_blob base b) = b"
  by (auto simp: eff_blob_def diff_blob_def split: option.splits)

lemma eff_diff_attrs: "eff_attrs base (diff_attrs base a) = a"
  by (auto simp: eff_attrs_def diff_attrs_def split: option.splits)

lemma view_wf_View:
  "view_wf (View blob attrs kids) \<longleftrightarrow> bt_wf attrs \<and> bt_wf kids \<and> (\<forall>k. pred_option view_wf (bt_get kids k))"
  by (simp only: view_wf_iff [of "View blob attrs kids"] view.sel)

lemma diff_self: "view_wf v \<Longrightarrow> diff_node same (Some v) v = keep"
proof (induction v rule: view_induct)
  case (View blob attrs kids)
  note wf = View.prems [unfolded view_wf_View]
  have "bt_get (diff_kids same (Some (View blob attrs kids)) kids) k = None" for k
  proof (cases "bt_get kids k")
    case (Some c)
    have "view_wf c" using wf Some by (metis option.pred_inject(2))
    with View.IH [OF bt_get_Some_in [OF Some]] Some wf show ?thesis
      by (simp add: diff_kids_get base_kid_def skipped_def is_identity_eq)
  qed (use wf in \<open>simp add: diff_kids_get base_kid_def\<close>)
  then have "diff_kids same (Some (View blob attrs kids)) kids = []" by (simp add: bt_Nil_iff)
  moreover have "diff_blob (Some (View blob attrs kids)) blob = Keep"
    by (simp add: diff_blob_def split: option.splits)
  ultimately show ?case
    by (auto simp: diff_node_eq diff_attrs_def keep_def Let_def empty_present_def)
qed

lemma base_kid_lower: "base_kid base k = bt_get (lower_kids base False) k"
  by (cases base) (simp_all add: base_kid_def lower_kids_def)

lemma diff_apply:
  assumes same: "\<And>x y. same x y \<Longrightarrow> x = y"
  shows "view_wf t \<Longrightarrow> pred_option view_wf base \<Longrightarrow> apply_node base (diff_node same base t) = Some t"
proof (induction t arbitrary: base rule: view_induct)
  case (View blob attrs kids)
  note wf = View.prems(1) [unfolded view_wf_View]
  have "bt_get (eff_kids base False (diff_kids same base kids)) k = bt_get kids k" for k
  proof (cases "bt_get kids k")
    case None
    then show ?thesis using wf
      by (auto simp: eff_kids_get [OF diff_kids_wf] diff_kids_get base_kid_lower apply_node_eq tombstone_def)
  next
    case (Some c)
    have c: "view_wf c" using wf Some by (metis option.pred_inject(2))
    have low: "pred_option view_wf (base_kid base k)"
      unfolding base_kid_lower by (rule lower_kids_child [OF View.prems(2)])
    have "apply_node (base_kid base k) (diff_node same (base_kid base k) c) = Some c"
      by (rule View.IH [OF bt_get_Some_in [OF Some] c low])
    moreover from this have "base_kid base k = Some c" if "skipped same (base_kid base k) c"
      using that same by (auto simp: skipped_def is_identity_eq apply_keep split: option.splits)
    ultimately show ?thesis using Some wf
      by (auto simp: eff_kids_get [OF diff_kids_wf] diff_kids_get base_kid_lower [symmetric])
  qed
  then have kids: "eff_kids base False (diff_kids same base kids) = kids"
    using wf by (intro bt_ext ext) (auto intro: eff_kids_wf View.prems)
  have attrs: "eff_attrs base (Some a) = a" for a by (simp add: eff_attrs_def)
  show ?case
    using kids
    by (auto simp: diff_node_eq Let_def apply_node_eq eff_diff_blob eff_diff_attrs attrs is_empty_view_def
        asserts_self_def)
qed

lemma diff_same_irrelevant:
  assumes same: "\<And>x y. same x y \<Longrightarrow> x = y"
  shows "view_wf t \<Longrightarrow> diff_node same base t = diff_node (\<lambda>_ _. False) base t"
proof (induction t arbitrary: base rule: view_induct)
  case (View blob attrs kids)
  note wf = View.prems [unfolded view_wf_View]
  have "bt_get (diff_kids same base kids) k = bt_get (diff_kids (\<lambda>_ _. False) base kids) k" for k
  proof (cases "bt_get kids k")
    case (Some c)
    have c: "view_wf c" using wf Some by (metis option.pred_inject(2))
    then have eq: "diff_node same b c = diff_node (\<lambda>_ _. False) b c" for b
      by (rule View.IH [OF bt_get_Some_in [OF Some]])
    have "skipped same (base_kid base k) c \<longleftrightarrow> skipped (\<lambda>_ _. False) (base_kid base k) c"
      using same diff_self [OF c, of "\<lambda>_ _. False"]
      by (auto simp: skipped_def eq is_identity_eq split: option.splits)
    with Some wf eq show ?thesis by (simp add: diff_kids_get)
  qed (use wf in \<open>simp add: diff_kids_get\<close>)
  then have "diff_kids same base kids = diff_kids (\<lambda>_ _. False) base kids"
    by (intro bt_ext ext diff_kids_wf)
  then show ?case by (simp add: diff_node_eq Let_def)
qed

section \<open>Stacks\<close>

text \<open>What a family of deltas promises: each means a function on what is observed, applying it
  realises that function, and composing two realises the composition.\<close>

locale delta_algebra =
  fixes ok :: "'l \<Rightarrow> bool"
    and app :: "'v \<Rightarrow> 'l \<Rightarrow> 'v"
    and comp :: "'l \<Rightarrow> 'l \<Rightarrow> 'l"
    and unit :: 'l
    and obs :: "'v \<Rightarrow> 'c"
    and mean :: "'l \<Rightarrow> 'c \<Rightarrow> 'c"
  assumes ok_unit: "ok unit"
    and ok_comp: "ok a \<Longrightarrow> ok b \<Longrightarrow> ok (comp a b)"
    and mean_unit: "mean unit c = c"
    and mean_comp: "ok a \<Longrightarrow> ok b \<Longrightarrow> mean (comp a b) c = mean b (mean a c)"
    and obs_app: "ok l \<Longrightarrow> obs (app v l) = mean l (obs v)"
begin

lemma fold_comp:
  "ok acc \<Longrightarrow> list_all ok ls \<Longrightarrow>
    ok (fold (\<lambda>l acc. comp acc l) ls acc)
    \<and> mean (fold (\<lambda>l acc. comp acc l) ls acc) c = fold mean ls (mean acc c)"
  by (induction ls arbitrary: acc) (simp_all add: ok_comp mean_comp)

lemma fold_app: "list_all ok ls \<Longrightarrow> obs (fold (\<lambda>l v. app v l) ls v) = fold mean ls (obs v)"
  by (induction ls arbitrary: v) (simp_all add: obs_app)

lemma squash_means: "list_all ok ls \<Longrightarrow> mean (fold (\<lambda>l acc. comp acc l) ls unit) c = fold mean ls c"
  using fold_comp [OF ok_unit] by (simp add: mean_unit)

lemma squash_acts:
  assumes "list_all ok ls" and "list_all ok tail"
  shows "obs (fold (\<lambda>l v. app v l) (ls @ [fold (\<lambda>l acc. comp acc l) tail unit]) v)
    = obs (fold (\<lambda>l v. app v l) (ls @ tail) v)"
proof -
  have "ok (fold (\<lambda>l acc. comp acc l) tail unit)" using fold_comp [OF ok_unit assms(2)] by blast
  with assms show ?thesis by (simp add: fold_app obs_app squash_means)
qed

end

lemma anchor_free_iff:
  "bt_wf (nchildren n) \<Longrightarrow> anchor_free n \<longleftrightarrow> npresence n = Tombstone
    \<or> nanchor n = Lower \<and> (\<forall>k. pred_option anchor_free (bt_get (nchildren n) k))"
proof (cases n)
  case (Node p b q a x kids)
  assume "bt_wf (nchildren n)"
  then have "list_all (\<lambda>(_, c). anchor_free c) kids \<longleftrightarrow> (\<forall>k. pred_option anchor_free (bt_get kids k))"
    using Node by (fastforce simp: list_all_iff option.pred_set dest: bt_get_Some_in intro: bt_in_get)
  with Node show ?thesis by auto
qed

lemma harden_anchor_free: "node_wf n \<Longrightarrow> anchor_free (harden n)"
proof (induction n rule: node_induct)
  case (Node pres blob opaq attrs anchor kids)
  note wf = Node.prems [unfolded node_wf_Node]
  have "pred_option anchor_free (bt_get (harden_children kids) k)" for k
  proof (cases "bt_get kids k")
    case (Some c)
    with wf have "node_wf c" by (metis option.pred_inject(2))
    with Some Node.IH [OF bt_get_Some_in [OF Some]] show ?thesis using wf by (simp add: harden_children_get)
  qed (simp add: wf harden_children_get)
  with wf show ?case
    by (subst anchor_free_iff) (simp_all add: harden_eq harden_children_wf)
qed

lemma compose_anchor_free:
  "node_wf a \<Longrightarrow> node_wf b \<Longrightarrow> anchor_free a \<Longrightarrow> anchor_free b \<Longrightarrow> anchor_free (compose_node a b)"
proof (induction a arbitrary: b rule: node_induct)
  case (Node pres blob opaq attrs anchor kids)
  let ?a = "Node pres blob opaq attrs anchor kids"
  have wf: "bt_wf (nchildren ?a)" "bt_wf (nchildren b)" using Node.prems by (simp_all add: node_wf_iff)
  show ?case
  proof (cases "npresence b = Live \<and> pres = Live")
    case False
    then show ?thesis
      using Node.prems harden_anchor_free [of b] anchor_free_anchor [of b]
      by (cases "npresence b") (auto simp: compose_node_eq tombstone_def)
  next
    case True
    have ak: "anchor_free c" if "bt_get kids k = Some c" for k c
      using that Node.prems(3) True anchor_free_child [of ?a k c] by simp
    have bk: "anchor_free c" if "bt_get (nchildren b) k = Some c" for k c
      using that Node.prems(4) True anchor_free_child [of b k c] by simp
    have both: "anchor_free (compose_node ac bc)"
      if "bt_get kids k = Some ac" "bt_get (nchildren b) k = Some bc" for k ac bc
      using that ak bk node_wf_child [OF Node.prems(1), of k ac] node_wf_child [OF Node.prems(2), of k bc]
      by (intro Node.IH [of k]) (auto intro: bt_get_Some_in)
    have hard: "anchor_free (harden bc)" if "bt_get (nchildren b) k = Some bc" for k bc
      using that node_wf_child [OF Node.prems(2)] by (blast intro: harden_anchor_free)
    have "pred_option anchor_free (bt_get (compose_kids ?a b) k)" for k
    proof (cases "nopaque b")
      case True
      then show ?thesis using wf hard
        by (cases "bt_get (nchildren b) k") (simp_all add: compose_kids_def harden_children_get)
    next
      case False
      then show ?thesis using ak bk both hard unfolding compose_kids_get [OF wf False]
        by (cases "bt_get kids k"; cases "bt_get (nchildren b) k") auto
    qed
    moreover have "anchor = Lower" "nanchor b = Lower" using Node.prems True anchor_free_anchor [of b] by auto
    ultimately show ?thesis
      using True compose_kids_wf [OF wf(2), of ?a]
      by (subst anchor_free_iff) (simp_all add: compose_node_eq)
  qed
qed

text \<open>Layers a stack may hold when it is resolved by folding: well-formed and without backdrop anchors.\<close>

definition layer_ok :: "layer \<Rightarrow> bool" where
  "layer_ok l \<longleftrightarrow> node_wf (root l) \<and> anchor_free (root l)"

interpretation layers: delta_algebra layer_ok apply_layer compose empty_layer content "\<lambda>l. sem (root l)"
proof
  show "layer_ok empty_layer"
    by (simp add: layer_ok_def empty_layer_def keep_def node_wf_Node)
  show "sem (root empty_layer) c = c" for c
    by (rule sem_identity) (simp add: empty_layer_def is_identity_eq)
qed (simp_all add: layer_ok_def compose_def compose_node_wf compose_anchor_free sem_compose_node
    apply_layer_def apply_node_sem)

section \<open>Properties\<close>

text \<open>C17: \<open>diff\<close> is a right inverse of \<open>apply\<close>: for well-formed views, applying the delta from \<open>base\<close> to
  \<open>target\<close> onto \<open>base\<close> gives exactly \<open>target\<close>, empty directories included, whatever pointer comparison
  reports (as long as two slots it calls the same hold the same subtree).\<close>

theorem diff_then_apply:
  assumes "\<And>x y. same x y \<Longrightarrow> x = y" and "pred_option view_wf base" and "view_wf target"
  shows "apply_layer base (diff same base (Some target)) = Some target"
  using diff_apply [OF assms(1) assms(3,2)] by (simp add: apply_layer_def diff_def)

theorem diff_then_apply_witness:
  "let base = View (Some [1]) [] [([97], View None [] []), ([98], View (Some [2]) [] [])];
       target = View None [([120], [5])] [([98], View None [] []), ([99], View (Some [3]) [] [])]
   in apply_layer (Some base) (diff (\<lambda>_ _. False) (Some base) (Some target)) = Some target"
  unfolding Let_def by (rule diff_then_apply) (simp_all add: list_less_def)

text \<open>the pointer-equality short cut of \<open>diff\<close> is invisible: on well-formed views the delta it
  emits is the one the full comparison emits.\<close>

lemma diff_fast_path_invisible:
  assumes "\<And>x y. same x y \<Longrightarrow> x = y" and "pred_option view_wf target"
  shows "diff same base target = diff (\<lambda>_ _. False) base target"
  using assms diff_same_irrelevant [of same] by (auto simp: diff_def split: option.splits)


text \<open>C29: the in-place overlay \<open>apply_mut\<close> agrees with the reference \<open>apply\<close> on every well-formed view and
  layer, as its comment requires.\<close>

theorem apply_mut_is_apply:
  assumes "pred_option view_wf base" and "node_wf (root l)"
  shows "apply_mut base l = apply_layer base l"
  using assms by (simp add: apply_mut_def apply_layer_def apply_node_mut_eq apply_child_mut_eq)

theorem apply_mut_is_apply_witness:
  "apply_mut (Some (View None [] [([97], View (Some [1]) [] [])]))
      \<lparr>root = Node Live Keep False None Lower [([97], tombstone), ([98], Node Live (Set [2]) True None Lower [])]\<rparr>
    = Some (View None [] [([98], View (Some [2]) [] [])])"
proof -
  let ?base = "Some (View None [] [([97], View (Some [1]) [] [])])"
  let ?l = "\<lparr>root = Node Live Keep False None Lower
    [([97], tombstone), ([98], Node Live (Set [2]) True None Lower [])]\<rparr>"
  have "apply_layer ?base ?l = Some (View None [] [([98], View (Some [2]) [] [])])"
    by (simp add: apply_layer_def apply_node.simps tombstone_def is_empty_view_def asserts_self_def bt_contains_def)
  moreover have "node_wf (root ?l)" by (simp add: node_wf.simps list_less_def)
  ultimately show ?thesis using apply_mut_is_apply [of ?base ?l] by simp
qed

text \<open>C5: \<open>compose\<close> presents exactly what applying the two layers in order presents: at every path the
  same blob and the same attributes, for every base view, for well-formed layers without backdrop
  anchors in the upper one.\<close>

theorem compose_acts_in_order:
  assumes "node_wf (root a)" and "node_wf (root b)" and "anchor_free (root b)"
  shows "content (apply_layer base (compose a b)) = content (apply_layer (apply_layer base a) b)"
  using assms
  by (simp add: apply_layer_def compose_def apply_node_sem compose_node_wf sem_compose_node)

theorem compose_acts_in_order_witness:
  "let a = \<lparr>root = Node Live Keep False None Lower [([97], tombstone)]\<rparr>;
       b = \<lparr>root = Node Live Keep False None Lower [([97], Node Live Keep False None Lower
             [([98], Node Live (Set [1]) False None Lower [])])]\<rparr>;
       base = Some (View None [] [([97], View None [] [([99], View (Some [7]) [] [])])])
   in content (apply_layer base (compose a b)) [[97], [98]] = (Some [1], [])
      \<and> content (apply_layer base (compose a b)) [[97], [99]] = (None, [])"
proof -
  let ?a = "\<lparr>root = Node Live Keep False None Lower [([97], tombstone)]\<rparr>"
  let ?b = "\<lparr>root = Node Live Keep False None Lower [([97], Node Live Keep False None Lower
             [([98], Node Live (Set [1]) False None Lower [])])]\<rparr>"
  let ?base = "Some (View None [] [([97], View None [] [([99], View (Some [7]) [] [])])])"
  have "content (apply_layer ?base (compose ?a ?b)) = content (apply_layer (apply_layer ?base ?a) ?b)"
    by (rule compose_acts_in_order) (simp_all add: node_wf.simps)
  moreover have "apply_layer (apply_layer ?base ?a) ?b
      = Some (View None [] [([97], View None [] [([98], View (Some [1]) [] [])])])"
    by (simp add: apply_layer_def apply_node.simps tombstone_def is_empty_view_def asserts_self_def bt_contains_def)
  ultimately show ?thesis by simp
qed

text \<open>C30: when the upper layer deletes nothing by name, \<open>compose\<close> is exact: the resolved trees are
  equal, including which contentless nodes exist.\<close>

theorem compose_exact_without_deletions:
  assumes "node_wf (root a)" and "node_wf (root b)" and "anchor_free (root b)" and "tombstone_free (root b)"
    and "pred_option view_wf base"
  shows "apply_layer base (compose a b) = apply_layer (apply_layer base a) b"
  using compose_exact [OF assms] by (simp add: apply_layer_def compose_def)

theorem compose_exact_without_deletions_witness:
  "apply_layer (Some (View None [] [([97], View None [] [])]))
     (compose \<lparr>root = Node Live Keep False None Lower [([97], tombstone)]\<rparr>
        \<lparr>root = Node Live Keep False None Lower [([97], Node Live Keep True None Lower [])]\<rparr>)
    = Some (View None [] [([97], View None [] [])])"
proof -
  let ?a = "\<lparr>root = Node Live Keep False None Lower [([97], tombstone)]\<rparr>"
  let ?b = "\<lparr>root = Node Live Keep False None Lower [([97], Node Live Keep True None Lower [])]\<rparr>"
  let ?base = "Some (View None [] [([97], View None [] [])])"
  have "apply_layer ?base (compose ?a ?b) = apply_layer (apply_layer ?base ?a) ?b"
    by (rule compose_exact_without_deletions) (simp_all add: node_wf.simps)
  also have "\<dots> = ?base"
    by (simp add: apply_layer_def apply_node.simps tombstone_def is_empty_view_def asserts_self_def bt_contains_def)
  finally show ?thesis .
qed

text \<open>squashing the upper part of a stack does not change what the stack presents: the resolved
  view has the same content at every path.\<close>

lemma squash_presents_stack:
  assumes "list_all layer_ok stack" and "list_all layer_ok tail"
  shows "content (resolve (stack @ [squash tail])) = content (resolve (stack @ tail))"
  using layers.squash_acts [OF assms, of None] by (simp add: resolve_def squash_def)


text \<open>C39: the stronger law stated in the crate documentation, equality of the resolved trees, does not
  hold: three layers that create a directory \<open>d\<close>, add \<open>d/x\<close> and delete \<open>d/x\<close> resolve to nothing, but
  with the two upper layers squashed the empty directory \<open>d\<close> survives.\<close>

theorem squash_keeps_an_emptied_directory:
  "\<exists>stack tail. list_all layer_ok stack \<and> list_all layer_ok tail
     \<and> resolve (stack @ tail) = None
     \<and> resolve (stack @ [squash tail]) = Some (View None [] [([100], View None [] [])])"
proof -
  let ?l0 = "\<lparr>root = Node Live Keep False None Lower [([100], Node Live Keep False (Some []) Lower [])]\<rparr>"
  let ?a = "\<lparr>root = Node Live Keep False None Lower [([100], Node Live Keep False None Lower
    [([120], Node Live (Set [1]) False None Lower [])])]\<rparr>"
  let ?b = "\<lparr>root = Node Live Keep False None Lower [([100], Node Live Keep False None Lower
    [([120], tombstone)])]\<rparr>"
  have "list_all layer_ok [?l0]" "list_all layer_ok [?a, ?b]"
    by (simp_all add: layer_ok_def node_wf.simps tombstone_def)
  moreover have "resolve ([?l0] @ [?a, ?b]) = None"
    by code_simp
  moreover have "resolve ([?l0] @ [squash [?a, ?b]]) = Some (View None [] [([100], View None [] [])])"
    by code_simp
  ultimately show ?thesis by blast
qed

end
