(* ===== verification/Depot_Holes.thy ===== *)
theory Depot_Holes
  imports Depot_Laws
begin

text \<open>
  Composition of layers that contain holes, nodes that resolve against the backdrop and not against
  what lies below (\<open>chupa/depot/src/lib.rs\<close>, \<open>compose\<close>). Such a layer is not a function of what lies
  below it, so the laws are stated on composed layers: composition is associative in what it presents,
  and it leaves alone every path its upper layer does not record.
\<close>

section \<open>One level of a composition\<close>

lemma keep_sel [simp]:
  "npresence keep = Live" "nblob keep = Keep" "nopaque keep = False" "nattrs keep = None"
  "nanchor keep = Lower" "nchildren keep = []"
  by (simp_all add: keep_def)

lemma keep_wf [simp]: "node_wf keep"
  by (simp add: keep_def node_wf_Node)

lemma sem_keep [simp]: "sem keep f = f"
  by (rule sem_identity) (simp add: is_identity_eq)

lemma keep_not_materializes [simp]: "\<not> materializes keep"
  by (simp add: keep_def asserts_self_def)

lemma tombstone_not_materializes: "npresence n = Tombstone \<Longrightarrow> \<not> materializes n"
  by (cases n) simp

text \<open>The child of a node, the identity where it has none.\<close>

definition mkid :: "node \<Rightarrow> name \<Rightarrow> node" where
  "mkid m k = (case bt_get (nchildren m) k of None \<Rightarrow> keep | Some mk \<Rightarrow> mk)"

lemma mkid_None: "bt_get (nchildren m) k = None \<Longrightarrow> mkid m k = keep"
  by (simp add: mkid_def)

lemma mkid_Some: "bt_get (nchildren m) k = Some d \<Longrightarrow> mkid m k = d"
  by (simp add: mkid_def)

lemma mkid_node_wf: "node_wf m \<Longrightarrow> node_wf (mkid m k)"
  by (auto simp: mkid_def split: option.splits intro: node_wf_child)

lemma sem_mkid: "npresence m = Live \<Longrightarrow> sem m f (k # p) = sem (mkid m k) (below (nopaque m) f k) p"
  by (auto simp: mkid_def split: option.splits)

lemma mkid_not_materializes: "\<not> materializes m \<Longrightarrow> npresence m = Live \<Longrightarrow> \<not> materializes (mkid m k)"
  by (cases m) (auto simp: mkid_def list_ex_iff split: option.splits dest: bt_get_Some_in)

lemma sem_compose_keep: "node_wf x \<Longrightarrow> sem (compose_node keep x) f = sem x f"
proof
  fix p
  assume wf: "node_wf x"
  have wfs: "bt_wf (nchildren keep)" "bt_wf (nchildren x)"
    using wf by (simp_all add: node_wf_iff)
  show "sem (compose_node keep x) f p = sem x f p"
  proof (cases "npresence x = Live \<and> nanchor x = Lower")
    case False
    then show ?thesis
      by (cases "npresence x"; cases "nanchor x") (simp_all add: compose_node_eq sem_tombstone)
  next
    case True
    have hard: "sem (harden c) nothing q = sem c nothing q"
      and drop: "npresence (harden c) \<noteq> Live \<Longrightarrow> sem c nothing q = (None, [])"
      if "bt_get (nchildren x) k = Some c" for k c q
      using sem_harden [OF node_wf_child [OF wf that]] sem_not_materializes [of c] npresence_harden [of c]
      by simp_all
    have c: "compose_node keep x = Node Live (nblob x) (nopaque x) (nattrs x) Lower (compose_kids keep x)"
      using True by (simp add: compose_node_eq split: blob_op.splits option.splits)
    show ?thesis
    proof (cases p)
      case Nil
      then show ?thesis using True by (simp add: c)
    next
      case (Cons k q)
      show ?thesis
      proof (cases "nopaque x")
        case False
        with True Cons show ?thesis
          by (cases "bt_get (nchildren x) k")
            (simp_all add: c compose_kids_get [OF wfs False] sem_identity)
      next
        case True': True
        with True Cons wfs(2) hard drop show ?thesis
          by (cases "bt_get (nchildren x) k")
            (auto simp: c compose_kids_def harden_children_get below_def)
      qed
    qed
  qed
qed

lemma sem_compose_to_keep: "node_wf x \<Longrightarrow> sem (compose_node x keep) f = sem x f"
  using sem_compose_node [of x keep f] by (simp add: keep_def [THEN arg_cong, of anchor_free])

lemma compose_live:
  assumes "npresence x = Live" "npresence c = Live" "nanchor c = Lower"
  shows "compose_node x c = Node Live (case nblob c of Keep \<Rightarrow> nblob x | other \<Rightarrow> other) (nopaque c \<or> nopaque x)
      (case nattrs c of Some m \<Rightarrow> Some m | None \<Rightarrow> nattrs x) (nanchor x) (compose_kids x c)"
  using assms by (simp add: compose_node_eq)

text \<open>Below an opaque upper node only that node counts; below another the children are composed.\<close>

lemma compose_opaque_kid:
  assumes "node_wf c" "npresence x = Live" "npresence c = Live" "nanchor c = Lower" "nopaque c"
  shows "sem (compose_node x c) f (k # p) = sem (mkid c k) nothing p"
proof -
  have wf: "bt_wf (nchildren c)" using assms(1) by (simp add: node_wf_iff)
  have "sem (harden d) g p = sem d nothing p" "npresence (harden d) \<noteq> Live \<Longrightarrow> sem d nothing p = (None, [])"
    if "bt_get (nchildren c) k = Some d" for d g
    using sem_harden [OF node_wf_child [OF assms(1) that]] sem_not_materializes [of d] npresence_harden [of d] by simp_all
  then show ?thesis
    using assms wf by (cases "bt_get (nchildren c) k")
      (auto simp: compose_live compose_kids_def harden_children_get below_def mkid_def)
qed

lemma compose_kid:
  assumes "node_wf x" "node_wf c" "npresence x = Live" "npresence c = Live" "nanchor c = Lower" "\<not> nopaque c"
  shows "sem (compose_node x c) f (k # p) = sem (compose_node (mkid x k) (mkid c k)) (below (nopaque x) f k) p"
proof -
  have wf: "bt_wf (nchildren x)" "bt_wf (nchildren c)" using assms(1,2) by (simp_all add: node_wf_iff)
  have kid: "sem (compose_node keep d) g = sem d g" "sem (harden d) g = sem d nothing"
      "npresence (harden d) \<noteq> Live \<Longrightarrow> sem d nothing = nothing"
    if "bt_get (nchildren c) k = Some d" for d g
    using node_wf_child [OF assms(2) that] sem_compose_keep sem_harden sem_not_materializes npresence_harden by auto
  have xk: "sem (compose_node d keep) g = sem d g" if "bt_get (nchildren x) k = Some d" for d g
    using sem_compose_to_keep node_wf_child [OF assms(1) that] by blast
  have kk: "sem (compose_node keep keep) g = g" for g using sem_compose_to_keep [of keep g] by simp
  note c = compose_live [OF assms(3-5)] compose_kids_get [OF wf assms(6)]
  show ?thesis
  proof (cases "bt_get (nchildren x) k"; cases "bt_get (nchildren c) k")
    fix d e
    assume "bt_get (nchildren x) k = Some d" "bt_get (nchildren c) k = Some e"
    then show ?thesis
      using sem_identity [of "compose_node d e"] assms(6) by (simp add: c mkid_def)
  next
    fix d
    assume *: "bt_get (nchildren x) k = None" "bt_get (nchildren c) k = Some d"
    then show ?thesis
      using kid [OF *(2)] sem_identity [of d] assms(6) by (simp add: c mkid_def below_def)
  qed (simp_all add: c mkid_def assms(6) xk kk)
qed

section \<open>Associativity\<close>

text \<open>Over nothing, a delta that records nothing does not matter, and hardening does not either.\<close>

lemma not_materializes_facets:
  "\<not> materializes a \<Longrightarrow> npresence a = Live \<Longrightarrow> nblob a = Keep \<and> nattrs a = None \<and> \<not> nopaque a"
  by (cases a) (auto simp: asserts_self_def)

lemma compose_over_empty:
  "node_wf a \<Longrightarrow> node_wf b \<Longrightarrow> \<not> materializes a \<Longrightarrow> sem (compose_node a b) nothing p = sem b nothing p"
proof (induction p arbitrary: a b)
  case (Nil a b)
  show ?case
    using not_materializes_facets [OF Nil.prems(3)] sem_harden [OF Nil.prems(2), of nothing]
    by (cases "npresence b"; cases "nanchor b"; cases "npresence a")
      (auto simp: compose_node_eq sem_tombstone split: blob_op.splits option.splits)
next
  case (Cons k p a b)
  consider "npresence b = Tombstone" | "npresence b = Live" "nanchor b = Backdrop"
    | "npresence b = Live" "nanchor b = Lower" "npresence a = Tombstone"
    | "npresence b = Live" "nanchor b = Lower" "npresence a = Live"
    by (cases "npresence b"; cases "nanchor b"; cases "npresence a") auto
  then show ?case
  proof cases
    case 3
    then show ?thesis using sem_harden [OF Cons.prems(2)] by (simp add: compose_node_eq del: sem.simps)
  next
    case 4
    note wf = mkid_node_wf [OF Cons.prems(1)] mkid_node_wf [OF Cons.prems(2)]
    show ?thesis
    proof (cases "nopaque b")
      case True
      then show ?thesis
        using compose_opaque_kid [OF Cons.prems(2) 4(3,1,2)] sem_mkid [OF 4(1)] by (simp del: sem.simps)
    next
      case False
      have "sem (compose_node a b) nothing (k # p) = sem (compose_node (mkid a k) (mkid b k)) nothing p"
        using compose_kid [OF Cons.prems(1,2) 4(3,1,2) False, of nothing] by (simp del: sem.simps)
      also have "\<dots> = sem (mkid b k) nothing p"
        by (rule Cons.IH [OF wf mkid_not_materializes [OF Cons.prems(3) 4(3)]])
      finally show ?thesis using sem_mkid [OF 4(1)] by (simp del: sem.simps)
    qed
  qed (simp_all add: compose_node_eq sem_tombstone del: sem.simps)
qed

lemma mkid_harden:
  assumes "node_wf a" "materializes a"
  shows "mkid (harden a) k = (if materializes (mkid a k) then harden (mkid a k) else keep)"
proof -
  have "bt_wf (nchildren a)" using assms(1) by (simp add: node_wf_iff)
  then show ?thesis using assms(2) npresence_harden
    by (cases "bt_get (nchildren a) k") (auto simp: mkid_def harden_eq [of a] harden_children_get)
qed

lemma compose_hardened:
  "node_wf a \<Longrightarrow> node_wf b \<Longrightarrow> sem (compose_node (harden a) b) nothing p = sem (compose_node a b) nothing p"
proof (induction p arbitrary: a b)
  case (Nil a b)
  show ?case
  proof (cases "materializes a")
    case False
    then show ?thesis
      using compose_over_empty [OF Nil] sem_harden [OF Nil(2), of nothing]
      by (cases "npresence b"; cases "nanchor b") (simp_all add: harden_eq [of a] compose_node_eq sem_tombstone del: sem.simps)
  next
    case True
    then have "npresence a = Live" using tombstone_not_materializes by (cases "npresence a") auto
    then show ?thesis using True
      by (cases "npresence b"; cases "nanchor b")
        (auto simp: harden_eq [of a] compose_node_eq split: blob_op.splits option.splits)
  qed
next
  case (Cons k p a b)
  consider "npresence b = Tombstone" | "npresence b = Live" "nanchor b = Backdrop"
    | "npresence b = Live" "nanchor b = Lower" "\<not> materializes a"
    | "npresence b = Live" "nanchor b = Lower" "materializes a"
    by (cases "npresence b"; cases "nanchor b") auto
  then show ?case
  proof cases
    case 3
    then show ?thesis
      using compose_over_empty [OF Cons.prems] sem_harden [OF Cons.prems(2), of nothing]
      by (simp add: harden_eq [of a] compose_node_eq del: sem.simps)
  next
    case 4
    have a: "npresence a = Live" using 4(3) tombstone_not_materializes by (cases "npresence a") auto
    have h: "npresence (harden a) = Live" using 4(3) by (simp only: npresence_harden)
    note wf = mkid_node_wf [OF Cons.prems(1)] mkid_node_wf [OF Cons.prems(2)]
    show ?thesis
    proof (cases "nopaque b")
      case True
      then show ?thesis
        using compose_opaque_kid [OF Cons.prems(2) a 4(1,2)] compose_opaque_kid [OF Cons.prems(2) h 4(1,2)]
        by (simp del: sem.simps)
    next
      case False
      have "sem (compose_node (mkid (harden a) k) (mkid b k)) nothing p = sem (compose_node (mkid a k) (mkid b k)) nothing p"
        using Cons.IH [OF wf] compose_over_empty [OF wf] sem_compose_keep [OF wf(2)]
        by (simp add: mkid_harden [OF Cons.prems(1) 4(3)])
      then show ?thesis
        using compose_kid [OF Cons.prems a 4(1,2) False, of nothing]
          compose_kid [OF harden_wf [OF Cons.prems(1)] Cons.prems(2) h 4(1,2) False, of nothing]
        by (simp del: sem.simps)
    qed
  qed (simp_all add: compose_node_eq sem_tombstone del: sem.simps)
qed

lemma compose_hardened_any:
  assumes "node_wf a" "node_wf b" "npresence b = Live" "nanchor b = Lower"
  shows "sem (compose_node (harden a) b) f p = sem (compose_node a b) nothing p"
proof -
  have "sem (compose_node (harden a) b) f p = sem (compose_node (harden a) b) nothing p"
  proof (cases "materializes a")
    case False
    then show ?thesis using sem_harden [OF assms(2)] assms(3,4) by (simp add: harden_eq [of a] compose_node_eq del: sem.simps)
  next
    case True
    then show ?thesis using assms(3,4)
      by (cases p) (auto simp: harden_eq [of a] compose_node_eq below_def split: blob_op.splits option.splits)
  qed
  then show ?thesis using compose_hardened [OF assms(1,2)] by simp
qed

lemma mkid_compose:
  assumes "node_wf x" "node_wf c" "npresence x = Live" "npresence c = Live" "nanchor c = Lower" "\<not> nopaque c"
  shows "mkid (compose_node x c) k =
    (case (bt_get (nchildren x) k, bt_get (nchildren c) k) of
       (_, None) \<Rightarrow> mkid x k
     | (Some d, Some e) \<Rightarrow> compose_node d e
     | (None, Some e) \<Rightarrow> if nopaque x then (if materializes e then harden e else keep) else e)"
proof -
  have wf: "bt_wf (nchildren x)" "bt_wf (nchildren c)" using assms(1,2) by (simp_all add: node_wf_iff)
  have h: "npresence (harden e) = Live \<longleftrightarrow> materializes e" for e by (rule npresence_harden)
  show ?thesis
    by (simp add: mkid_def compose_live [OF assms(3-5)] compose_kids_get [OF wf assms(6)] is_identity_eq h
        del: not_Live split: option.split)
qed

lemma mkid_compose_opaque:
  assumes "node_wf c" "npresence x = Live" "npresence c = Live" "nanchor c = Lower" "nopaque c"
  shows "mkid (compose_node x c) k = (if materializes (mkid c k) then harden (mkid c k) else keep)"
proof -
  have wf: "bt_wf (nchildren c)" using assms(1) by (simp add: node_wf_iff)
  show ?thesis
    using assms(5) by (cases "bt_get (nchildren c) k")
      (simp_all add: mkid_def compose_live [OF assms(2-4)] compose_kids_def harden_children_get [OF wf] npresence_harden)
qed

text \<open>Composing onto a hardened child, or onto the identity where hardening dropped it.\<close>

lemma compose_hard_kid:
  "node_wf a \<Longrightarrow> node_wf b \<Longrightarrow>
    sem (compose_node (if materializes a then harden a else keep) b) nothing p = sem (compose_node a b) nothing p"
  by (simp add: compose_hardened compose_over_empty sem_compose_keep)

lemma compose_assoc_facets:
  assumes "npresence x = Live" "npresence a = Live" "nanchor a = Lower" "npresence b = Live" "nanchor b = Lower"
  shows "sem (compose_node x (compose_node a b)) f [] = sem (compose_node (compose_node x a) b) f []"
  using assms by (simp add: compose_node_eq split: blob_op.splits option.splits)

lemma compose_assoc_kid:
  assumes wf: "node_wf x" "node_wf a" "node_wf b"
    and live: "npresence x = Live" "npresence a = Live" "nanchor a = Lower" "npresence b = Live" "nanchor b = Lower"
    and IH: "\<And>x a b f. node_wf x \<Longrightarrow> node_wf a \<Longrightarrow> node_wf b \<Longrightarrow>
      sem (compose_node x (compose_node a b)) f p = sem (compose_node (compose_node x a) b) f p"
  shows "sem (compose_node x (compose_node a b)) f (k # p) = sem (compose_node (compose_node x a) b) f (k # p)"
proof -
  let ?c = "compose_node a b" and ?y = "compose_node x a"
  have c: "npresence ?c = Live" "nanchor ?c = Lower" "nopaque ?c \<longleftrightarrow> nopaque b \<or> nopaque a"
    using compose_live [OF live(2,4,5)] live(3) by simp_all
  have y: "npresence ?y = Live" "nopaque ?y \<longleftrightarrow> nopaque a \<or> nopaque x" using compose_live [OF live(1-3)] by simp_all
  note wfc = compose_node_wf [OF wf(2,3)] and wfy = compose_node_wf [OF wf(1,2)]
  note kids = mkid_node_wf [OF wf(1), of k] mkid_node_wf [OF wf(2), of k] mkid_node_wf [OF wf(3), of k]
  consider "nopaque b" | "\<not> nopaque b" "nopaque a" | "\<not> nopaque b" "\<not> nopaque a" by blast
  then show ?thesis
  proof cases
    case 1
    have "sem (mkid ?c k) nothing p = sem (mkid b k) nothing p"
      using sem_harden [OF kids(3), of nothing] sem_not_materializes [of "mkid b k"]
      by (simp add: mkid_compose_opaque [OF wf(3) live(2,4,5) 1])
    then show ?thesis
      using compose_opaque_kid [OF wfc live(1) c(1,2)] compose_opaque_kid [OF wf(3) y(1) live(4,5) 1] 1 c(3)
      by (simp del: sem.simps)
  next
    case 2
    have "sem (compose_node x ?c) f (k # p) = sem ?c nothing (k # p)"
      using compose_opaque_kid [OF wfc live(1) c(1,2)] sem_mkid [OF c(1), of nothing] 2 c(3) by (simp del: sem.simps)
    also have "\<dots> = sem (compose_node (mkid a k) (mkid b k)) nothing p"
      using compose_kid [OF wf(2,3) live(2,4,5) 2(1), of nothing] by (simp del: sem.simps)
    also have "\<dots> = sem (compose_node (mkid ?y k) (mkid b k)) nothing p"
      by (simp only: mkid_compose_opaque [OF wf(2) live(1-3) 2(2)] compose_hard_kid [OF kids(2,3)])
    also have "\<dots> = sem (compose_node ?y b) f (k # p)"
      using compose_kid [OF wfy wf(3) y(1) live(4,5) 2(1), of f] 2 y(2) by (simp add: below_def del: sem.simps)
    finally show ?thesis .
  next
    case 3
    let ?g = "below (nopaque x) f k"
    have l: "sem (compose_node x ?c) f (k # p) = sem (compose_node (mkid x k) (mkid ?c k)) ?g p"
      using compose_kid [OF wf(1) wfc live(1) c(1,2)] 3 c(3) by blast
    have r: "sem (compose_node ?y b) f (k # p) = sem (compose_node (mkid ?y k) (mkid b k)) ?g p"
      using compose_kid [OF wfy wf(3) y(1) live(4,5) 3(1), of f] 3 y(2) by (simp del: sem.simps)
    note mc = mkid_compose [OF wf(2,3) live(2,4,5) 3(1)] and my = mkid_compose [OF wf(1,2) live(1-3) 3(2)]
    have "sem (compose_node (mkid x k) (mkid ?c k)) ?g p = sem (compose_node (mkid ?y k) (mkid b k)) ?g p"
    proof (cases "bt_get (nchildren a) k")
      case None
      then have "mkid ?c k = mkid b k" "mkid ?y k = mkid x k"
        using 3 by (cases "bt_get (nchildren b) k"; cases "bt_get (nchildren x) k"; simp add: mc my mkid_None mkid_Some)+
      then show ?thesis by simp
    next
      case (Some ak)
      note wfa = node_wf_child [OF wf(2) Some]
      show ?thesis
      proof (cases "bt_get (nchildren x) k")
        case None
        have "mkid x k = keep" "mkid ?y k = (if nopaque x then (if materializes ak then harden ak else keep) else ak)"
          using None Some by (simp_all add: my mkid_None mkid_Some)
        moreover have "sem (mkid ?c k) ?g p = sem (compose_node ak (mkid b k)) ?g p"
          using Some sem_compose_to_keep [OF wfa]
          by (cases "bt_get (nchildren b) k") (simp_all add: mc mkid_None mkid_Some)
        ultimately show ?thesis
          using compose_hard_kid [OF wfa kids(3)] sem_compose_keep [OF mkid_node_wf [OF wfc, of k]] by (simp add: below_def)
      next
        case (Some xk)
        have "mkid ?y k = compose_node xk ak" "mkid x k = xk" using Some \<open>bt_get (nchildren a) k = Some ak\<close>
          by (simp_all add: my mkid_None mkid_Some)
        moreover have "sem (compose_node xk (mkid ?c k)) ?g p = sem (compose_node (compose_node xk ak) (mkid b k)) ?g p"
          using \<open>bt_get (nchildren a) k = Some ak\<close> IH [OF node_wf_child [OF wf(1) Some] wfa kids(3)]
            sem_compose_to_keep [OF compose_node_wf [OF node_wf_child [OF wf(1) Some] wfa]]
          by (cases "bt_get (nchildren b) k") (simp_all add: mc mkid_None mkid_Some)
        ultimately show ?thesis by simp
      qed
    qed
    then show ?thesis using l r by simp
  qed
qed

lemma compose_assoc_sem:
  "node_wf x \<Longrightarrow> node_wf a \<Longrightarrow> node_wf b \<Longrightarrow>
    sem (compose_node x (compose_node a b)) f p = sem (compose_node (compose_node x a) b) f p"
proof (induction p arbitrary: x a b f)
  have dead: "sem (compose_node x (compose_node a b)) f p = sem (compose_node (compose_node x a) b) f p"
    if wf: "node_wf x" "node_wf a" "node_wf b"
      and d: "\<not> (npresence x = Live \<and> npresence a = Live \<and> nanchor a = Lower \<and> npresence b = Live \<and> nanchor b = Lower)"
    for x a b f p
  proof -
    consider "npresence b = Tombstone" | "npresence b = Live" "nanchor b = Backdrop"
      | "npresence b = Live" "nanchor b = Lower" "npresence a = Tombstone"
      | "npresence b = Live" "nanchor b = Lower" "npresence a = Live" "nanchor a = Backdrop"
      | "npresence b = Live" "nanchor b = Lower" "npresence a = Live" "nanchor a = Lower" "npresence x = Tombstone"
      using d by (cases "npresence b"; cases "nanchor b"; cases "npresence a"; cases "nanchor a"; cases "npresence x") auto
    then show ?thesis
    proof cases
      case 3
      have "sem (compose_node x (harden b)) f p = sem b nothing p"
        using sem_harden [OF wf(3)] sem_compose_node [OF wf(1) harden_wf [OF wf(3)] harden_anchor_free [OF wf(3)]] by simp
      then show ?thesis using 3 sem_harden [OF wf(3)] by (simp add: compose_node_eq del: sem.simps)
    next
      case 5
      have "compose_node x (compose_node a b) = harden (compose_node a b)" "compose_node x a = harden a"
        using 5 compose_live [OF 5(3,1,2)] by (simp_all add: compose_node_eq [of x])
      then show ?thesis
        using sem_harden [OF compose_node_wf [OF wf(2,3)]] compose_hardened_any [OF wf(2,3) 5(1,2)] by simp
    qed (simp_all add: compose_node_eq sem_tombstone del: sem.simps)
  qed
  {
    case (Nil x a b f)
    then show ?case using dead [OF Nil] compose_assoc_facets [of x a b f] by blast
  next
    case (Cons k p x a b f)
    then show ?case using dead [OF Cons.prems] compose_assoc_kid [OF Cons.prems _ _ _ _ _ Cons.IH] by blast
  }
qed

section \<open>Paths a layer does not record\<close>

text \<open>The path leads through nodes of the layer without facets of their own and leaves them.\<close>

fun silent :: "node \<Rightarrow> name list \<Rightarrow> bool" where
  "silent b [] \<longleftrightarrow> \<not> facets_recorded b"
| "silent b (k # p) \<longleftrightarrow> \<not> facets_recorded b \<and> silent (mkid b k) p"

lemma silent_facets: "silent b p \<Longrightarrow> \<not> facets_recorded b"
  by (cases p) auto

lemma facets_recorded_not:
  "\<not> facets_recorded b \<longleftrightarrow>
     npresence b = Live \<and> nblob b = Keep \<and> nattrs b = None \<and> \<not> nopaque b \<and> nanchor b = Lower"
  by (cases "nanchor b") (auto simp: facets_recorded_def)

lemma silent_keep [simp]: "silent keep p"
  by (induction p) (simp_all add: facets_recorded_not mkid_None)

lemma compose_silent:
  "node_wf a \<Longrightarrow> node_wf b \<Longrightarrow> silent b p \<Longrightarrow> sem (compose_node a b) f p = sem a f p"
proof (induction p arbitrary: a b f)
  case (Nil a b f)
  then show ?case using sem_harden [OF Nil(2), of f]
    by (cases "npresence a") (auto simp: facets_recorded_not compose_node_eq sem_tombstone)
next
  case (Cons k p a b f)
  have b: "npresence b = Live" "nanchor b = Lower" "\<not> nopaque b" and s: "silent (mkid b k) p"
    using Cons.prems(3) by (simp_all add: facets_recorded_not)
  note wf = mkid_node_wf [OF Cons.prems(1)] mkid_node_wf [OF Cons.prems(2)]
  show ?case
  proof (cases "npresence a")
    case Tombstone
    have "sem (mkid b k) nothing p = nothing p"
      using Cons.IH [OF keep_wf wf(2) s, of nothing] sem_compose_keep [OF wf(2)] by simp
    then have "sem b nothing (k # p) = (None, [])" using sem_mkid [OF b(1), of nothing k p] by (simp del: sem.simps)
    then show ?thesis
      using Tombstone b sem_harden [OF Cons.prems(2), of f] by (simp add: compose_node_eq sem_tombstone del: sem.simps)
  next
    case Live
    then show ?thesis
      using compose_kid [OF Cons.prems(1,2) Live b, of f] Cons.IH [OF wf s] sem_mkid [OF Live]
      by (simp del: sem.simps)
  qed
qed

end
