(* ===== verification/Depot_Rotation.thy ===== *)
theory Depot_Rotation
  imports Depot_Holes
begin

text \<open>
  The laws of rotation (\<open>rotate\<close> of \<open>chupa/depot/src/lib.rs\<close>), for layers with and without holes: the promoted
  layer presents what the two it replaces presented, and the demoted one, made of holes and replicas,
  stacked on it presents what the old parent presented. The argument is semantic: if \<open>m\<close> and \<open>net\<close> agree
  wherever \<open>b\<close> records nothing, composing the inverse of \<open>b\<close> onto \<open>m\<close> means \<open>net\<close>. Below an opaque mask
  only the meaning on the empty content is known, so the law is proved on the empty content first.
\<close>

section \<open>The inverse\<close>

lemma inverse_children_wf: "bt_wf out \<Longrightarrow> bt_wf (inverse_children net out kids)"
proof (induction kids arbitrary: out)
  case (Cons x kids)
  then show ?case by (cases x) (auto simp: Let_def)
qed simp

definition net_kid :: "node option \<Rightarrow> name \<Rightarrow> node option" where
  "net_kid net k = Option.bind net (\<lambda>n. bt_get (nchildren n) k)"

lemma inverse_children_get:
  "bt_wf kids \<Longrightarrow> bt_get (inverse_children net out kids) k =
    (case bt_get kids k of
       None \<Rightarrow> bt_get out k
     | Some bc \<Rightarrow> if is_identity bc \<or> is_identity (inverse_node (net_kid net k) bc) then bt_get out k
         else Some (inverse_node (net_kid net k) bc))"
proof (induction kids arbitrary: out)
  case (Cons x kids)
  obtain name bc where x: "x = (name, bc)" by fastforce
  have none: "bt_get kids name = None" and wf: "bt_wf kids"
    using Cons.prems x by (auto simp: bt_get_None_iff)
  define acc where "acc = (if is_identity bc \<or> is_identity (inverse_node (net_kid net name) bc) then out
    else bt_insert name (inverse_node (net_kid net name) bc) out)"
  have "inverse_children net out (x # kids) = inverse_children net acc kids"
    by (simp add: x acc_def Let_def records_def net_kid_def)
  moreover have "bt_get acc k = (if k = name
      \<and> \<not> (is_identity bc \<or> is_identity (inverse_node (net_kid net name) bc))
      then Some (inverse_node (net_kid net name) bc) else bt_get out k)"
    by (simp add: acc_def)
  ultimately show ?case
    using Cons.IH [OF wf, of acc] none x by (cases "k = name") (simp_all split: option.splits)
qed simp

text \<open>The meaning of an optional node: no record means nothing changes.\<close>

definition semo :: "node option \<Rightarrow> content \<Rightarrow> content" where
  "semo net f = (case net of None \<Rightarrow> f | Some n \<Rightarrow> sem n f)"

definition carrier :: "node option \<Rightarrow> node \<Rightarrow> bool" where
  "carrier net b \<longleftrightarrow> \<not> facets_recorded b \<and> (case net of None \<Rightarrow> True | Some n \<Rightarrow> npresence n = Live)"

lemma inverse_node_cases:
  "inverse_node net b =
    (if facets_recorded b then (case net of Some n \<Rightarrow> replicate_node n | None \<Rightarrow> hole)
     else if carrier net b then Node Live Keep False None Lower (inverse_children net [] (nchildren b))
     else tombstone)"
  by (cases b) (auto simp: carrier_def split: option.splits)

declare inverse_node.simps [simp del]

lemma sem_replicate: "sem (replicate_node n) f = sem n f"
proof
  fix p
  show "sem (replicate_node n) f p = sem n f p"
    by (cases "npresence n"; cases p) (simp_all add: replicate_node_def sem_tombstone split: option.splits)
qed

lemma sem_hole: "sem hole f = f"
proof
  fix p
  show "sem hole f p = f p" by (cases p) (simp_all add: hole_def below_def)
qed

lemma compose_recorded:
  "facets_recorded b \<Longrightarrow> sem (compose_node m (inverse_node net b)) f = semo net f"
proof -
  assume "facets_recorded b"
  moreover have "sem (compose_node m (replicate_node n)) f = sem n f" for n
  proof (cases "npresence n")
    case Live
    then have "compose_node m (replicate_node n) = replicate_node n"
      by (simp add: compose_node_eq replicate_node_def)
    then show ?thesis by (simp add: sem_replicate)
  qed (simp add: replicate_node_def compose_node_eq sem_tombstone)
  moreover have "compose_node m hole = hole" by (simp add: compose_node_eq hole_def)
  ultimately show ?thesis
    by (auto simp: inverse_node_cases semo_def sem_hole split: option.splits)
qed

lemma compose_deleted:
  "\<not> facets_recorded b \<Longrightarrow> \<not> carrier net b \<Longrightarrow> sem (compose_node m (inverse_node net b)) f = semo net f"
  by (auto simp: inverse_node_cases carrier_def semo_def compose_node_eq sem_tombstone split: option.splits)

lemma semo_kid:
  "(case net of None \<Rightarrow> True | Some n \<Rightarrow> npresence n = Live) \<Longrightarrow>
    semo net f (k # p) = semo (net_kid net k) (below (case net of None \<Rightarrow> False | Some n \<Rightarrow> nopaque n) f k) p"
  by (auto simp: semo_def net_kid_def below_def split: option.splits)

lemma hole_wf: "node_wf hole"
  by (simp add: hole_def node_wf_Node)

lemma replicate_wf: "node_wf n \<Longrightarrow> node_wf (replicate_node n)"
  by (cases n) (simp add: replicate_node_def node_wf_Node)

lemma net_kid_wf: "pred_option node_wf net \<Longrightarrow> pred_option node_wf (net_kid net k)"
  by (cases net) (auto simp: net_kid_def option.pred_set dest: node_wf_child)

lemma inverse_wf: "node_wf b \<Longrightarrow> pred_option node_wf net \<Longrightarrow> node_wf (inverse_node net b)"
proof (induction b arbitrary: net rule: node_induct)
  case (Node pres blob opaq attrs anchor kids)
  note wf = Node.prems(1) [unfolded node_wf_Node]
  have "pred_option node_wf (bt_get (inverse_children net [] kids) k)" for k
  proof (cases "bt_get kids k")
    case (Some c)
    with wf have "node_wf c" by (metis option.pred_inject(2))
    then have "node_wf (inverse_node (net_kid net k) c)"
      using Node.IH [OF bt_get_Some_in [OF Some]] net_kid_wf [OF Node.prems(2)] by blast
    with Some wf show ?thesis by (simp add: inverse_children_get)
  qed (use wf in \<open>simp add: inverse_children_get\<close>)
  with Node.prems(2) show ?case
    by (auto simp: inverse_node_cases node_wf_Node inverse_children_wf replicate_wf hole_wf
        option.pred_set split: option.splits)
qed

section \<open>Composing the inverse\<close>

lemma carrier_net: "carrier net b \<Longrightarrow> case net of None \<Rightarrow> True | Some n \<Rightarrow> npresence n = Live"
  by (simp add: carrier_def)

lemma compose_carrier_tombstone:
  assumes "carrier net b" and "node_wf b" and "pred_option node_wf net" and "npresence m = Tombstone"
  shows "sem (compose_node m (inverse_node net b)) f = sem (compose_node keep (inverse_node net b)) nothing"
proof -
  have wf: "node_wf (inverse_node net b)" by (rule inverse_wf) (rule assms)+
  have "compose_node m (inverse_node net b) = harden (inverse_node net b)"
    using assms by (auto simp: compose_node_eq inverse_node_cases carrier_def)
  then show ?thesis by (simp add: sem_harden [OF wf] sem_compose_keep [OF wf])
qed

definition net_opaque :: "node option \<Rightarrow> bool" where
  "net_opaque net = (case net of None \<Rightarrow> False | Some n \<Rightarrow> nopaque n)"

text \<open>Two contents that agree wherever a layer records nothing.\<close>

definition agrees :: "node \<Rightarrow> content \<Rightarrow> content \<Rightarrow> bool" where
  "agrees b g h \<longleftrightarrow> (\<forall>p. silent b p \<longrightarrow> g p = h p)"

lemma carrier_silent: "carrier net b \<Longrightarrow> silent b []" "carrier net b \<Longrightarrow> silent b (k # p) = silent (mkid b k) p"
  by (simp_all add: carrier_def)

lemma mkid_inverse:
  assumes "carrier net b" "node_wf b"
  shows "mkid (inverse_node net b) k =
    (if mkid b k = keep then keep else inverse_node (net_kid net k) (mkid b k))"
proof -
  have "bt_wf (nchildren b)" using assms(2) by (simp add: node_wf_iff)
  moreover have "inverse_node net b = Node Live Keep False None Lower (inverse_children net [] (nchildren b))"
    using assms(1) by (simp add: inverse_node_cases carrier_def)
  ultimately show ?thesis
    by (cases "bt_get (nchildren b) k") (auto simp: mkid_def inverse_children_get is_identity_eq)
qed

text \<open>One level of the argument: over a carrier the law follows from the law at the children.\<close>

lemma inverse_live_step:
  assumes c: "carrier net b" and wf: "node_wf m" "node_wf b" "pred_option node_wf net"
    and live: "npresence m = Live" and agree: "agrees b (sem m f) (semo net f)"
    and kid: "\<And>k q. p = k # q \<Longrightarrow>
      sem (compose_node (mkid m k) (inverse_node (net_kid net k) (mkid b k))) (below (nopaque m) f k) q
        = semo (net_kid net k) (below (net_opaque net) f k) q"
  shows "sem (compose_node m (inverse_node net b)) f p = semo net f p"
proof -
  let ?i = "inverse_node net b"
  have i: "npresence ?i = Live" "nanchor ?i = Lower" "\<not> nopaque ?i" "silent ?i []"
    using c by (simp_all add: inverse_node_cases carrier_def facets_recorded_def)
  note wfi = inverse_wf [OF wf(2,3)]
  show ?thesis
  proof (cases p)
    case Nil
    then show ?thesis
      using compose_silent [OF wf(1) wfi i(4)] agree carrier_silent(1) [OF c] by (simp add: agrees_def del: sem.simps)
  next
    case (Cons k q)
    have "sem (compose_node m ?i) f p = sem (compose_node (mkid m k) (mkid ?i k)) (below (nopaque m) f k) q"
      unfolding Cons by (rule compose_kid [OF wf(1) wfi live i(1-3)])
    also have "\<dots> = semo net f p"
    proof (cases "mkid b k = keep")
      case True
      have "silent b p" using True carrier_silent(2) [OF c] by (simp add: Cons del: silent.simps)
      then have "sem m f p = semo net f p" using agree by (simp add: agrees_def)
      with True show ?thesis
        using sem_compose_to_keep [OF mkid_node_wf [OF wf(1)]] sem_mkid [OF live]
        by (simp add: mkid_inverse [OF c wf(2)] Cons del: sem.simps)
    next
      case False
      then show ?thesis
        using kid [OF Cons] semo_kid [OF carrier_net [OF c], of f k q]
        by (simp add: mkid_inverse [OF c wf(2)] Cons net_opaque_def)
    qed
    finally show ?thesis .
  qed
qed

lemma inverse_reduce:
  assumes "node_wf b" and "pred_option node_wf net"
    and "carrier net b \<Longrightarrow> npresence m = Live \<Longrightarrow>
      sem (compose_node m (inverse_node net b)) f p = semo net f p"
    and "carrier net b \<Longrightarrow> npresence m = Tombstone \<Longrightarrow>
      sem (compose_node keep (inverse_node net b)) nothing p = semo net f p"
  shows "sem (compose_node m (inverse_node net b)) f p = semo net f p"
proof -
  consider "facets_recorded b" | "\<not> facets_recorded b" "\<not> carrier net b"
    | "carrier net b" "npresence m = Live" | "carrier net b" "npresence m = Tombstone"
    by (cases "npresence m") auto
  then show ?thesis
  proof cases
    case 1
    show ?thesis by (rule fun_cong [OF compose_recorded [OF 1]])
  next
    case 2
    show ?thesis by (rule fun_cong [OF compose_deleted [OF 2]])
  next
    case 3
    then show ?thesis by (rule assms(3))
  next
    case 4
    show ?thesis unfolding compose_carrier_tombstone [OF 4(1) assms(1,2) 4(2)] using 4 by (rule assms(4))
  qed
qed

lemma kid_agrees:
  assumes "carrier net b" and "npresence m = Live" and "agrees b (sem m f) (semo net f)"
  shows "agrees (mkid b k) (sem (mkid m k) (below (nopaque m) f k))
    (semo (net_kid net k) (below (net_opaque net) f k))"
  unfolding agrees_def
proof (intro allI impI)
  fix q
  assume "silent (mkid b k) q"
  then have "sem m f (k # q) = semo net f (k # q)"
    using assms(3) carrier_silent(2) [OF assms(1)] by (simp add: agrees_def del: sem.simps silent.simps)
  then show "sem (mkid m k) (below (nopaque m) f k) q = semo (net_kid net k) (below (net_opaque net) f k) q"
    using sem_mkid [OF assms(2)] semo_kid [OF carrier_net [OF assms(1)]] by (simp add: net_opaque_def del: sem.simps)
qed

definition restores :: "content \<Rightarrow> name list \<Rightarrow> bool" where
  "restores f p \<longleftrightarrow> (\<forall>m b net. node_wf m \<longrightarrow> node_wf b \<longrightarrow> pred_option node_wf net \<longrightarrow>
     agrees b (sem m f) (semo net f) \<longrightarrow> sem (compose_node m (inverse_node net b)) f p = semo net f p)"

lemma restores_nothing_step:
  assumes "\<And>k q. p = k # q \<Longrightarrow> restores nothing q"
  shows "restores nothing p"
  unfolding restores_def
proof (intro allI impI)
  fix m b net
  assume wf: "node_wf m" "node_wf b" "pred_option node_wf net" and agree: "agrees b (sem m nothing) (semo net nothing)"
  have live: "sem (compose_node m' (inverse_node net b)) nothing p = semo net nothing p"
    if c: "carrier net b" and m': "node_wf m'" "npresence m' = Live" "agrees b (sem m' nothing) (semo net nothing)" for m'
  proof (rule inverse_live_step [OF c m'(1) wf(2,3) m'(2,3)])
    fix k q
    assume p: "p = k # q"
    have "agrees (mkid b k) (sem (mkid m' k) nothing) (semo (net_kid net k) nothing)"
      using kid_agrees [OF c m'(2,3)] by simp
    with assms [OF p] mkid_node_wf [OF m'(1)] mkid_node_wf [OF wf(2)] net_kid_wf [OF wf(3)]
    show "sem (compose_node (mkid m' k) (inverse_node (net_kid net k) (mkid b k))) (below (nopaque m') nothing k) q
        = semo (net_kid net k) (below (net_opaque net) nothing k) q"
      by (simp add: restores_def)
  qed
  show "sem (compose_node m (inverse_node net b)) nothing p = semo net nothing p"
  proof (rule inverse_reduce [OF wf(2,3)])
    assume c: "carrier net b" and dead: "npresence m = Tombstone"
    have "agrees b (sem keep nothing) (semo net nothing)" using agree sem_tombstone [OF dead] by simp
    then show "sem (compose_node keep (inverse_node net b)) nothing p = semo net nothing p"
      by (intro live c) simp_all
  next
    assume "carrier net b" "npresence m = Live"
    then show "sem (compose_node m (inverse_node net b)) nothing p = semo net nothing p"
      by (intro live wf(1) agree)
  qed
qed

lemma restores_nothing: "restores nothing p"
  by (induction p) (rule restores_nothing_step; simp)+

text \<open>What \<open>m\<close> and \<open>net\<close> have in common when they agree off \<open>b\<close> on every content: a name that
  none of them mentions shows whether each is opaque, and content at the node itself shows whether \<open>net\<close>
  lets anything through where \<open>m\<close> deletes.\<close>

lemma fresh_name: "\<exists>k :: name. bt_get m1 k = None \<and> bt_get m2 k = None \<and> bt_get m3 k = None"
proof -
  have "finite (fst ` set m1 \<union> fst ` set m2 \<union> fst ` set m3)" by simp
  then have "\<exists>k :: name. k \<notin> fst ` set m1 \<union> fst ` set m2 \<union> fst ` set m3"
    by (rule ex_new_if_finite [OF infinite_UNIV_listI])
  then show ?thesis by (auto simp: bt_get_None_iff)
qed

lemma fresh_kid: "carrier net b \<Longrightarrow> bt_get (nchildren b) k = None \<Longrightarrow> silent b [k]"
  using carrier_silent(2) [of net b k "[]"] by (simp add: mkid_None facets_recorded_not del: silent.simps(2))

lemma semo_fresh:
  assumes "carrier net b" "bt_get (case net of None \<Rightarrow> [] | Some n \<Rightarrow> nchildren n) k = None"
  shows "semo net f [k] = below (net_opaque net) f k []"
  using assms(2) carrier_net [OF assms(1)] by (cases net) (simp_all add: semo_def net_opaque_def below_def)

lemma opaque_agrees:
  assumes c: "carrier net b" and live: "npresence m = Live" and agree: "\<And>f. agrees b (sem m f) (semo net f)"
  shows "nopaque m = net_opaque net"
proof -
  obtain k where k: "bt_get (nchildren m) k = None" "bt_get (nchildren b) k = None"
      "bt_get (case net of None \<Rightarrow> [] | Some n \<Rightarrow> nchildren n) k = None"
    using fresh_name by blast
  let ?f = "\<lambda>_. (Some [], []) :: facets"
  have "sem m ?f [k] = below (nopaque m) ?f k []" using k live by simp
  moreover have "sem m ?f [k] = semo net ?f [k]"
    using agree fresh_kid [OF c k(2)] by (simp add: agrees_def del: sem.simps)
  ultimately show ?thesis using semo_fresh [OF c k(3), of ?f] by (auto simp: below_def split: if_splits)
qed

lemma deleted_blocks:
  assumes c: "carrier net b" and dead: "npresence m = Tombstone" and agree: "\<And>f. agrees b (sem m f) (semo net f)"
  shows "semo net f = semo net nothing"
proof
  fix p
  have none: "silent b q \<Longrightarrow> semo net g q = (None, [])" for g q
    using agree [of g] sem_tombstone [OF dead, of g] by (simp add: agrees_def)
  obtain k where k: "bt_get (nchildren b) k = None" "bt_get (case net of None \<Rightarrow> [] | Some n \<Rightarrow> nchildren n) k = None"
    using fresh_name by blast
  let ?f = "\<lambda>_. (Some [], []) :: facets"
  have "semo net ?f [k] = (None, [])" by (rule none [OF fresh_kid [OF c k(1)]])
  then have "net_opaque net" using semo_fresh [OF c k(2), of ?f] by (auto simp: below_def split: if_splits)
  then show "semo net f p = semo net nothing p"
    using none [OF carrier_silent(1) [OF c]] semo_kid [OF carrier_net [OF c]]
    by (cases p) (simp_all add: below_def net_opaque_def)
qed

lemma restores_deleted:
  assumes "carrier net b" and "npresence m = Tombstone" and "node_wf b" and "pred_option node_wf net"
    and "\<And>f. agrees b (sem m f) (semo net f)"
  shows "sem (compose_node keep (inverse_node net b)) nothing p = semo net f p"
proof -
  have "agrees b (sem keep nothing) (semo net nothing)" using assms(5) [of nothing] sem_tombstone [OF assms(2)] by simp
  then have "sem (compose_node keep (inverse_node net b)) nothing p = semo net nothing p"
    using restores_nothing [of p, unfolded restores_def] assms(3,4) keep_wf by blast
  also have "\<dots> = semo net f p" using deleted_blocks [OF assms(1,2,5), of f] by (rule fun_cong [OF sym])
  finally show ?thesis .
qed

definition at_name :: "name \<Rightarrow> content \<Rightarrow> content" where
  "at_name k g p = (case p of [] \<Rightarrow> (None, []) | k' # q \<Rightarrow> if k' = k then g q else (None, []))"

lemma below_at_name [simp]: "below False (at_name k g) k = g"
  by (simp add: below_def at_name_def fun_eq_iff)

lemma inverse_restores:
  "node_wf m \<Longrightarrow> node_wf b \<Longrightarrow> pred_option node_wf net \<Longrightarrow> (\<And>f. agrees b (sem m f) (semo net f)) \<Longrightarrow>
    sem (compose_node m (inverse_node net b)) f p = semo net f p"
proof (induction p arbitrary: m b net f)
  case (Nil m b net f)
  show ?case
  proof (rule inverse_reduce [OF Nil.prems(2,3)])
    assume c: "carrier net b" and "npresence m = Live"
    then show "sem (compose_node m (inverse_node net b)) f [] = semo net f []"
      by (intro inverse_live_step [OF c Nil.prems(1-3) _ Nil.prems(4)]) simp_all
  next
    assume c: "carrier net b" and dead: "npresence m = Tombstone"
    show "sem (compose_node keep (inverse_node net b)) nothing [] = semo net f []"
      by (rule restores_deleted [OF c dead Nil.prems(2-4)])
  qed
next
  case (Cons k p m b net f)
  show ?case
  proof (rule inverse_reduce [OF Cons.prems(2,3)])
    assume c: "carrier net b" and live: "npresence m = Live"
    note op = opaque_agrees [OF c live Cons.prems(4)]
    note wf = mkid_node_wf [OF Cons.prems(1)] mkid_node_wf [OF Cons.prems(2)] net_kid_wf [OF Cons.prems(3)]
    show "sem (compose_node m (inverse_node net b)) f (k # p) = semo net f (k # p)"
    proof (rule inverse_live_step [OF c Cons.prems(1-3) live Cons.prems(4)])
      fix k' q
      assume kq: "k # p = k' # q"
      note ag = kid_agrees [OF c live Cons.prems(4), of k']
      show "sem (compose_node (mkid m k') (inverse_node (net_kid net k') (mkid b k'))) (below (nopaque m) f k') q
          = semo (net_kid net k') (below (net_opaque net) f k') q"
      proof (cases "nopaque m")
        case True
        have "agrees (mkid b k') (sem (mkid m k') nothing) (semo (net_kid net k') nothing)"
          using ag [of nothing] by simp
        then have "sem (compose_node (mkid m k') (inverse_node (net_kid net k') (mkid b k'))) nothing q
            = semo (net_kid net k') nothing q"
          using restores_nothing [of q, unfolded restores_def] wf by blast
        with True op show ?thesis by (simp add: below_def)
      next
        case False
        have "agrees (mkid b k') (sem (mkid m k') g) (semo (net_kid net k') g)" for g
          using ag [of "at_name k' g"] False op by simp
        with Cons.IH [OF wf] kq False op show ?thesis by simp
      qed
    qed
  next
    assume c: "carrier net b" and dead: "npresence m = Tombstone"
    show "sem (compose_node keep (inverse_node net b)) nothing (k # p) = semo net f (k # p)"
      by (rule restores_deleted [OF c dead Cons.prems(2-4)])
  qed
qed

section \<open>Properties\<close>

lemma squash_snoc: "squash (ls @ [l]) = compose (squash ls) l"
  by (simp add: squash_def)

lemma squash_node_wf: "list_all layer_wf ls \<Longrightarrow> node_wf (root (squash ls))"
proof (induction ls rule: rev_induct)
  case Nil
  then show ?case by (simp add: squash_def empty_layer_def)
next
  case (snoc l ls)
  then show ?case by (simp add: squash_snoc compose_def layer_wf_def compose_node_wf)
qed

text \<open>Resolving a stack: its last layer composed onto the others.\<close>

lemma content_over:
  "list_all layer_wf ls \<Longrightarrow> node_wf (root l) \<Longrightarrow>
    content (resolve_over bd (ls @ [l])) = sem (compose_node (root (squash ls)) (root l)) (content bd)"
  using squash_node_wf [of ls]
  by (simp add: resolve_over_def squash_snoc compose_def apply_layer_def apply_node_sem compose_node_wf)

lemma layer_wf_compose:
  assumes "layer_wf a" "layer_wf b"
  shows "layer_wf (compose a b)"
proof -
  have "npresence (compose_node (root a) (root b)) = Live" using assms by (simp add: layer_wf_def compose_node_eq)
  then show ?thesis using assms by (simp add: layer_wf_def compose_def compose_node_wf)
qed

text \<open>C1: Rotation keeps both views. For well-formed layers (a live root, sorted child names at every node),
  with holes or without, over any backdrop and any well-formed ancestors, the promoted layer presents at every path the bytes and attributes the parent and the child presented
  together, and the layer of holes and replicas that \<open>rotate\<close> derives without looking at any view, stacked
  on the promoted one, presents at every path the bytes and attributes the parent presented before.\<close>

theorem rotation_restores:
  assumes "list_all layer_wf ancestors" and "layer_wf a" and "layer_wf b"
    and "rotate_layers ancestors a b = (b', a')"
  shows "content (resolve_over backdrop (ancestors @ [b'])) = content (resolve_over backdrop (ancestors @ [a, b])) \<and>
    content (resolve_over backdrop (ancestors @ [b', a'])) = content (resolve_over backdrop (ancestors @ [a]))"
proof -
  let ?x = "root (squash ancestors)" and ?a = "root a" and ?b = "root b"
  let ?net = "compose_node ?x ?a" and ?m = "compose_node ?x (compose_node ?a ?b)"
  have net: "root (squash (ancestors @ [a])) = ?net" by (simp add: squash_snoc compose_def)
  have r: "b' = compose a b" "root a' = inverse_node (Some ?net) ?b"
    using assms(4) net by (auto simp: rotate_layers_def Let_def)
  have m: "root (squash (ancestors @ [b'])) = ?m" by (simp add: squash_snoc compose_def r(1))
  have wf: "node_wf ?x" "node_wf ?a" "node_wf ?b"
    using squash_node_wf [OF assms(1)] assms(2,3) by (simp_all add: layer_wf_def)
  note wfs = compose_node_wf [OF wf(1,2)] compose_node_wf [OF wf(1) compose_node_wf [OF wf(2,3)]]
  have assoc: "sem ?m f = sem (compose_node ?net ?b) f" for f
    by (rule ext) (rule compose_assoc_sem [OF wf])
  have anc: "list_all layer_wf (ancestors @ [a])" "list_all layer_wf (ancestors @ [b'])"
    using assms(1,2) layer_wf_compose [OF assms(2,3)] r(1) by simp_all
  have "node_wf (root b')" by (simp add: r(1) compose_def compose_node_wf [OF wf(2,3)])
  then have 1: "content (resolve_over backdrop (ancestors @ [b'])) = content (resolve_over backdrop (ancestors @ [a, b]))"
    using content_over [OF assms(1), of b'] content_over [OF anc(1) wf(3)] assoc net by (simp add: r(1) compose_def)
  have "agrees ?b (sem ?m f) (semo (Some ?net) f)" for f
    using assoc compose_silent [OF wfs(1) wf(3)] by (simp add: agrees_def semo_def)
  then have "sem (compose_node ?m (root a')) f = sem ?net f" for f
    using inverse_restores [OF wfs(2) wf(3), of "Some ?net"] wfs(1) by (auto simp: r(2) semo_def)
  moreover have "node_wf (root a')" unfolding r(2) by (rule inverse_wf) (simp_all add: wf(3) wfs(1))
  ultimately have 2: "content (resolve_over backdrop (ancestors @ [b', a'])) = content (resolve_over backdrop (ancestors @ [a]))"
    using content_over [OF anc(2), of a'] content_over [OF assms(1) wf(2)] m by simp
  show ?thesis using 1 2 by (rule conjI)
qed

text \<open>Witness: a child that deletes a file, writes another and punches a hole into a grandparent's file.\<close>

theorem rotation_restores_witness:
  "let g = \<lparr>root = Node Live Keep False None Lower [([102], Node Live (Set [3]) False None Lower [])]\<rparr>;
       a = \<lparr>root = Node Live Keep False None Lower [([100], Node Live (Set [1]) False None Lower [])]\<rparr>;
       b = \<lparr>root = Node Live Keep False None Lower
              [([100], tombstone), ([101], Node Live (Set [2]) False None Lower []), ([102], hole)]\<rparr>;
       bd = Some (View None [] [([101], View (Some [9]) [] []), ([102], View (Some [8]) [] [])]);
       (b', a') = rotate_layers [g] a b
   in content (resolve_over bd ([g] @ [b'])) [[102]] = (Some [8], [])
      \<and> content (resolve_over bd ([g] @ [b', a'])) [[100]] = (Some [1], [])
      \<and> content (resolve_over bd ([g] @ [b', a'])) [[101]] = (Some [9], [])
      \<and> content (resolve_over bd ([g] @ [b', a'])) [[102]] = (Some [3], [])"
proof -
  let ?g = "\<lparr>root = Node Live Keep False None Lower [([102], Node Live (Set [3]) False None Lower [])]\<rparr>"
  let ?a = "\<lparr>root = Node Live Keep False None Lower [([100], Node Live (Set [1]) False None Lower [])]\<rparr>"
  let ?b = "\<lparr>root = Node Live Keep False None Lower
    [([100], tombstone), ([101], Node Live (Set [2]) False None Lower []), ([102], hole)]\<rparr>"
  let ?bd = "Some (View None [] [([101], View (Some [9]) [] []), ([102], View (Some [8]) [] [])])"
  obtain b' a' where r: "rotate_layers [?g] ?a ?b = (b', a')" by fastforce
  have ok: "list_all layer_wf [?g]" "layer_wf ?a" "layer_wf ?b"
    by (simp_all add: layer_wf_def node_wf.simps tombstone_def hole_def list_less_def)
  have "resolve_over ?bd ([?g] @ [?a]) =
      Some (View None [] [([100], View (Some [1]) [] []), ([101], View (Some [9]) [] []), ([102], View (Some [3]) [] [])])"
    "resolve_over ?bd ([?g] @ [?a, ?b]) = Some (View None [] [([101], View (Some [2]) [] []), ([102], View (Some [8]) [] [])])"
    by code_simp+
  with rotation_restores [OF ok r, of ?bd] r show ?thesis by simp
qed

text \<open>C40: The documentation's stronger law fails. It states the equality of the resolved trees; there are
  layers without holes for which the demoted layer on the promoted one resolves to a tree with an empty
  directory that the old parent does not have.\<close>

theorem rotation_leaves_an_empty_directory:
  "\<exists>a b b' a' name. layer_ok a \<and> layer_ok b \<and> rotate_layers [] a b = (b', a') \<and>
     resolve_over None [a] = Some (View None [] []) \<and>
     resolve_over None [b', a'] = Some (View None [] [(name, View None [] [])])"
proof -
  let ?a = "\<lparr>root = Node Live Keep True None Lower []\<rparr>"
  let ?b = "\<lparr>root = Node Live Keep False None Lower
    [([97], Node Live Keep False None Lower [([97], Node Live Remove False None Lower [])])]\<rparr>"
  have "layer_ok ?a" "layer_ok ?b" by (simp_all add: layer_ok_def node_wf.simps)
  moreover have "rotate_layers [] ?a ?b = (fst (rotate_layers [] ?a ?b), snd (rotate_layers [] ?a ?b))" by simp
  moreover have "resolve_over None [?a] = Some (View None [] [])"
    "resolve_over None [fst (rotate_layers [] ?a ?b), snd (rotate_layers [] ?a ?b)] = Some (View None [] [([97], View None [] [])])"
    by code_simp+
  ultimately show ?thesis by blast
qed

end
