(* ===== verification/Depot_Codec.thy ===== *)
theory Depot_Codec
  imports Depot_Algebra
begin

unbundle bit_operations_syntax

text \<open>
  The canonical layer encoding of \<open>chupa/depot/src/codec.rs\<close>: LEB128 integers, length-prefixed byte
  strings, one flag byte per node, attributes and children in strictly ascending order. A writer takes
  the output so far and returns it extended. The \<open>Reader\<close> is its remaining input. The node reader
  recurses through bytes it has not seen yet, so it takes a bound on the nesting, one more than the
  length of the input; \<open>DOutOfFuel\<close> marks the bound and is shown never to be the answer.
\<close>

section \<open>Definitions\<close>

datatype decode_error =
    DTruncated | BadVarint | BadFlags u8 | BadLength u64 | NotCanonical | TombstoneRoot
  | TrailingBytes nat
  | DOutOfFuel

definition FLAG_TOMBSTONE :: u8 where "FLAG_TOMBSTONE = push_bit 0 1"
definition BLOB_MASK :: u8 where "BLOB_MASK = push_bit 1 3"
definition BLOB_KEEP :: u8 where "BLOB_KEEP = push_bit 1 0"
definition BLOB_SET :: u8 where "BLOB_SET = push_bit 1 1"
definition BLOB_REMOVE :: u8 where "BLOB_REMOVE = push_bit 1 2"
definition FLAG_OPAQUE :: u8 where "FLAG_OPAQUE = push_bit 3 1"
definition FLAG_ATTRS :: u8 where "FLAG_ATTRS = push_bit 4 1"
definition FLAG_BACKDROP :: u8 where "FLAG_BACKDROP = push_bit 5 1"
definition KNOWN_FLAGS :: u8 where
  "KNOWN_FLAGS = FLAG_TOMBSTONE OR BLOB_MASK OR FLAG_OPAQUE OR FLAG_ATTRS OR FLAG_BACKDROP"

lemma unat_drop_bit_7: "drop_bit 7 v \<noteq> 0 \<Longrightarrow> unat (drop_bit 7 v) < unat (v :: u64)"
proof -
  assume "drop_bit 7 v \<noteq> 0"
  then have "0 < unat (drop_bit 7 v)" by (simp only: unat_gt_0 not_False_eq_True)
  moreover have "unat (drop_bit 7 v) = unat v div 128" by (simp add: drop_bit_eq_div unat_div)
  ultimately show ?thesis by simp
qed

function put_varint :: "bytes \<Rightarrow> u64 \<Rightarrow> bytes" where
  "put_varint out v =
     (let byte = ucast (v AND 0x7f); v' = drop_bit 7 v in
      if v' = 0 then out @ [byte] else put_varint (out @ [byte OR 0x80]) v')"
  by pat_completeness auto
termination
  by (relation "measure (\<lambda>(_, v). unat v)") (simp_all add: unat_drop_bit_7)

declare put_varint.simps [simp del]

definition put_bytes :: "bytes \<Rightarrow> bytes \<Rightarrow> bytes" where
  "put_bytes out b = put_varint out (of_nat (length b)) @ b"

fun encode_attrs :: "bytes \<Rightarrow> attrs \<Rightarrow> bytes" where
  "encode_attrs out [] = out"
| "encode_attrs out ((k, v) # attrs) = encode_attrs (put_bytes (put_bytes out k) v) attrs"

definition node_flags :: "blob_op \<Rightarrow> bool \<Rightarrow> attrs option \<Rightarrow> anchor \<Rightarrow> u8" where
  "node_flags blob opaq attrs anchor =
     (let f0 = (case blob of Keep \<Rightarrow> BLOB_KEEP | Set _ \<Rightarrow> BLOB_SET | Remove \<Rightarrow> BLOB_REMOVE);
          f1 = (if opaq then f0 OR FLAG_OPAQUE else f0);
          f2 = (if attrs \<noteq> None then f1 OR FLAG_ATTRS else f1)
      in if anchor = Backdrop then f2 OR FLAG_BACKDROP else f2)"

fun encode_node :: "bytes \<Rightarrow> node \<Rightarrow> bytes"
  and encode_children :: "bytes \<Rightarrow> (name \<times> node) list \<Rightarrow> bytes" where
  "encode_node out (Node pres blob opaq attrs anchor kids) =
     (if pres = Tombstone then out @ [FLAG_TOMBSTONE]
      else
        let out1 = out @ [node_flags blob opaq attrs anchor];
            out2 = (case blob of Set bs \<Rightarrow> put_bytes out1 bs | _ \<Rightarrow> out1);
            out3 = (case attrs of
                Some m \<Rightarrow> encode_attrs (put_varint out2 (of_nat (length m))) m
              | None \<Rightarrow> out2)
        in encode_children (put_varint out3 (of_nat (length kids))) kids)"
| "encode_children out [] = out"
| "encode_children out ((name, child) # kids) = encode_children (encode_node (put_bytes out name) child) kids"

definition encode_layer :: "layer \<Rightarrow> bytes" where
  "encode_layer l = encode_node [] (root l)"

text \<open>The reader.\<close>

definition rd_byte :: "bytes \<Rightarrow> decode_error + (u8 \<times> bytes)" where
  "rd_byte r = (case r of [] \<Rightarrow> Inl DTruncated | b # r' \<Rightarrow> Inr (b, r'))"

fun varint_loop :: "nat list \<Rightarrow> u64 \<Rightarrow> bytes \<Rightarrow> decode_error + (u64 \<times> bytes)" where
  "varint_loop [] v r = Inl BadVarint"
| "varint_loop (shift # shifts) v r =
     res_bind (rd_byte r) (\<lambda>(b, r').
       let low = ucast (b AND 0x7f) in
       if shift = 63 \<and> low > 1 then Inl BadVarint
       else
         let v' = v OR push_bit shift low in
         if b AND 0x80 = 0 then Inr (v', r') else varint_loop shifts v' r')"

definition rd_varint :: "bytes \<Rightarrow> decode_error + (u64 \<times> bytes)" where
  "rd_varint r = varint_loop (map (\<lambda>i. 7 * i) [0..<10]) 0 r"

definition rd_bytes :: "bytes \<Rightarrow> decode_error + (bytes \<times> bytes)" where
  "rd_bytes r =
     res_bind (rd_varint r) (\<lambda>(len, r').
       if unat len > length r' then Inl (BadLength len)
       else Inr (take (unat len) r', drop (unat len) r'))"

definition not_ascending :: "name option \<Rightarrow> name \<Rightarrow> bool" where
  "not_ascending prev k = (case prev of None \<Rightarrow> False | Some p \<Rightarrow> p \<ge> k)"

fun rd_attrs :: "nat \<Rightarrow> name option \<Rightarrow> attrs \<Rightarrow> bytes \<Rightarrow> decode_error + (attrs \<times> bytes)" where
  "rd_attrs 0 prev m r = Inr (m, r)"
| "rd_attrs (Suc n) prev m r =
     res_bind (rd_bytes r) (\<lambda>(k, r1).
       if not_ascending prev k then Inl NotCanonical
       else res_bind (rd_bytes r1) (\<lambda>(v, r2). rd_attrs n (Some k) (bt_insert k v m) r2))"

definition rd_blob :: "u8 \<Rightarrow> bytes \<Rightarrow> decode_error + (blob_op \<times> bytes)" where
  "rd_blob flags r =
     (let op = flags AND BLOB_MASK in
      if op = BLOB_KEEP then Inr (Keep, r)
      else if op = BLOB_SET then res_bind (rd_bytes r) (\<lambda>(bs, r'). Inr (Set bs, r'))
      else if op = BLOB_REMOVE then Inr (Remove, r)
      else Inl (BadFlags flags))"

definition rd_attrs_opt :: "u8 \<Rightarrow> bytes \<Rightarrow> decode_error + (attrs option \<times> bytes)" where
  "rd_attrs_opt flags r =
     (if flags AND FLAG_ATTRS \<noteq> 0
      then res_bind (rd_varint r) (\<lambda>(count, r').
             res_bind (rd_attrs (unat count) None [] r') (\<lambda>(m, r''). Inr (Some m, r'')))
      else Inr (None, r))"

fun rd_node :: "nat \<Rightarrow> bytes \<Rightarrow> decode_error + (node \<times> bytes)"
  and rd_children :: "nat \<Rightarrow> nat \<Rightarrow> name option \<Rightarrow> (name \<times> node) list \<Rightarrow> bytes
    \<Rightarrow> decode_error + ((name \<times> node) list \<times> bytes)" where
  "rd_node 0 r = Inl DOutOfFuel"
| "rd_node (Suc fuel) r =
     res_bind (rd_byte r) (\<lambda>(flags, r1).
       if flags AND NOT KNOWN_FLAGS \<noteq> 0 then Inl (BadFlags flags)
       else if flags AND FLAG_TOMBSTONE \<noteq> 0
       then if flags \<noteq> FLAG_TOMBSTONE then Inl (BadFlags flags) else Inr (tombstone, r1)
       else
         res_bind (rd_blob flags r1) (\<lambda>(blob, r2).
         res_bind (rd_attrs_opt flags r2) (\<lambda>(attrs, r3).
         res_bind (rd_varint r3) (\<lambda>(count, r4).
         res_bind (rd_children fuel (unat count) None [] r4) (\<lambda>(kids, r5).
           Inr (Node Live blob (flags AND FLAG_OPAQUE \<noteq> 0) attrs
                  (if flags AND FLAG_BACKDROP \<noteq> 0 then Backdrop else Lower) kids, r5))))))"
| "rd_children fuel 0 prev kids r = Inr (kids, r)"
| "rd_children fuel (Suc n) prev kids r =
     res_bind (rd_bytes r) (\<lambda>(name, r1).
       if not_ascending prev name then Inl NotCanonical
       else res_bind (rd_node fuel r1) (\<lambda>(child, r2).
              rd_children fuel n (Some name) (bt_insert name child kids) r2))"

definition decode_node :: "bytes \<Rightarrow> nat \<Rightarrow> decode_error + (node \<times> nat)" where
  "decode_node buf pos =
     res_bind (rd_node (Suc (length buf)) (drop pos buf)) (\<lambda>(n, r). Inr (n, length buf - length r))"

definition decode_layer :: "bytes \<Rightarrow> decode_error + layer" where
  "decode_layer buf =
     res_bind (rd_node (Suc (length buf)) buf) (\<lambda>(n, r).
       if npresence n = Tombstone then Inl TombstoneRoot
       else if r \<noteq> [] then Inl (TrailingBytes (length r))
       else Inr \<lparr>root = n\<rparr>)"

section \<open>Integers\<close>

text \<open>The bytes of an integer, without the output before them.\<close>

function varint :: "u64 \<Rightarrow> bytes" where
  "varint v =
     (if drop_bit 7 v = 0 then [ucast (v AND 0x7f)]
      else (ucast (v AND 0x7f) OR 0x80) # varint (drop_bit 7 v))"
  by pat_completeness auto
termination
  by (relation "measure unat") (simp_all add: unat_drop_bit_7)

declare varint.simps [simp del]

lemma put_varint_eq: "put_varint out v = out @ varint v"
proof (induction out v rule: put_varint.induct)
  case (1 out v)
  then show ?case
    by (simp add: put_varint.simps [of out v] varint.simps [of v] Let_def)
qed

lemma seven_bits: "(0x7f :: u64) = mask 7" "(0x7f :: u8) = mask 7"
  by (simp_all add: mask_eq_exp_minus_1)

lemma bit_0x80: "bit (0x80 :: u8) n \<longleftrightarrow> n = 7"
proof -
  have "(0x80 :: u8) = push_bit 7 1" by simp
  then have "bit (0x80 :: u8) n \<longleftrightarrow> bit (push_bit 7 1 :: u8) n" by (simp only:)
  also have "\<dots> \<longleftrightarrow> n = 7" by (subst bit_push_bit_iff) (auto simp: bit_1_iff)
  finally show ?thesis .
qed

lemma bit_0x80': "bit (0x80 :: int) n \<longleftrightarrow> n = 7"
proof -
  have "(0x80 :: int) = push_bit 7 1" by simp
  then have "bit (0x80 :: int) n \<longleftrightarrow> bit (push_bit 7 1 :: int) n" by (simp only:)
  also have "\<dots> \<longleftrightarrow> n = 7" by (subst bit_push_bit_iff) (auto simp: bit_1_iff)
  finally show ?thesis .
qed

lemma low_bits: "ucast (ucast (v AND 0x7f :: u64) AND 0x7f :: u8) = v AND 0x7f"
  unfolding seven_bits by (rule bit_word_eqI) (auto simp: bit_simps)

lemma low_bits_OR: "ucast ((ucast (v AND 0x7f :: u64) OR 0x80) AND 0x7f :: u8) = v AND 0x7f"
  unfolding seven_bits by (rule bit_word_eqI) (auto simp: bit_simps bit_0x80 bit_0x80')

lemma high_bit: "ucast (v AND 0x7f :: u64) AND (0x80 :: u8) = 0"
  unfolding seven_bits by (rule bit_word_eqI) (auto simp: bit_simps bit_0x80 bit_0x80')

lemma high_bit_OR: "(ucast (v AND 0x7f :: u64) OR 0x80) AND (0x80 :: u8) \<noteq> 0"
proof -
  have "bit ((ucast (v AND 0x7f :: u64) OR 0x80) AND (0x80 :: u8)) 7"
    by (simp add: bit_simps bit_0x80)
  then show ?thesis by (metis bit_0_eq bot_apply bot_bool_def)
qed

lemma join_bits: "push_bit s (v AND 0x7f) OR push_bit (s + 7) (drop_bit 7 v) = push_bit s (v :: u64)"
proof (rule bit_word_eqI)
  fix n
  have "s + 7 \<le> n \<Longrightarrow> 7 + (n - (s + 7)) = n - s" by simp
  then show "bit (push_bit s (v AND 0x7f) OR push_bit (s + 7) (drop_bit 7 v)) n = bit (push_bit s v) n"
    unfolding seven_bits by (cases "s + 7 \<le> n") (auto simp: bit_simps)
qed

lemma low_all: "drop_bit 7 v = 0 \<Longrightarrow> v AND 0x7f = (v :: u64)"
  using join_bits [of 0 v] by simp

lemma some_high_bit: "drop_bit 7 v \<noteq> 0 \<Longrightarrow> \<exists>n \<ge> 7. bit (v :: u64) n"
proof -
  assume "drop_bit 7 v \<noteq> 0"
  then obtain n where "bit (drop_bit 7 v) n" by (metis bit_0_eq bit_eqI bot_apply bot_bool_def)
  then show ?thesis by (auto simp: bit_simps intro!: exI [of _ "7 + n"])
qed

lemma small_word: "(\<And>n. bit v n \<Longrightarrow> n < 1) \<Longrightarrow> \<not> (1 :: u64) < v"
proof -
  assume small: "\<And>n. bit v n \<Longrightarrow> n < 1"
  have "drop_bit 1 v = 0"
  proof (rule bit_word_eqI)
    fix n
    show "bit (drop_bit 1 v) n = bit (0 :: u64) n" using small [of "1 + n"] by (auto simp: bit_drop_bit_eq)
  qed
  moreover have "unat (drop_bit 1 v) = unat v div 2" by (simp add: drop_bit_eq_div unat_div)
  ultimately have "unat v div 2 = 0" by simp
  then show ?thesis by (simp add: word_less_nat_alt)
qed

lemma varint_loop_varint:
  "i < 10 \<Longrightarrow> (\<And>n. bit v n \<Longrightarrow> n + 7 * i < 64) \<Longrightarrow>
    varint_loop (map (\<lambda>i. 7 * i) [i..<10]) acc (varint v @ rest) = Inr (acc OR push_bit (7 * i) v, rest)"
proof (induction v arbitrary: i acc rule: varint.induct)
  case (1 v)
  have up: "[i..<10] = i # [Suc i..<10]" using 1(2) by (simp add: upt_conv_Cons)
  show ?case
  proof (cases "drop_bit 7 v = 0")
    case True
    then have "varint v = [ucast (v AND 0x7f)]" by (simp add: varint.simps)
    moreover have "\<not> (7 * i = 63 \<and> 1 < v)" using 1(3) small_word [of v] by fastforce
    ultimately show ?thesis using low_bits [of v] high_bit [of v] low_all [OF True]
      by (simp add: up rd_byte_def)
  next
    case False
    then obtain n where "7 \<le> n" "bit v n" using some_high_bit by blast
    with 1(3) have i: "i < 9" by fastforce
    have "bit (drop_bit 7 v) n \<Longrightarrow> n + 7 * Suc i < 64" for n
      using 1(3) [of "7 + n"] by (simp add: bit_simps)
    then have "varint_loop (map (\<lambda>i. 7 * i) [Suc i..<10]) (acc OR push_bit (7 * i) (v AND 0x7f))
        (varint (drop_bit 7 v) @ rest)
        = Inr ((acc OR push_bit (7 * i) (v AND 0x7f)) OR push_bit (7 * Suc i) (drop_bit 7 v), rest)"
      using 1(1) False i by simp
    also have "\<dots> = Inr (acc OR push_bit (7 * i) v, rest)"
      using join_bits [of "7 * i" v] by (simp add: or.assoc algebra_simps)
    finally show ?thesis
      using False i low_bits_OR [of v] high_bit_OR [of v] by (simp add: up varint.simps [of v] rd_byte_def)
  qed
qed

lemma rd_varint_varint: "rd_varint (varint v @ rest) = Inr (v, rest)"
  using varint_loop_varint [of 0 v 0 rest] bit_imp_le_length [of v] by (fastforce simp: rd_varint_def)

section \<open>Reading back what was written\<close>

definition enc_bytes :: "bytes \<Rightarrow> bytes" where
  "enc_bytes b = varint (of_nat (length b)) @ b"

lemma put_bytes_eq: "put_bytes out b = out @ enc_bytes b"
  by (simp add: put_bytes_def enc_bytes_def put_varint_eq)

lemma rd_bytes_enc: "length b < 2 ^ 64 \<Longrightarrow> rd_bytes (enc_bytes b @ rest) = Inr (b, rest)"
  by (simp add: rd_bytes_def enc_bytes_def rd_varint_varint unat_of_nat)

definition enc_attrs :: "attrs \<Rightarrow> bytes" where
  "enc_attrs m = concat (map (\<lambda>(k, v). enc_bytes k @ enc_bytes v) m)"

lemma encode_attrs_eq: "encode_attrs out m = out @ enc_attrs m"
  by (induction out m rule: encode_attrs.induct) (simp_all add: put_bytes_eq enc_attrs_def)

definition prev_of :: "(name \<times> 'v) list \<Rightarrow> name option" where
  "prev_of m = (if m = [] then None else Some (fst (last m)))"

lemma next_key:
  assumes "bt_wf (acc @ (k, v) # m)"
  shows "\<not> not_ascending (prev_of acc) k" and "bt_insert k w acc = acc @ [(k, w)]"
proof -
  have less: "\<forall>x \<in> fst ` set acc. x < k" using assms by (auto simp: bt_wf_append)
  then show "bt_insert k w acc = acc @ [(k, w)]" by (rule bt_insert_greatest)
  show "\<not> not_ascending (prev_of acc) k"
    using less by (cases acc rule: rev_cases) (auto simp: not_ascending_def prev_of_def)
qed

lemma prev_of_snoc [simp]: "prev_of (m @ [(k, v)]) = Some k"
  by (simp add: prev_of_def)

definition attrs_sized :: "attrs \<Rightarrow> bool" where
  "attrs_sized m \<longleftrightarrow> length m < 2 ^ 64 \<and> list_all (\<lambda>(k, v). length k < 2 ^ 64 \<and> length v < 2 ^ 64) m"

lemma rd_attrs_enc:
  "bt_wf (acc @ m) \<Longrightarrow> list_all (\<lambda>(k, v). length k < 2 ^ 64 \<and> length v < 2 ^ 64) m \<Longrightarrow>
    rd_attrs (length m) (prev_of acc) acc (enc_attrs m @ rest) = Inr (acc @ m, rest)"
proof (induction m arbitrary: acc)
  case (Cons x m)
  obtain k v where x: "x = (k, v)" by fastforce
  note nk = next_key [of acc k v m] 
  from Cons.IH [of "acc @ [(k, v)]"] Cons.prems nk show ?case
    by (simp add: x enc_attrs_def rd_bytes_enc)
qed (simp add: enc_attrs_def)

text \<open>A tombstone's other fields are not encoded; \<open>canon\<close> is the node with them cleared.\<close>

fun canon :: "node \<Rightarrow> node" where
  "canon (Node pres blob opaq attrs anchor kids) =
     (if pres = Tombstone then tombstone
      else Node Live blob opaq attrs anchor (map (\<lambda>(k, c). (k, canon c)) kids))"

text \<open>Every length fits the 64-bit prefix it is written in.\<close>

fun node_sized :: "node \<Rightarrow> bool" where
  "node_sized (Node pres blob opaq attrs anchor kids) \<longleftrightarrow>
     (case blob of Set bs \<Rightarrow> length bs < 2 ^ 64 | _ \<Rightarrow> True) \<and> pred_option attrs_sized attrs
     \<and> length kids < 2 ^ 64 \<and> list_all (\<lambda>(k, c). length k < 2 ^ 64 \<and> node_sized c) kids"

definition enc_node :: "node \<Rightarrow> bytes" where
  "enc_node n = encode_node [] n"

definition enc_kids :: "(name \<times> node) list \<Rightarrow> bytes" where
  "enc_kids kids = concat (map (\<lambda>(k, c). enc_bytes k @ enc_node c) kids)"

lemma encode_children_eq:
  "(\<And>k c out. (k, c) \<in> set kids \<Longrightarrow> encode_node out c = out @ enc_node c) \<Longrightarrow>
    encode_children out kids = out @ enc_kids kids"
proof (induction kids arbitrary: out)
  case (Cons x kids)
  obtain k c where x: "x = (k, c)" by fastforce
  have "encode_node out c = out @ enc_node c" for out using Cons.prems x by auto
  moreover have "encode_children out kids = out @ enc_kids kids" for out
    using Cons.prems by (intro Cons.IH) auto
  ultimately show ?case by (simp add: x put_bytes_eq enc_kids_def)
qed (simp add: enc_kids_def)

lemma encode_node_eq: "encode_node out n = out @ enc_node n"
proof (induction n arbitrary: out rule: node_induct)
  case (Node pres blob opaq attrs anchor kids)
  have "encode_children out kids = out @ enc_kids kids" for out
    by (rule encode_children_eq) (rule Node.IH)
  then show ?case
    by (simp add: enc_node_def Let_def put_varint_eq put_bytes_eq encode_attrs_eq split: blob_op.splits option.splits)
qed

definition enc_blob :: "blob_op \<Rightarrow> bytes" where
  "enc_blob blob = (case blob of Set bs \<Rightarrow> enc_bytes bs | _ \<Rightarrow> [])"

definition enc_attrs_opt :: "attrs option \<Rightarrow> bytes" where
  "enc_attrs_opt attrs = (case attrs of None \<Rightarrow> [] | Some m \<Rightarrow> varint (of_nat (length m)) @ enc_attrs m)"

lemma enc_node_eq:
  "enc_node (Node pres blob opaq attrs anchor kids) =
    (if pres = Tombstone then [FLAG_TOMBSTONE]
     else node_flags blob opaq attrs anchor # enc_blob blob @ enc_attrs_opt attrs
       @ varint (of_nat (length kids)) @ enc_kids kids)"
proof -
  have "encode_children out kids = out @ enc_kids kids" for out
    by (rule encode_children_eq) (rule encode_node_eq)
  then show ?thesis
    by (simp add: enc_node_def Let_def put_varint_eq put_bytes_eq encode_attrs_eq enc_blob_def enc_attrs_opt_def
        split: blob_op.splits option.splits)
qed

lemmas flag_defs = FLAG_TOMBSTONE_def BLOB_MASK_def BLOB_KEEP_def BLOB_SET_def BLOB_REMOVE_def
  FLAG_OPAQUE_def FLAG_ATTRS_def FLAG_BACKDROP_def KNOWN_FLAGS_def

lemma node_flags_read:
  fixes blob opaq attrs anchor
  defines "f \<equiv> node_flags blob opaq attrs anchor"
  shows "f AND NOT KNOWN_FLAGS = 0" and "f AND FLAG_TOMBSTONE = 0"
    and "f AND BLOB_MASK = (case blob of Keep \<Rightarrow> BLOB_KEEP | Set _ \<Rightarrow> BLOB_SET | Remove \<Rightarrow> BLOB_REMOVE)"
    and "f AND FLAG_OPAQUE \<noteq> 0 \<longleftrightarrow> opaq" and "f AND FLAG_ATTRS \<noteq> 0 \<longleftrightarrow> attrs \<noteq> None"
    and "f AND FLAG_BACKDROP \<noteq> 0 \<longleftrightarrow> anchor = Backdrop"
  unfolding f_def node_flags_def
  by (cases blob; cases opaq; cases attrs; cases anchor; simp add: flag_defs Let_def)+

lemma blob_codes: "BLOB_SET \<noteq> BLOB_KEEP" "BLOB_REMOVE \<noteq> BLOB_KEEP" "BLOB_REMOVE \<noteq> BLOB_SET"
  by (simp_all add: flag_defs)

lemma rd_blob_enc:
  "(case blob of Set bs \<Rightarrow> length bs < 2 ^ 64 | _ \<Rightarrow> True) \<Longrightarrow>
    rd_blob (node_flags blob opaq attrs anchor) (enc_blob blob @ rest) = Inr (blob, rest)"
  by (cases blob) (simp_all add: rd_blob_def node_flags_read blob_codes enc_blob_def rd_bytes_enc)

lemma rd_attrs_opt_enc:
  "pred_option bt_wf attrs \<Longrightarrow> pred_option attrs_sized attrs \<Longrightarrow>
    rd_attrs_opt (node_flags blob opaq attrs anchor) (enc_attrs_opt attrs @ rest) = Inr (attrs, rest)"
proof (cases attrs)
  case (Some m)
  assume "pred_option bt_wf attrs" and "pred_option attrs_sized attrs"
  with rd_attrs_enc [of "[]" m rest] Some show ?thesis
    by (simp add: rd_attrs_opt_def node_flags_read enc_attrs_opt_def rd_varint_varint attrs_sized_def
        unat_of_nat prev_of_def)
qed (simp add: rd_attrs_opt_def node_flags_read enc_attrs_opt_def)

lemma bt_wf_keys: "map fst m = map fst m' \<Longrightarrow> bt_wf m = bt_wf m'"
  by (simp add: bt_wf_def)

lemma rd_children_enc:
  "bt_wf (acc @ kids) \<Longrightarrow> list_all (\<lambda>(k, c). length k < 2 ^ 64) kids \<Longrightarrow>
    (\<And>k c rest. (k, c) \<in> set kids \<Longrightarrow> rd_node fuel (enc_node c @ rest) = Inr (canon c, rest)) \<Longrightarrow>
    rd_children fuel (length kids) (prev_of acc) acc (enc_kids kids @ rest)
      = Inr (acc @ map (\<lambda>(k, c). (k, canon c)) kids, rest)"
proof (induction kids arbitrary: acc)
  case (Cons x kids)
  obtain k c where x: "x = (k, c)" by fastforce
  note nk = next_key [of acc k c kids]
  have "rd_node fuel (enc_node c @ rest') = Inr (canon c, rest')" for rest' using Cons.prems(3) x by auto
  moreover have "bt_wf ((acc @ [(k, canon c)]) @ kids)"
    using Cons.prems(1) x bt_wf_keys [of "acc @ (k, canon c) # kids" "acc @ (k, c) # kids"] by simp
  then have "rd_children fuel (length kids) (prev_of (acc @ [(k, canon c)])) (acc @ [(k, canon c)]) (enc_kids kids @ rest)
      = Inr ((acc @ [(k, canon c)]) @ map (\<lambda>(k, c). (k, canon c)) kids, rest)"
    using Cons.prems by (intro Cons.IH) auto
  ultimately show ?case using nk Cons.prems by (simp add: x enc_kids_def rd_bytes_enc)
qed (simp add: enc_kids_def)

lemma enc_kids_length: "(k, c) \<in> set kids \<Longrightarrow> length (enc_node c) \<le> length (enc_kids kids)"
  by (induction kids) (auto simp: enc_kids_def)

lemma rd_node_enc:
  "node_wf n \<Longrightarrow> node_sized n \<Longrightarrow> length (enc_node n) \<le> fuel \<Longrightarrow>
    rd_node fuel (enc_node n @ rest) = Inr (canon n, rest)"
proof (induction n arbitrary: fuel rest rule: node_induct)
  case (Node pres blob opaq attrs anchor kids)
  note wf = Node.prems(1) [unfolded node_wf_Node]
  obtain f where f: "fuel = Suc f" using Node.prems(3) by (cases fuel) (auto simp: enc_node_eq split: if_splits)
  show ?case
  proof (cases pres)
    case Tombstone
    then show ?thesis by (simp add: f enc_node_eq rd_byte_def flag_defs)
  next
    case Live
    have "rd_node f (enc_node c @ rest') = Inr (canon c, rest')" if "(k, c) \<in> set kids" for k c rest'
    proof (rule Node.IH [OF that])
      show "node_wf c" using node_wf_child [OF Node.prems(1), of k c] bt_in_get [of kids k c] wf that by simp
      show "node_sized c" using Node.prems(2) that by (auto simp: list_all_iff)
      show "length (enc_node c) \<le> f"
        using Node.prems(3) Live enc_kids_length [OF that] by (simp add: f enc_node_eq)
    qed
    moreover have "list_all (\<lambda>(k, c). length k < 2 ^ 64) kids" using Node.prems(2) by (auto simp: list_all_iff)
    ultimately have "rd_children f (length kids) None [] (enc_kids kids @ rest)
        = Inr (map (\<lambda>(k, c). (k, canon c)) kids, rest)"
      using rd_children_enc [of "[]" kids f rest] wf by (simp add: prev_of_def)
    moreover have "unat (of_nat (length kids) :: u64) = length kids"
      using Node.prems(2) by (simp add: unat_of_nat)
    ultimately show ?thesis using Live Node.prems(2) wf
      by (cases anchor) (simp_all add: f enc_node_eq rd_byte_def node_flags_read rd_blob_enc rd_attrs_opt_enc rd_varint_varint)
  qed
qed

section \<open>Reading arbitrary bytes\<close>

lemma rd_byte_shrinks: "rd_byte r = Inr (b, r') \<Longrightarrow> length r' < length r"
  by (auto simp: rd_byte_def split: list.splits)

lemma varint_loop_shrinks: "varint_loop shifts v r = Inr (w, r') \<Longrightarrow> length r' < length r"
proof (induction shifts v r rule: varint_loop.induct)
  case (2 shift shifts v r)
  then obtain b r1 where "rd_byte r = Inr (b, r1)" by (auto simp: res_bind_eq_Inr)
  with 2 rd_byte_shrinks [OF this] show ?case by (fastforce simp: Let_def split: if_splits)
qed simp

lemma rd_varint_shrinks: "rd_varint r = Inr (v, r') \<Longrightarrow> length r' < length r"
  unfolding rd_varint_def by (rule varint_loop_shrinks)

lemma rd_bytes_shrinks: "rd_bytes r = Inr (b, r') \<Longrightarrow> length r' < length r"
  by (auto simp: rd_bytes_def res_bind_eq_Inr split: if_splits dest: rd_varint_shrinks)

lemma rd_attrs_shrinks: "rd_attrs n prev m r = Inr (m', r') \<Longrightarrow> length r' \<le> length r"
proof (induction n arbitrary: prev m r)
  case (Suc n)
  then show ?case by (fastforce simp: res_bind_eq_Inr split: if_splits dest: rd_bytes_shrinks)
qed simp

lemma rd_blob_shrinks: "rd_blob flags r = Inr (b, r') \<Longrightarrow> length r' \<le> length r"
  by (auto simp: rd_blob_def res_bind_eq_Inr Let_def split: if_splits dest: rd_bytes_shrinks)

lemma rd_attrs_opt_shrinks: "rd_attrs_opt flags r = Inr (a, r') \<Longrightarrow> length r' \<le> length r"
  by (fastforce simp: rd_attrs_opt_def res_bind_eq_Inr split: if_splits dest: rd_varint_shrinks rd_attrs_shrinks)

lemma rd_attrs_wf: "rd_attrs n prev m r = Inr (m', r') \<Longrightarrow> bt_wf m \<Longrightarrow> bt_wf m'"
proof (induction n arbitrary: prev m r)
  case (Suc n)
  then show ?case by (fastforce simp: res_bind_eq_Inr split: if_splits)
qed simp

lemma rd_attrs_opt_wf: "rd_attrs_opt flags r = Inr (a, r') \<Longrightarrow> pred_option bt_wf a"
  by (auto simp: rd_attrs_opt_def res_bind_eq_Inr split: if_splits dest: rd_attrs_wf)

text \<open>What the node reader returns: a canonical well-formed node and a shorter input.\<close>

definition read_ok :: "node \<Rightarrow> bool" where
  "read_ok n \<longleftrightarrow> node_wf n \<and> canon n = n"

lemma rd_children_ok:
  assumes "\<And>r n r'. rd_node fuel r = Inr (n, r') \<Longrightarrow> read_ok n \<and> length r' < length r"
  shows "rd_children fuel cnt prev kids r = Inr (kids', r') \<Longrightarrow> bt_wf kids \<Longrightarrow>
    list_all (\<lambda>(_, c). read_ok c) kids \<Longrightarrow>
    bt_wf kids' \<and> list_all (\<lambda>(_, c). read_ok c) kids' \<and> length r' \<le> length r"
proof (induction cnt arbitrary: prev kids r)
  case (Suc cnt)
  then obtain name r1 child r2 where r: "rd_bytes r = Inr (name, r1)" "rd_node fuel r1 = Inr (child, r2)"
      "rd_children fuel cnt (Some name) (bt_insert name child kids) r2 = Inr (kids', r')"
    by (auto simp: res_bind_eq_Inr split: if_splits)
  have c: "read_ok child" "length r2 < length r1" using assms [OF r(2)] by simp_all
  have "bt_wf kids' \<and> list_all (\<lambda>(_, c). read_ok c) kids' \<and> length r' \<le> length r2"
    using Suc.prems c(1) by (intro Suc.IH [OF r(3)] list_all_bt_insert) auto
  with c(2) rd_bytes_shrinks [OF r(1)] show ?case by auto
qed simp

lemma read_ok_Node:
  assumes "pred_option bt_wf attrs" and "bt_wf kids" and "list_all (\<lambda>(_, c). read_ok c) kids"
  shows "read_ok (Node Live blob opaq attrs anchor kids)"
proof -
  have "map (\<lambda>(k, c). (k, canon c)) kids = kids"
    using assms(3) by (intro map_idI) (auto simp: list_all_iff read_ok_def)
  with assms show ?thesis by (auto simp: read_ok_def node_wf.simps list_all_iff)
qed

lemma rd_node_ok: "rd_node fuel r = Inr (n, r') \<Longrightarrow> read_ok n \<and> length r' < length r"
proof (induction fuel arbitrary: r n r')
  case (Suc fuel)
  from Suc.prems obtain flags r1 where r1: "rd_byte r = Inr (flags, r1)" by (auto simp: res_bind_eq_Inr)
  show ?case
  proof (cases "n = tombstone \<and> r' = r1")
    case True
    then show ?thesis using rd_byte_shrinks [OF r1] by (simp add: read_ok_def tombstone_def node_wf.simps)
  next
    case False
    with Suc.prems r1 obtain blob r2 attrs r3 cnt r4 kids where
      rs: "rd_blob flags r1 = Inr (blob, r2)" "rd_attrs_opt flags r2 = Inr (attrs, r3)"
      "rd_varint r3 = Inr (cnt, r4)" "rd_children fuel (unat cnt) None [] r4 = Inr (kids, r')"
      and n: "n = Node Live blob (flags AND FLAG_OPAQUE \<noteq> 0) attrs
        (if flags AND FLAG_BACKDROP \<noteq> 0 then Backdrop else Lower) kids"
      by (auto simp: res_bind_eq_Inr split: if_splits)
    have "bt_wf kids \<and> list_all (\<lambda>(_, c). read_ok c) kids \<and> length r' \<le> length r4"
      by (rule rd_children_ok [OF Suc.IH rs(4)]) simp_all
    with rd_byte_shrinks [OF r1] rd_blob_shrinks [OF rs(1)] rd_attrs_opt_shrinks [OF rs(2)]
      rd_varint_shrinks [OF rs(3)] rd_attrs_opt_wf [OF rs(2)] read_ok_Node
    show ?thesis unfolding n by fastforce
  qed
qed simp

text \<open>The nesting bound is never reached.\<close>

lemma varint_loop_fuel: "varint_loop shifts v r \<noteq> Inl DOutOfFuel"
  by (induction shifts v r rule: varint_loop.induct)
    (auto simp: rd_byte_def res_bind_eq_Inl Let_def split: list.splits if_splits)

lemma rd_varint_fuel: "rd_varint r \<noteq> Inl DOutOfFuel"
  unfolding rd_varint_def by (rule varint_loop_fuel)

lemma rd_bytes_fuel: "rd_bytes r \<noteq> Inl DOutOfFuel"
  using rd_varint_fuel by (auto simp: rd_bytes_def res_bind_eq_Inl split: if_splits)

lemma rd_attrs_fuel: "rd_attrs n prev m r \<noteq> Inl DOutOfFuel"
proof (induction n arbitrary: prev m r)
  case (Suc n)
  then show ?case using rd_bytes_fuel by (auto simp: res_bind_eq_Inl split: if_splits)
qed simp

lemma rd_blob_fuel: "rd_blob flags r \<noteq> Inl DOutOfFuel"
  using rd_bytes_fuel by (auto simp: rd_blob_def res_bind_eq_Inl Let_def split: if_splits)

lemma rd_attrs_opt_fuel: "rd_attrs_opt flags r \<noteq> Inl DOutOfFuel"
  using rd_varint_fuel rd_attrs_fuel by (auto simp: rd_attrs_opt_def res_bind_eq_Inl split: if_splits)

lemma rd_children_fuel:
  assumes "\<And>r. length r < fuel \<Longrightarrow> rd_node fuel r \<noteq> Inl DOutOfFuel"
  shows "length r \<le> fuel \<Longrightarrow> rd_children fuel cnt prev kids r \<noteq> Inl DOutOfFuel"
proof (induction cnt arbitrary: prev kids r)
  case (Suc cnt)
  show ?case
  proof
    assume "rd_children fuel (Suc cnt) prev kids r = Inl DOutOfFuel"
    then obtain name r1 where r1: "rd_bytes r = Inr (name, r1)"
      and "rd_node fuel r1 = Inl DOutOfFuel \<or> (\<exists>child r2. rd_node fuel r1 = Inr (child, r2)
        \<and> rd_children fuel cnt (Some name) (bt_insert name child kids) r2 = Inl DOutOfFuel)"
      using rd_bytes_fuel by (auto simp: res_bind_eq_Inl split: if_splits)
    moreover have "length r1 < fuel" using rd_bytes_shrinks [OF r1] Suc.prems by simp
    ultimately show False using assms Suc.IH by (metis less_imp_le order_trans rd_node_ok)
  qed
qed simp

lemma rd_node_fuel: "length r < fuel \<Longrightarrow> rd_node fuel r \<noteq> Inl DOutOfFuel"
proof (induction fuel arbitrary: r)
  case (Suc fuel)
  show ?case
  proof
    assume "rd_node (Suc fuel) r = Inl DOutOfFuel"
    then obtain flags r1 blob r2 attrs r3 cnt r4 where r: "rd_byte r = Inr (flags, r1)"
      "rd_blob flags r1 = Inr (blob, r2)" "rd_attrs_opt flags r2 = Inr (attrs, r3)" "rd_varint r3 = Inr (cnt, r4)"
      "rd_children fuel (unat cnt) None [] r4 = Inl DOutOfFuel"
      using rd_blob_fuel rd_attrs_opt_fuel rd_varint_fuel
      by (auto simp: res_bind_eq_Inl rd_byte_def split: if_splits list.splits)
    have "length r4 \<le> fuel"
      using Suc.prems rd_byte_shrinks [OF r(1)] rd_blob_shrinks [OF r(2)] rd_attrs_opt_shrinks [OF r(3)]
        rd_varint_shrinks [OF r(4)] by linarith
    with r(5) rd_children_fuel [OF Suc.IH] show False by blast
  qed
qed simp

section \<open>Properties\<close>

text \<open>C6: a layer survives its canonical encoding. Decoding the bytes of a well-formed layer whose
  lengths fit their 64-bit prefixes gives back the layer, with the ignored fields of its tombstones
  cleared, and consumes every byte.\<close>

theorem layer_roundtrip:
  assumes "layer_wf l" and "node_sized (root l)"
  shows "decode_layer (encode_layer l) = Inr \<lparr>root = canon (root l)\<rparr>"
proof -
  have live: "npresence (root l) = Live" and wf: "node_wf (root l)" using assms(1) by (simp_all add: layer_wf_def)
  have "rd_node (Suc (length (enc_node (root l)))) (enc_node (root l) @ []) = Inr (canon (root l), [])"
    by (rule rd_node_enc [OF wf assms(2)]) simp
  moreover have "npresence (canon (root l)) = Live" using live by (cases "root l") simp
  ultimately show ?thesis by (simp add: decode_layer_def encode_layer_def encode_node_eq)
qed

theorem layer_roundtrip_witness:
  "let l = \<lparr>root = Node Live (Set [7]) True (Some [([120], [1])]) Lower [([97], tombstone), ([98], hole)]\<rparr>
   in decode_layer (encode_layer l) = Inr l"
proof -
  let ?l = "\<lparr>root = Node Live (Set [7]) True (Some [([120], [1])]) Lower [([97], tombstone), ([98], hole)]\<rparr>"
  have "layer_wf ?l" by (simp add: layer_wf_def node_wf.simps hole_def list_less_def)
  moreover have "node_sized (root ?l)" by (simp add: attrs_sized_def tombstone_def hole_def)
  moreover have "canon (root ?l) = root ?l" by (simp add: tombstone_def hole_def)
  ultimately show ?thesis using layer_roundtrip [of ?l] by (simp only: Let_def layer.select_convs)
qed

text \<open>C16: the decoder is safe on untrusted bytes. It returns on every input, by an error of the
  format or with a layer; a layer it returns has a live root, strictly ascending attribute keys and
  child names everywhere, and nothing hidden in its tombstones.\<close>

theorem decode_layer_safe:
  "case decode_layer buf of
     Inl e \<Rightarrow> e \<noteq> DOutOfFuel
   | Inr l \<Rightarrow> layer_wf l \<and> canon (root l) = root l"
proof (cases "rd_node (Suc (length buf)) buf")
  case (Inl e)
  then show ?thesis using rd_node_fuel [of buf "Suc (length buf)"] by (auto simp: decode_layer_def)
next
  case (Inr x)
  then show ?thesis using rd_node_ok [of "Suc (length buf)" buf]
    by (cases x) (auto simp: decode_layer_def read_ok_def layer_wf_def)
qed

text \<open>The encoding is not unique for the decoder: integers padded with a redundant zero group are
  accepted, so the layer that changes nothing is read from two different byte strings, although the
  module documentation says the decoder enforces exactly one encoding per layer.\<close>

lemma decode_accepts_padded_integers:
  "decode_layer [0, 0] = Inr empty_layer \<and> decode_layer [0, 0x80, 0] = Inr empty_layer"
  by code_simp

end
