(* ===== verification/Depot_Stream.thy ===== *)
theory Depot_Stream
  imports Depot_Codec Depot_Laws
begin

unbundle bit_operations_syntax

text \<open>
  The streaming layer algebra of \<open>chupa/depot/src/stream.rs\<close>: composition, difference and overlay
  computed on canonical bytes by a lockstep walk of two sorted child lists. A cursor is its remaining
  input; the bytes between two of its positions are \<open>consumed\<close>. The recursive walks take a nesting
  bound, one more than the length of an input, and \<open>SOutOfFuel\<close> marks it. \<open>CapacityPanic\<close> is the
  abort of \<open>Vec::with_capacity\<close> when the requested size exceeds \<open>isize::MAX\<close> bytes; running out of
  memory below that size is not modelled. This theory holds the definitions and the lemmas on the
  cursor; the equivalences with the layer algebra are in \<open>Stream_Compose\<close> and \<open>Stream_State\<close>.
\<close>

section \<open>Cursor\<close>

datatype stream_stop = Bad decode_error | CapacityPanic | SOutOfFuel

definition ID_BYTES :: bytes where "ID_BYTES = [0, 0]"

definition consumed :: "bytes \<Rightarrow> bytes \<Rightarrow> bytes" where
  "consumed r r' = take (length r - length r') r"

definition cur_u8 :: "bytes \<Rightarrow> stream_stop + (u8 \<times> bytes)" where
  "cur_u8 r = (case r of [] \<Rightarrow> Inl (Bad DTruncated) | b # r' \<Rightarrow> Inr (b, r'))"

fun cur_varint_loop :: "nat list \<Rightarrow> u64 \<Rightarrow> bytes \<Rightarrow> stream_stop + (u64 \<times> bytes)" where
  "cur_varint_loop [] v r = Inl (Bad BadVarint)"
| "cur_varint_loop (shift # shifts) v r =
     res_bind (cur_u8 r) (\<lambda>(b, r').
       let low = ucast (b AND 0x7f) in
       if shift = 63 \<and> low > 1 then Inl (Bad BadVarint)
       else
         let v' = v OR push_bit shift low in
         if b AND 0x80 = 0 then Inr (v', r') else cur_varint_loop shifts v' r')"

definition cur_varint :: "bytes \<Rightarrow> stream_stop + (u64 \<times> bytes)" where
  "cur_varint r = cur_varint_loop (map (\<lambda>i. 7 * i) [0..<10]) 0 r"

definition cur_take :: "u64 \<Rightarrow> bytes \<Rightarrow> stream_stop + (bytes \<times> bytes)" where
  "cur_take n r =
     (if unat n > length r then Inl (Bad (BadLength n))
      else Inr (take (unat n) r, drop (unat n) r))"

definition cur_slice :: "bytes \<Rightarrow> stream_stop + (bytes \<times> bytes)" where
  "cur_slice r = res_bind (cur_varint r) (\<lambda>(n, r'). cur_take n r')"

text \<open>One node's facets. The borrowed \<open>Blob\<close> of the module has the constructors of \<open>BlobOp\<close>.\<close>

record head =
  h_tombstone :: bool
  h_blob :: blob_op
  h_opaque :: bool
  h_backdrop :: bool
  h_attrs :: "bytes option"
  h_count :: u64

fun skip_attrs :: "nat \<Rightarrow> bytes \<Rightarrow> stream_stop + bytes" where
  "skip_attrs 0 r = Inr r"
| "skip_attrs (Suc n) r =
     res_bind (cur_slice r) (\<lambda>(_, r1). res_bind (cur_slice r1) (\<lambda>(_, r2). skip_attrs n r2))"

definition head_blob :: "u8 \<Rightarrow> bytes \<Rightarrow> stream_stop + (blob_op \<times> bytes)" where
  "head_blob flags r =
     (let op = flags AND BLOB_MASK in
      if op = BLOB_KEEP then Inr (Keep, r)
      else if op = BLOB_SET then res_bind (cur_slice r) (\<lambda>(bs, r'). Inr (Set bs, r'))
      else if op = BLOB_REMOVE then Inr (Remove, r)
      else Inl (Bad (BadFlags flags)))"

definition head_attrs :: "u8 \<Rightarrow> bytes \<Rightarrow> stream_stop + (bytes option \<times> bytes)" where
  "head_attrs flags r =
     (if flags AND FLAG_ATTRS \<noteq> 0
      then res_bind (cur_varint r) (\<lambda>(count, r').
             res_bind (skip_attrs (unat count) r') (\<lambda>r''. Inr (Some (consumed r r''), r'')))
      else Inr (None, r))"

definition read_head :: "bytes \<Rightarrow> stream_stop + (head \<times> bytes)" where
  "read_head r =
     res_bind (cur_u8 r) (\<lambda>(flags, r1).
       if flags AND NOT KNOWN_FLAGS \<noteq> 0 then Inl (Bad (BadFlags flags))
       else if flags AND FLAG_TOMBSTONE \<noteq> 0
       then if flags \<noteq> FLAG_TOMBSTONE then Inl (Bad (BadFlags flags))
            else Inr (\<lparr>h_tombstone = True, h_blob = Keep, h_opaque = False, h_backdrop = False,
                       h_attrs = None, h_count = 0\<rparr>, r1)
       else
         res_bind (head_blob flags r1) (\<lambda>(blob, r2).
         res_bind (head_attrs flags r2) (\<lambda>(attrs, r3).
         res_bind (cur_varint r3) (\<lambda>(child_count, r4).
           Inr (\<lparr>h_tombstone = False, h_blob = blob, h_opaque = flags AND FLAG_OPAQUE \<noteq> 0,
                 h_backdrop = flags AND FLAG_BACKDROP \<noteq> 0, h_attrs = attrs,
                 h_count = child_count\<rparr>, r4)))))"

fun skip_kids :: "(bytes \<Rightarrow> stream_stop + bytes) \<Rightarrow> nat \<Rightarrow> bytes \<Rightarrow> stream_stop + bytes" where
  "skip_kids skip 0 r = Inr r"
| "skip_kids skip (Suc n) r =
     res_bind (cur_slice r) (\<lambda>(_, r1). res_bind (skip r1) (\<lambda>r2. skip_kids skip n r2))"

primrec skip_go :: "nat \<Rightarrow> bytes \<Rightarrow> stream_stop + bytes" where
  "skip_go 0 r = Inl SOutOfFuel"
| "skip_go (Suc fuel) r = res_bind (read_head r) (\<lambda>(h, r1). skip_kids (skip_go fuel) (unat (h_count h)) r1)"

definition skip_node :: "bytes \<Rightarrow> stream_stop + bytes" where
  "skip_node r = skip_go (Suc (length r)) r"

definition skip_children :: "u64 \<Rightarrow> bytes \<Rightarrow> stream_stop + bytes" where
  "skip_children count r = skip_kids (skip_go (Suc (length r))) (unat count) r"

text \<open>An entry of the child list is two slices, 32 bytes, so this is the largest capacity.\<close>

definition MAX_ENTRIES :: u64 where "MAX_ENTRIES = 0x3FFFFFFFFFFFFFF"

fun collect_loop :: "nat \<Rightarrow> bytes \<Rightarrow> stream_stop + ((name \<times> bytes) list \<times> bytes)" where
  "collect_loop 0 r = Inr ([], r)"
| "collect_loop (Suc n) r =
     res_bind (cur_slice r) (\<lambda>(name, r1).
     res_bind (skip_node r1) (\<lambda>r2.
     res_bind (collect_loop n r2) (\<lambda>(out, r3). Inr ((name, consumed r1 r2) # out, r3))))"

definition collect_children :: "u64 \<Rightarrow> bytes \<Rightarrow> stream_stop + ((name \<times> bytes) list \<times> bytes)" where
  "collect_children count r =
     (if count > MAX_ENTRIES then Inl CapacityPanic else collect_loop (unat count) r)"

definition emit_facets :: "bytes \<Rightarrow> blob_op \<Rightarrow> bool \<Rightarrow> bool \<Rightarrow> bytes option \<Rightarrow> bytes" where
  "emit_facets out blob opaq backdrop attrs =
     (let f0 = (case blob of Keep \<Rightarrow> BLOB_KEEP | Set _ \<Rightarrow> BLOB_SET | Remove \<Rightarrow> BLOB_REMOVE);
          f1 = (if opaq then f0 OR FLAG_OPAQUE else f0);
          f2 = (if attrs \<noteq> None then f1 OR FLAG_ATTRS else f1);
          flags = (if backdrop then f2 OR FLAG_BACKDROP else f2);
          out1 = out @ [flags];
          out2 = (case blob of Set bs \<Rightarrow> put_bytes out1 bs | _ \<Rightarrow> out1)
      in case attrs of Some a \<Rightarrow> out2 @ a | None \<Rightarrow> out2)"

section \<open>The lockstep walk\<close>

text \<open>The four merge loops differ in their arms only, which are the arguments: what a child of the
  left list alone, of the right list alone, and of both contributes (\<open>None\<close> pushes nothing).\<close>

definition push_item :: "name \<Rightarrow> 's option \<Rightarrow> (name \<times> 's) list \<Rightarrow> (name \<times> 's) list" where
  "push_item name item items = (case item of None \<Rightarrow> items | Some s \<Rightarrow> (name, s) # items)"

fun merge_walk :: "('a \<Rightarrow> stream_stop + 's option) \<Rightarrow> ('b \<Rightarrow> stream_stop + 's option)
    \<Rightarrow> ('a \<Rightarrow> 'b \<Rightarrow> stream_stop + 's option)
    \<Rightarrow> (name \<times> 'a) list \<Rightarrow> (name \<times> 'b) list \<Rightarrow> stream_stop + (name \<times> 's) list" where
  "merge_walk f g h [] [] = Inr []"
| "merge_walk f g h ((an, x) # as) [] =
     res_bind (f x) (\<lambda>i. res_bind (merge_walk f g h as []) (\<lambda>r. Inr (push_item an i r)))"
| "merge_walk f g h [] ((bn, y) # bs) =
     res_bind (g y) (\<lambda>i. res_bind (merge_walk f g h [] bs) (\<lambda>r. Inr (push_item bn i r)))"
| "merge_walk f g h ((an, x) # as) ((bn, y) # bs) =
     (if an < bn
      then res_bind (f x) (\<lambda>i. res_bind (merge_walk f g h as ((bn, y) # bs)) (\<lambda>r. Inr (push_item an i r)))
      else if bn < an
      then res_bind (g y) (\<lambda>i. res_bind (merge_walk f g h ((an, x) # as) bs) (\<lambda>r. Inr (push_item bn i r)))
      else res_bind (h x y) (\<lambda>i. res_bind (merge_walk f g h as bs) (\<lambda>r. Inr (push_item an i r))))"

fun emit_items :: "('s \<Rightarrow> bytes \<Rightarrow> stream_stop + bytes) \<Rightarrow> bytes \<Rightarrow> (name \<times> 's) list \<Rightarrow> stream_stop + bytes" where
  "emit_items emit out [] = Inr out"
| "emit_items emit out ((name, src) # items) =
     res_bind (emit src (put_bytes out name)) (\<lambda>out'. emit_items emit out' items)"

definition decode_sub :: "bytes \<Rightarrow> stream_stop + node" where
  "decode_sub sub = (case decode_node sub 0 of Inl e \<Rightarrow> Inl (Bad e) | Inr (n, _) \<Rightarrow> Inr n)"

section \<open>Compose\<close>

datatype 'a src = CopyA 'a | CopyB 'a | Both 'a 'a | Owned 'a

definition harden_sub :: "bytes \<Rightarrow> stream_stop + bytes option" where
  "harden_sub bsub =
     res_bind (decode_sub bsub) (\<lambda>bnode.
       let h = harden bnode in
       if npresence h = Live then Inr (Some (encode_node [] h)) else Inr None)"

definition push_compose_b_only :: "bool \<Rightarrow> bytes \<Rightarrow> stream_stop + bytes src option" where
  "push_compose_b_only a_opaque bsub =
     (if a_opaque then res_bind (harden_sub bsub) (\<lambda>v. Inr (map_option Owned v))
      else if bsub \<noteq> ID_BYTES then Inr (Some (CopyB bsub))
      else Inr None)"

fun collapses_loop :: "(bytes \<Rightarrow> bytes \<Rightarrow> stream_stop + bool)
    \<Rightarrow> (name \<times> bytes) list \<Rightarrow> (name \<times> bytes) list \<Rightarrow> stream_stop + bool" where
  "collapses_loop collapses ((an, asub) # as) ((bn, bsub) # bs) =
     (if an < bn then Inr False
      else if bn < an
      then if bsub \<noteq> ID_BYTES then Inr False else collapses_loop collapses ((an, asub) # as) bs
      else res_bind (collapses asub bsub) (\<lambda>c.
             if \<not> c then Inr False else collapses_loop collapses as bs))"
| "collapses_loop collapses (_ # _) [] = Inr False"
| "collapses_loop collapses [] ((_, bsub) # bs) =
     (if bsub \<noteq> ID_BYTES then Inr False else collapses_loop collapses [] bs)"
| "collapses_loop collapses [] [] = Inr True"

primrec collapses_go :: "nat \<Rightarrow> bytes \<Rightarrow> bytes \<Rightarrow> stream_stop + bool" where
  "collapses_go 0 a b = Inl SOutOfFuel"
| "collapses_go (Suc fuel) a b =
     res_bind (read_head b) (\<lambda>(bh, b1).
       if h_tombstone bh \<or> h_backdrop bh then Inr False
       else res_bind (read_head a) (\<lambda>(ah, a1).
         if h_tombstone ah then Inr False
         else if \<not> (h_blob bh = Keep \<and> h_blob ah = Keep) \<or> h_attrs bh \<noteq> None \<or> h_attrs ah \<noteq> None
           \<or> h_opaque bh \<or> h_opaque ah \<or> h_backdrop ah then Inr False
         else
           res_bind (collect_children (h_count ah) a1) (\<lambda>(a_children, _).
           res_bind (collect_children (h_count bh) b1) (\<lambda>(b_children, _).
             collapses_loop (collapses_go fuel) a_children b_children))))"

definition compose_collapses :: "bytes \<Rightarrow> bytes \<Rightarrow> stream_stop + bool" where
  "compose_collapses a b = collapses_go (Suc (length a)) a b"

definition compose_items :: "bool \<Rightarrow> (name \<times> bytes) list \<Rightarrow> (name \<times> bytes) list
    \<Rightarrow> stream_stop + (name \<times> bytes src) list" where
  "compose_items a_opaque =
     merge_walk (\<lambda>asub. Inr (Some (CopyA asub))) (push_compose_b_only a_opaque)
       (\<lambda>asub bsub. res_bind (compose_collapses asub bsub) (\<lambda>c.
          Inr (if \<not> c then Some (Both asub bsub) else None)))"

fun harden_items :: "(name \<times> bytes) list \<Rightarrow> stream_stop + (name \<times> bytes) list" where
  "harden_items [] = Inr []"
| "harden_items ((name, bsub) # b_children) =
     res_bind (harden_sub bsub) (\<lambda>v. res_bind (harden_items b_children) (\<lambda>r. Inr (push_item name v r)))"

primrec compose_go :: "nat \<Rightarrow> bytes \<Rightarrow> bytes \<Rightarrow> bytes \<Rightarrow> stream_stop + (bytes \<times> bytes \<times> bytes)" where
  "compose_go 0 a b out = Inl SOutOfFuel"
| "compose_go (Suc fuel) a b out =
     res_bind (read_head b) (\<lambda>(bh, b1).
       if h_tombstone bh then res_bind (skip_node a) (\<lambda>a1. Inr (out @ [FLAG_TOMBSTONE], a1, b1))
       else if h_backdrop bh then
         res_bind (skip_children (h_count bh) b1) (\<lambda>b2.
         res_bind (skip_node a) (\<lambda>a1. Inr (out @ consumed b b2, a1, b2)))
       else res_bind (read_head a) (\<lambda>(ah, a1).
         if h_tombstone ah then
           res_bind (skip_children (h_count bh) b1) (\<lambda>b2.
           res_bind (decode_sub b) (\<lambda>bnode. Inr (encode_node out (harden bnode), a1, b2)))
         else
           let blob = (case h_blob bh of Keep \<Rightarrow> h_blob ah | other \<Rightarrow> other);
               attrs = (case h_attrs bh of Some x \<Rightarrow> Some x | None \<Rightarrow> h_attrs ah)
           in
           res_bind (collect_children (h_count ah) a1) (\<lambda>(a_children, a2).
           res_bind (collect_children (h_count bh) b1) (\<lambda>(b_children, b2).
             if h_opaque bh then
               res_bind (harden_items b_children) (\<lambda>kids.
               res_bind (emit_items (\<lambda>v o1. Inr (o1 @ v))
                   (put_varint (emit_facets out blob True (h_backdrop ah) attrs) (of_nat (length kids))) kids)
                 (\<lambda>out'. Inr (out', a2, b2)))
             else
               res_bind (compose_items (h_opaque ah) a_children b_children) (\<lambda>items.
               res_bind (emit_items
                   (\<lambda>src o1. case src of
                       CopyA s \<Rightarrow> Inr (o1 @ s)
                     | CopyB s \<Rightarrow> Inr (o1 @ s)
                     | Owned v \<Rightarrow> Inr (o1 @ v)
                     | Both asub bsub \<Rightarrow>
                         res_bind (compose_go fuel asub bsub o1) (\<lambda>(o2, _, _). Inr o2))
                   (put_varint (emit_facets out blob (h_opaque ah) (h_backdrop ah) attrs)
                     (of_nat (length items))) items)
                 (\<lambda>out'. Inr (out', a2, b2)))))))"

definition compose_stream :: "bytes \<Rightarrow> bytes \<Rightarrow> bytes \<Rightarrow> stream_stop + bytes" where
  "compose_stream a b out = res_bind (compose_go (Suc (length a)) a b out) (\<lambda>(out', _, _). Inr out')"

section \<open>Diff\<close>

definition norm_attrs :: "bytes option \<Rightarrow> bytes option" where
  "norm_attrs attrs = (if attrs = Some [0] then None else attrs)"

definition set_payload :: "blob_op \<Rightarrow> bytes option" where
  "set_payload blob = (case blob of Set x \<Rightarrow> Some x | _ \<Rightarrow> None)"

datatype 'a dsrc = DRemove | DCopyB 'a | DBoth 'a 'a

datatype dattrs = DInherit | DSet bytes | DEmpty

definition stream_blob :: "bytes option \<Rightarrow> bytes option \<Rightarrow> blob_op" where
  "stream_blob va vb = (case (va, vb) of
       (Some x, Some n) \<Rightarrow> if x = n then Keep else Set n
     | (None, Some n) \<Rightarrow> Set n
     | (Some _, None) \<Rightarrow> Remove
     | (None, None) \<Rightarrow> Keep)"

definition stream_attrs :: "bytes option \<Rightarrow> bytes option \<Rightarrow> dattrs" where
  "stream_attrs va vb = (if va = vb then DInherit else case vb of Some raw \<Rightarrow> DSet raw | None \<Rightarrow> DEmpty)"

definition dattrs_raw :: "dattrs \<Rightarrow> bytes option" where
  "dattrs_raw d = (case d of DInherit \<Rightarrow> None | DSet raw \<Rightarrow> Some raw | DEmpty \<Rightarrow> Some [0])"

definition diff_items :: "(name \<times> bytes) list \<Rightarrow> (name \<times> bytes) list
    \<Rightarrow> stream_stop + (name \<times> bytes dsrc) list" where
  "diff_items =
     merge_walk (\<lambda>_. Inr (Some DRemove)) (\<lambda>bsub. Inr (Some (DCopyB bsub)))
       (\<lambda>asub bsub. Inr (if asub \<noteq> bsub then Some (DBoth asub bsub) else None))"

primrec diff_go :: "nat \<Rightarrow> bytes \<Rightarrow> bytes \<Rightarrow> bytes \<Rightarrow> bytes \<Rightarrow> stream_stop + bytes" where
  "diff_go 0 a b remove out = Inl SOutOfFuel"
| "diff_go (Suc fuel) a b remove out =
     res_bind (read_head a) (\<lambda>(ah, a1).
     res_bind (read_head b) (\<lambda>(bh, b1).
       let va_blob = set_payload (h_blob ah);
           vb_blob = set_payload (h_blob bh);
           dblob = stream_blob va_blob vb_blob;
           va_attrs = norm_attrs (h_attrs ah);
           vb_attrs = norm_attrs (h_attrs bh);
           dattrs = stream_attrs va_attrs vb_attrs
       in
       res_bind (collect_children (h_count ah) a1) (\<lambda>(a_children, _).
       res_bind (collect_children (h_count bh) b1) (\<lambda>(b_children, _).
       res_bind (diff_items a_children b_children) (\<lambda>items.
         let b_empty_view = (vb_blob = None \<and> vb_attrs = None \<and> b_children = []);
             a_empty_view = (va_blob = None \<and> va_attrs = None \<and> a_children = []);
             asserts_self = (dblob \<noteq> Keep \<or> dattrs \<noteq> DInherit);
             dattrs' = (if b_empty_view \<and> \<not> asserts_self \<and> \<not> a_empty_view then DEmpty else dattrs);
             attrs_raw = dattrs_raw dattrs'
         in emit_items
              (\<lambda>src o1. case src of
                  DRemove \<Rightarrow> Inr (o1 @ remove)
                | DCopyB s \<Rightarrow> Inr (o1 @ s)
                | DBoth asub bsub \<Rightarrow> diff_go fuel asub bsub remove o1)
              (put_varint (emit_facets out dblob False False attrs_raw) (of_nat (length items))) items)))))"

definition diff_stream :: "bytes \<Rightarrow> bytes \<Rightarrow> bytes \<Rightarrow> stream_stop + bytes" where
  "diff_stream a b out = diff_go (Suc (length a)) a b [FLAG_TOMBSTONE] out"

definition diff_stream_holes :: "bytes \<Rightarrow> bytes \<Rightarrow> bytes \<Rightarrow> stream_stop + bytes" where
  "diff_stream_holes a b out = diff_go (Suc (length a)) a b [FLAG_BACKDROP, 0] out"

section \<open>Overlay\<close>

definition is_tombstone :: "bytes \<Rightarrow> bool" where
  "is_tombstone sub \<longleftrightarrow> sub = [FLAG_TOMBSTONE]"

definition is_backdrop :: "bytes \<Rightarrow> bool" where
  "is_backdrop sub \<longleftrightarrow> (case sub of [] \<Rightarrow> False | f # _ \<Rightarrow> f AND FLAG_BACKDROP \<noteq> 0)"

text \<open>\<open>diff(None, \<dots>)\<close> has no base, so no two allocations are compared.\<close>

definition positive_over_nothing :: "bytes \<Rightarrow> stream_stop + bytes option" where
  "positive_over_nothing sub =
     res_bind (decode_sub sub) (\<lambda>node.
       case apply_layer None \<lparr>root = node\<rparr> of
         Some view \<Rightarrow> Inr (Some (encode_node [] (root (diff (\<lambda>_ _. False) None (Some view)))))
       | None \<Rightarrow> Inr None)"

datatype 'a osrc = CopyBase 'a | OOwned 'a

definition overlay_blob :: "blob_op \<Rightarrow> bytes option \<Rightarrow> bytes option" where
  "overlay_blob blob base_blob = (case blob of Set x \<Rightarrow> Some x | Remove \<Rightarrow> None | Keep \<Rightarrow> base_blob)"

definition overlay_attrs :: "bytes option \<Rightarrow> bytes option \<Rightarrow> bytes option" where
  "overlay_attrs attrs base_attrs = (case attrs of Some _ \<Rightarrow> norm_attrs attrs | None \<Rightarrow> base_attrs)"

definition resolve_sub :: "bytes \<Rightarrow> stream_stop + bytes osrc option" where
  "resolve_sub dsub = res_bind (positive_over_nothing dsub) (\<lambda>v. Inr (map_option OOwned v))"

fun resolve_items :: "(name \<times> bytes) list \<Rightarrow> stream_stop + (name \<times> bytes osrc) list" where
  "resolve_items [] = Inr []"
| "resolve_items ((name, dsub) # delta_children) =
     res_bind (resolve_sub dsub) (\<lambda>v.
     res_bind (resolve_items delta_children) (\<lambda>r. Inr (push_item name v r)))"

definition overlay_arm :: "(bytes \<Rightarrow> bytes \<Rightarrow> bytes \<Rightarrow> stream_stop + (bool \<times> bytes))
    \<Rightarrow> bytes \<Rightarrow> bytes \<Rightarrow> stream_stop + bytes osrc option" where
  "overlay_arm overlay bsub dsub =
     (if is_backdrop dsub then resolve_sub dsub
      else if \<not> is_tombstone dsub
      then res_bind (overlay bsub dsub []) (\<lambda>(lives, tmp). Inr (if lives then Some (OOwned tmp) else None))
      else Inr None)"

definition emit_positive :: "bytes \<Rightarrow> bytes option \<Rightarrow> bytes option \<Rightarrow> (name \<times> bytes osrc) list \<Rightarrow> stream_stop + bytes" where
  "emit_positive out res_blob res_attrs items =
     (let view_empty = (res_blob = None \<and> res_attrs = None \<and> items = []);
          attrs_out = (case res_attrs of
              Some raw \<Rightarrow> Some raw
            | None \<Rightarrow> if view_empty then Some [0] else None);
          blob_out = (case res_blob of Some x \<Rightarrow> Set x | None \<Rightarrow> Keep)
      in emit_items (\<lambda>src o1. case src of CopyBase s \<Rightarrow> Inr (o1 @ s) | OOwned v \<Rightarrow> Inr (o1 @ v))
           (put_varint (emit_facets out blob_out False False attrs_out) (of_nat (length items))) items)"

primrec overlay_go :: "nat \<Rightarrow> bytes \<Rightarrow> bytes \<Rightarrow> bytes \<Rightarrow> stream_stop + (bool \<times> bytes)" where
  "overlay_go 0 base delta out = Inl SOutOfFuel"
| "overlay_go (Suc fuel) base delta out =
     res_bind (read_head base) (\<lambda>(bh, base1).
     res_bind (read_head delta) (\<lambda>(dh, delta1).
       if h_backdrop dh then
         res_bind (skip_children (h_count bh) base1) (\<lambda>_.
         res_bind (skip_children (h_count dh) delta1) (\<lambda>delta2.
         res_bind (positive_over_nothing (consumed delta delta2)) (\<lambda>v.
           Inr (case v of Some bytes \<Rightarrow> (True, out @ bytes) | None \<Rightarrow> (False, out)))))
       else
         let base_blob = set_payload (h_blob bh);
             base_attrs = norm_attrs (h_attrs bh);
             base_empty_present = (base_blob = None \<and> base_attrs = None \<and> h_count bh = 0);
             res_blob = overlay_blob (h_blob dh) base_blob;
             res_attrs = overlay_attrs (h_attrs dh) base_attrs;
             delta_asserts = (h_blob dh \<noteq> Keep \<or> h_attrs dh \<noteq> None \<or> h_opaque dh)
         in
         res_bind (collect_children (h_count bh) base1) (\<lambda>(base_children, _).
         res_bind (collect_children (h_count dh) delta1) (\<lambda>(delta_children, _).
         res_bind
           (if h_opaque dh then resolve_items delta_children
            else merge_walk (\<lambda>bsub. Inr (Some (CopyBase bsub))) resolve_sub (overlay_arm (overlay_go fuel))
              base_children delta_children)
           (\<lambda>items.
             let exists = (res_blob \<noteq> None \<or> res_attrs \<noteq> None \<or> items \<noteq> [] \<or> delta_asserts
                   \<or> base_empty_present)
             in
             if \<not> exists then Inr (False, out)
             else res_bind (emit_positive out res_blob res_attrs items) (\<lambda>out'. Inr (True, out')))))))"

definition overlay_full :: "bytes \<Rightarrow> bytes \<Rightarrow> bytes \<Rightarrow> stream_stop + bytes" where
  "overlay_full base d out =
     res_bind (overlay_go (Suc (length base)) base d out) (\<lambda>(_, out'). Inr out')"

section \<open>The cursor reads what the codec wrote\<close>

declare node_sized.simps rd_node.simps rd_children.simps diff_node.simps [simp del]

definition lift_dec :: "decode_error + 'a \<Rightarrow> stream_stop + 'a" where
  "lift_dec r = (case r of Inl e \<Rightarrow> Inl (Bad e) | Inr x \<Rightarrow> Inr x)"

lemma lift_dec_simps [simp]: "lift_dec (Inl e) = Inl (Bad e)" "lift_dec (Inr x) = Inr x"
  by (simp_all add: lift_dec_def)

lemma lift_dec_bind: "lift_dec (res_bind r f) = res_bind (lift_dec r) (\<lambda>x. lift_dec (f x))"
  by (cases r) simp_all

lemma cur_varint_loop_eq: "cur_varint_loop shifts v r = lift_dec (varint_loop shifts v r)"
proof (induction shifts v r rule: cur_varint_loop.induct)
  case (2 shift shifts v r)
  then show ?case
    by (cases r) (simp_all add: cur_u8_def rd_byte_def Let_def split: if_splits)
qed simp

lemma cur_varint_eq: "cur_varint r = lift_dec (rd_varint r)"
  by (simp add: cur_varint_def rd_varint_def cur_varint_loop_eq)

lemma cur_slice_eq: "cur_slice r = lift_dec (rd_bytes r)"
  unfolding cur_slice_def rd_bytes_def cur_varint_eq lift_dec_bind
  by (rule res_bind_cong) (auto simp: cur_take_def)

lemma cur_varint_enc: "cur_varint (varint v @ rest) = Inr (v, rest)"
  by (simp add: cur_varint_eq rd_varint_varint)

lemma cur_slice_enc: "length b < 2 ^ 64 \<Longrightarrow> cur_slice (enc_bytes b @ rest) = Inr (b, rest)"
  by (simp add: cur_slice_eq rd_bytes_enc)

lemma consumed_append [simp]: "consumed (a @ rest) rest = a"
  by (simp add: consumed_def)

lemma skip_attrs_enc:
  "list_all (\<lambda>(k, v). length k < 2 ^ 64 \<and> length v < 2 ^ 64) m \<Longrightarrow>
    skip_attrs (length m) (enc_attrs m @ rest) = Inr rest"
proof (induction m)
  case (Cons x m)
  then show ?case by (cases x) (simp add: enc_attrs_def cur_slice_enc)
qed (simp add: enc_attrs_def)

definition attrs_block :: "attrs \<Rightarrow> bytes" where
  "attrs_block m = varint (of_nat (length m)) @ enc_attrs m"

lemma enc_attrs_opt_eq: "enc_attrs_opt attrs = (case map_option attrs_block attrs of None \<Rightarrow> [] | Some a \<Rightarrow> a)"
  by (simp add: enc_attrs_opt_def attrs_block_def split: option.splits)

lemma head_attrs_enc:
  "pred_option attrs_sized attrs \<Longrightarrow>
    head_attrs (node_flags blob opaq attrs anchor) (enc_attrs_opt attrs @ rest)
      = Inr (map_option attrs_block attrs, rest)"
proof (cases attrs)
  case (Some m)
  assume "pred_option attrs_sized attrs"
  then have m: "attrs_sized m" using Some by simp
  then have "unat (of_nat (length m) :: u64) = length m" by (simp add: attrs_sized_def unat_of_nat)
  moreover have "skip_attrs (length m) (enc_attrs m @ rest) = Inr rest"
    using m by (intro skip_attrs_enc) (simp add: attrs_sized_def)
  moreover have "consumed (varint (of_nat (length m)) @ enc_attrs m @ rest) rest = attrs_block m"
    using consumed_append [of "varint (of_nat (length m)) @ enc_attrs m" rest]
    by (simp only: append_assoc attrs_block_def)
  ultimately show ?thesis
    by (simp add: Some head_attrs_def node_flags_read enc_attrs_opt_def cur_varint_enc)
qed (simp add: head_attrs_def node_flags_read enc_attrs_opt_def)

lemma head_blob_enc:
  "(case blob of Set bs \<Rightarrow> length bs < 2 ^ 64 | _ \<Rightarrow> True) \<Longrightarrow>
    head_blob (node_flags blob opaq attrs anchor) (enc_blob blob @ rest) = Inr (blob, rest)"
  by (cases blob) (simp_all add: head_blob_def node_flags_read blob_codes enc_blob_def cur_slice_enc)

text \<open>What \<open>read_head\<close> sees of a live node, and of a tombstone.\<close>

definition live_head :: "blob_op \<Rightarrow> bool \<Rightarrow> attrs option \<Rightarrow> anchor \<Rightarrow> nat \<Rightarrow> head" where
  "live_head blob opaq attrs anchor n =
     \<lparr>h_tombstone = False, h_blob = blob, h_opaque = opaq, h_backdrop = (anchor = Backdrop),
      h_attrs = map_option attrs_block attrs, h_count = of_nat n\<rparr>"

definition dead_head :: head where
  "dead_head = \<lparr>h_tombstone = True, h_blob = Keep, h_opaque = False, h_backdrop = False,
     h_attrs = None, h_count = 0\<rparr>"

lemma live_head_sel [simp]:
  "h_tombstone (live_head blob opaq attrs anchor n) = False"
  "h_blob (live_head blob opaq attrs anchor n) = blob"
  "h_opaque (live_head blob opaq attrs anchor n) = opaq"
  "h_backdrop (live_head blob opaq attrs anchor n) = (anchor = Backdrop)"
  "h_attrs (live_head blob opaq attrs anchor n) = map_option attrs_block attrs"
  "h_count (live_head blob opaq attrs anchor n) = of_nat n"
  by (simp_all add: live_head_def)

lemma dead_head_sel [simp]: "h_tombstone dead_head = True" "h_count dead_head = 0"
  by (simp_all add: dead_head_def)

lemma read_head_dead: "read_head (FLAG_TOMBSTONE # rest) = Inr (dead_head, rest)"
  by (simp add: read_head_def cur_u8_def flag_defs dead_head_def)

lemma read_head_live:
  assumes "node_sized (Node Live blob opaq attrs anchor kids)"
  shows "read_head (enc_node (Node Live blob opaq attrs anchor kids) @ rest)
    = Inr (live_head blob opaq attrs anchor (length kids), enc_kids kids @ rest)"
  using assms head_blob_enc [of blob opaq attrs anchor] head_attrs_enc [of attrs blob opaq anchor]
  by (simp add: node_sized.simps read_head_def enc_node_eq cur_u8_def node_flags_read cur_varint_enc live_head_def)

text \<open>Nodes the streaming functions accept: canonical, with lengths that fit their prefixes and child
  lists that fit a vector of slices.\<close>

fun width_below :: "nat \<Rightarrow> node \<Rightarrow> bool" where
  "width_below w (Node pres blob opaq attrs anchor kids) \<longleftrightarrow>
     length kids < w \<and> list_all (\<lambda>(_, c). width_below w c) kids"

definition clean :: "node \<Rightarrow> bool" where
  "clean n \<longleftrightarrow> node_wf n \<and> node_sized n \<and> width_below (2 ^ 58) n \<and> canon n = n"

lemma clean_tombstone [simp]: "clean tombstone"
  by (simp add: clean_def tombstone_def node_wf.simps node_sized.simps)

lemma clean_dead: "clean n \<Longrightarrow> npresence n = Tombstone \<Longrightarrow> n = tombstone"
  by (cases n) (simp add: clean_def)

lemma clean_Live:
  "clean (Node Live blob opaq attrs anchor kids) \<longleftrightarrow>
     (case blob of Set bs \<Rightarrow> length bs < 2 ^ 64 | _ \<Rightarrow> True) \<and> pred_option attrs_sized attrs
     \<and> pred_option bt_wf attrs \<and> bt_wf kids \<and> length kids < 2 ^ 58
     \<and> (\<forall>(k, c) \<in> set kids. length k < 2 ^ 64 \<and> clean c)"
proof -
  have "map (\<lambda>(k, c). (k, canon c)) kids = kids \<longleftrightarrow> (\<forall>(k, c) \<in> set kids. canon c = c)"
    by (induction kids) auto
  then show ?thesis by (auto simp: clean_def node_wf.simps node_sized.simps list_all_iff)
qed

lemma clean_sized: "clean n \<Longrightarrow> node_sized n"
  by (simp add: clean_def)

lemma enc_tombstone [simp]: "enc_node tombstone = [FLAG_TOMBSTONE]"
  by (simp add: tombstone_def enc_node_eq)

lemma skip_kids_enc:
  assumes "\<And>k c rest. (k, c) \<in> set kids \<Longrightarrow> skip (enc_node c @ rest) = Inr rest"
    and "\<forall>(k, c) \<in> set kids. length k < 2 ^ 64"
  shows "skip_kids skip (length kids) (enc_kids kids @ rest) = Inr rest"
  using assms
proof (induction kids)
  case (Cons x kids)
  obtain k c where x: "x = (k, c)" by fastforce
  have "skip_kids skip (length kids) (enc_kids kids @ rest) = Inr rest"
    using Cons.prems by (intro Cons.IH) auto
  then show ?case using Cons.prems(1) [of k c] Cons.prems(2) by (simp add: x enc_kids_def cur_slice_enc)
qed (simp add: enc_kids_def)

lemma small_count: "n < 2 ^ 58 \<Longrightarrow> unat (of_nat n :: u64) = n"
  by (simp add: unat_of_nat)

lemma skip_go_enc: "clean n \<Longrightarrow> length (enc_node n) \<le> fuel \<Longrightarrow> skip_go fuel (enc_node n @ rest) = Inr rest"
proof (induction n arbitrary: fuel rest rule: node_induct)
  case (Node pres blob opaq attrs anchor kids)
  obtain f where f: "fuel = Suc f" using Node.prems(2) by (cases fuel) (auto simp: enc_node_eq split: if_splits)
  show ?case
  proof (cases pres)
    case Tombstone
    then show ?thesis by (simp add: f enc_node_eq read_head_dead)
  next
    case Live
    note cl = Node.prems(1) [unfolded Live clean_Live]
    have "skip_kids (skip_go f) (length kids) (enc_kids kids @ rest) = Inr rest"
    proof (rule skip_kids_enc)
      fix k c rest' assume kc: "(k, c) \<in> set kids"
      then have "length (enc_node c) \<le> f"
        using Node.prems(2) Live enc_kids_length [OF kc] by (simp add: f enc_node_eq)
      with Node.IH [OF kc] cl kc show "skip_go f (enc_node c @ rest') = Inr rest'" by auto
    next
      show "\<forall>(k, c) \<in> set kids. length k < 2 ^ 64" using cl by auto
    qed
    with read_head_live [OF clean_sized [OF Node.prems(1) [unfolded Live]]] Live cl show ?thesis
      by (simp add: f small_count)
  qed
qed

lemma skip_node_enc: "clean n \<Longrightarrow> skip_node (enc_node n @ rest) = Inr rest"
  unfolding skip_node_def by (rule skip_go_enc) simp_all

lemma skip_children_enc:
  assumes "length kids < 2 ^ 58" and "\<And>k c. (k, c) \<in> set kids \<Longrightarrow> length k < 2 ^ 64 \<and> clean c"
  shows "skip_children (of_nat (length kids)) (enc_kids kids @ rest) = Inr rest"
proof -
  have "skip_kids (skip_go (Suc (length (enc_kids kids @ rest)))) (length kids) (enc_kids kids @ rest) = Inr rest"
  proof (rule skip_kids_enc)
    fix k c rest' assume "(k, c) \<in> set kids"
    with assms(2) enc_kids_length [OF this]
    show "skip_go (Suc (length (enc_kids kids @ rest))) (enc_node c @ rest') = Inr rest'"
      by (intro skip_go_enc) auto
  qed (use assms(2) in blast)
  then show ?thesis using assms(1) by (simp add: skip_children_def small_count)
qed

abbreviation enc_list :: "(name \<times> node) list \<Rightarrow> (name \<times> bytes) list" where
  "enc_list kids \<equiv> map (\<lambda>(k, c). (k, enc_node c)) kids"

lemma collect_loop_enc:
  "(\<And>k c. (k, c) \<in> set kids \<Longrightarrow> length k < 2 ^ 64 \<and> clean c) \<Longrightarrow>
    collect_loop (length kids) (enc_kids kids @ rest) = Inr (enc_list kids, rest)"
proof (induction kids)
  case (Cons x kids)
  obtain k c where x: "x = (k, c)" by fastforce
  have "collect_loop (length kids) (enc_kids kids @ rest) = Inr (enc_list kids, rest)"
    using Cons.prems by (intro Cons.IH) auto
  then show ?case using Cons.prems [of k c] by (simp add: x enc_kids_def cur_slice_enc skip_node_enc)
qed (simp add: enc_kids_def)

lemma collect_children_enc:
  assumes "length kids < 2 ^ 58" and "\<And>k c. (k, c) \<in> set kids \<Longrightarrow> length k < 2 ^ 64 \<and> clean c"
  shows "collect_children (of_nat (length kids)) (enc_kids kids @ rest) = Inr (enc_list kids, rest)"
proof -
  have "\<not> of_nat (length kids) > MAX_ENTRIES"
    using assms(1) by (simp add: MAX_ENTRIES_def word_less_nat_alt small_count)
  then show ?thesis
    using collect_loop_enc [OF assms(2)] assms(1) by (simp add: collect_children_def small_count)
qed

lemma decode_sub_enc: "clean n \<Longrightarrow> decode_sub (enc_node n @ rest) = Inr n"
  using rd_node_enc [of n "Suc (length (enc_node n @ rest))" rest]
  by (simp add: decode_sub_def decode_node_def clean_def)

lemma enc_node_inj: "clean m \<Longrightarrow> clean n \<Longrightarrow> enc_node m = enc_node n \<longleftrightarrow> m = n"
  by (metis decode_sub_enc sum.inject(2))

section \<open>Emission\<close>

lemma emit_facets_eq:
  "emit_facets out blob opaq (anchor = Backdrop) (map_option attrs_block attrs)
    = out @ node_flags blob opaq attrs anchor # enc_blob blob @ enc_attrs_opt attrs"
  by (simp add: emit_facets_def node_flags_def enc_blob_def enc_attrs_opt_eq put_bytes_eq Let_def
      split: blob_op.splits option.splits)

lemma emit_items_eq:
  "(\<And>k s o1. (k, s) \<in> set items \<Longrightarrow> emit (\<theta> s) o1 = Inr (o1 @ val s)) \<Longrightarrow>
    emit_items emit out (map (\<lambda>(k, s). (k, \<theta> s)) items)
      = Inr (out @ concat (map (\<lambda>(k, s). enc_bytes k @ val s) items))"
proof (induction items arbitrary: out)
  case (Cons x items)
  obtain k s where x: "x = (k, s)" by fastforce
  have "emit_items emit o1 (map (\<lambda>(k, s). (k, \<theta> s)) items)
      = Inr (o1 @ concat (map (\<lambda>(k, s). enc_bytes k @ val s) items))" for o1
    using Cons.prems by (intro Cons.IH) auto
  then show ?case using Cons.prems [of k s] by (simp add: x put_bytes_eq)
qed simp

lemma items_bytes:
  "concat (map (\<lambda>(k, s). enc_bytes k @ enc_node (val s)) items) = enc_kids (map (\<lambda>(k, s). (k, val s)) items)"
  by (induction items) (auto simp: enc_kids_def)

text \<open>Facets, count and items together are the encoding of a node.\<close>

lemma emit_node:
  assumes "\<And>k s o1. (k, s) \<in> set items \<Longrightarrow> emit (\<theta> s) o1 = Inr (o1 @ enc_node (val s))"
  shows "emit_items emit
      (put_varint (emit_facets out blob opaq (anchor = Backdrop) (map_option attrs_block attrs)) (of_nat (length items)))
      (map (\<lambda>(k, s). (k, \<theta> s)) items)
    = Inr (out @ enc_node (Node Live blob opaq attrs anchor (map (\<lambda>(k, s). (k, val s)) items)))"
  using emit_items_eq [of items emit \<theta> "\<lambda>s. enc_node (val s)"] assms
  by (simp add: put_varint_eq emit_facets_eq enc_node_eq items_bytes)

section \<open>The walk as a merge of maps\<close>

fun merge_spec :: "('a \<Rightarrow> 's option) \<Rightarrow> ('b \<Rightarrow> 's option) \<Rightarrow> ('a \<Rightarrow> 'b \<Rightarrow> 's option)
    \<Rightarrow> (name \<times> 'a) list \<Rightarrow> (name \<times> 'b) list \<Rightarrow> (name \<times> 's) list" where
  "merge_spec f g h [] [] = []"
| "merge_spec f g h ((an, x) # as) [] = push_item an (f x) (merge_spec f g h as [])"
| "merge_spec f g h [] ((bn, y) # bs) = push_item bn (g y) (merge_spec f g h [] bs)"
| "merge_spec f g h ((an, x) # as) ((bn, y) # bs) =
     (if an < bn then push_item an (f x) (merge_spec f g h as ((bn, y) # bs))
      else if bn < an then push_item bn (g y) (merge_spec f g h ((an, x) # as) bs)
      else push_item an (h x y) (merge_spec f g h as bs))"

lemma push_item_map: "push_item k (map_option \<theta> i) (map (\<lambda>(k, s). (k, \<theta> s)) r) = map (\<lambda>(k, s). (k, \<theta> s)) (push_item k i r)"
  by (cases i) (simp_all add: push_item_def)

lemma merge_walk_spec:
  assumes "\<And>k x. (k, x) \<in> set as \<Longrightarrow> f' (\<phi> x) = Inr (map_option \<theta> (f x))"
    and "\<And>k y. (k, y) \<in> set bs \<Longrightarrow> g' (\<psi> y) = Inr (map_option \<theta> (g y))"
    and "\<And>k x y. (k, x) \<in> set as \<Longrightarrow> (k, y) \<in> set bs \<Longrightarrow> h' (\<phi> x) (\<psi> y) = Inr (map_option \<theta> (h x y))"
  shows "merge_walk f' g' h' (map (\<lambda>(k, x). (k, \<phi> x)) as) (map (\<lambda>(k, y). (k, \<psi> y)) bs)
    = Inr (map (\<lambda>(k, s). (k, \<theta> s)) (merge_spec f g h as bs))"
  using assms
proof (induction f g h as bs rule: merge_spec.induct)
  case (2 f g h an x as)
  have "merge_walk f' g' h' (map (\<lambda>(k, x). (k, \<phi> x)) as) (map (\<lambda>(k, y). (k, \<psi> y)) [])
      = Inr (map (\<lambda>(k, s). (k, \<theta> s)) (merge_spec f g h as []))"
    using 2(2,3,4) by (intro 2(1)) auto
  with 2(2) [of an x] show ?case by (simp add: push_item_map)
next
  case (3 f g h bn y bs)
  have "merge_walk f' g' h' (map (\<lambda>(k, x). (k, \<phi> x)) []) (map (\<lambda>(k, y). (k, \<psi> y)) bs)
      = Inr (map (\<lambda>(k, s). (k, \<theta> s)) (merge_spec f g h [] bs))"
    using 3(2,3,4) by (intro 3(1)) auto
  with 3(3) [of bn y] show ?case by (simp add: push_item_map)
next
  case (4 f g h an x as bn y bs)
  note prems = 4(4,5,6)
  consider "an < bn" | "bn < an" | "an = bn" by fastforce
  then show ?case
  proof cases
    case 1
    have "merge_walk f' g' h' (map (\<lambda>(k, x). (k, \<phi> x)) as) (map (\<lambda>(k, y). (k, \<psi> y)) ((bn, y) # bs))
        = Inr (map (\<lambda>(k, s). (k, \<theta> s)) (merge_spec f g h as ((bn, y) # bs)))"
      by (rule 4(1) [OF 1]) (meson prems list.set_intros)+
    with 1 prems(1) [of an x] show ?thesis by (simp add: push_item_map)
  next
    case 2
    then have "\<not> an < bn" by simp
    have "merge_walk f' g' h' (map (\<lambda>(k, x). (k, \<phi> x)) ((an, x) # as)) (map (\<lambda>(k, y). (k, \<psi> y)) bs)
        = Inr (map (\<lambda>(k, s). (k, \<theta> s)) (merge_spec f g h ((an, x) # as) bs))"
      by (rule 4(2) [OF \<open>\<not> an < bn\<close> 2]) (meson prems list.set_intros)+
    with 2 \<open>\<not> an < bn\<close> prems(2) [of bn y] show ?thesis by (simp add: push_item_map)
  next
    case 3
    then have n: "\<not> an < bn" "\<not> bn < an" by simp_all
    have "merge_walk f' g' h' (map (\<lambda>(k, x). (k, \<phi> x)) as) (map (\<lambda>(k, y). (k, \<psi> y)) bs)
        = Inr (map (\<lambda>(k, s). (k, \<theta> s)) (merge_spec f g h as bs))"
      by (rule 4(3) [OF n]) (meson prems list.set_intros)+
    with 3 prems(3) [of an x y] show ?thesis by (simp add: push_item_map)
  qed
qed simp

lemma push_item_get: "bt_get (push_item n i r) k = (if k = n \<and> i \<noteq> None then i else bt_get r k)"
  by (cases i) (auto simp: push_item_def)

lemma push_item_keys: "fst ` set r \<subseteq> A \<Longrightarrow> n \<in> A \<Longrightarrow> fst ` set (push_item n i r) \<subseteq> A"
  by (cases i) (auto simp: push_item_def)

lemma merge_spec_keys: "fst ` set as \<subseteq> A \<Longrightarrow> fst ` set bs \<subseteq> A \<Longrightarrow> fst ` set (merge_spec f g h as bs) \<subseteq> A"
proof (induction f g h as bs rule: merge_spec.induct)
  case (4 f g h an x as bn y bs)
  consider "an < bn" | "\<not> an < bn" "bn < an" | "\<not> an < bn" "\<not> bn < an" by blast
  then show ?case by cases (use 4 in \<open>simp_all add: push_item_keys\<close>)
qed (simp_all add: push_item_keys)

lemma push_item_wf: "bt_wf r \<Longrightarrow> \<forall>x \<in> fst ` set r. n < x \<Longrightarrow> bt_wf (push_item n i r)"
  by (cases i) (auto simp: push_item_def)

lemma merge_spec_wf: "bt_wf as \<Longrightarrow> bt_wf bs \<Longrightarrow> bt_wf (merge_spec f g h as bs)"
proof (induction f g h as bs rule: merge_spec.induct)
  case (2 f g h an x as)
  then show ?case using merge_spec_keys [of as "{k. an < k}" "[]" f g h]
    by (auto intro!: push_item_wf)
next
  case (3 f g h bn y bs)
  then show ?case using merge_spec_keys [of "[]" "{k. bn < k}" bs f g h]
    by (auto intro!: push_item_wf)
next
  case (4 f g h an x as bn y bs)
  note keys = merge_spec_keys [where f = f and g = g and h = h, THEN subsetD]
  consider "an < bn" | "\<not> an < bn" "bn < an" | "\<not> an < bn" "\<not> bn < an" by blast
  then show ?case
  proof cases
    case 1
    have "\<forall>k \<in> fst ` set (merge_spec f g h as ((bn, y) # bs)). an < k"
      using 4(4,5) 1 by (intro ballI keys [of as "{k. an < k}", unfolded mem_Collect_eq]) (auto dest: order.strict_trans)
    with 1 4 show ?thesis by (simp add: push_item_wf)
  next
    case 2
    have "\<forall>k \<in> fst ` set (merge_spec f g h ((an, x) # as) bs). bn < k"
      using 4(4,5) 2 by (intro ballI keys [of _ "{k. bn < k}", unfolded mem_Collect_eq]) (auto dest: order.strict_trans)
    with 2 4 show ?thesis by (simp add: push_item_wf)
  next
    case 3
    then have "an = bn" by simp
    then have "\<forall>k \<in> fst ` set (merge_spec f g h as bs). an < k"
      using 4(4,5) by (intro ballI keys [of as "{k. an < k}", unfolded mem_Collect_eq]) auto
    with 3 4 show ?thesis by (simp add: push_item_wf)
  qed
qed simp

lemma bt_get_below: "\<forall>x \<in> set m. (k :: name) < fst x \<Longrightarrow> bt_get m k = None"
  by (fastforce simp: bt_get_None_iff)

lemma merge_spec_get:
  "bt_wf as \<Longrightarrow> bt_wf bs \<Longrightarrow> bt_get (merge_spec f g h as bs) k =
    (case (bt_get as k, bt_get bs k) of
       (None, None) \<Rightarrow> None
     | (Some x, None) \<Rightarrow> f x
     | (None, Some y) \<Rightarrow> g y
     | (Some x, Some y) \<Rightarrow> h x y)"
proof (induction f g h as bs rule: merge_spec.induct)
  case (2 f g h an x as)
  then show ?case using bt_get_below [of as an] by (auto simp: push_item_get split: option.splits)
next
  case (3 f g h bn y bs)
  then show ?case using bt_get_below [of bs bn] by (auto simp: push_item_get split: option.splits)
next
  case (4 f g h an x as bn y bs)
  have none: "bt_get as an = None" "bt_get bs bn = None" using 4(4,5) by (auto intro: bt_get_below)
  have lt: "an < bn \<Longrightarrow> bt_get bs an = None" "bn < an \<Longrightarrow> bt_get as bn = None"
    using 4(4,5) by (auto intro!: bt_get_below dest: order.strict_trans)
  consider "an < bn" | "\<not> an < bn" "bn < an" | "\<not> an < bn" "\<not> bn < an" by blast
  then show ?case
  proof cases
    case 1
    then have "bt_get (merge_spec f g h as ((bn, y) # bs)) k =
        (case (bt_get as k, bt_get ((bn, y) # bs) k) of (None, None) \<Rightarrow> None
         | (Some x, None) \<Rightarrow> f x | (None, Some y) \<Rightarrow> g y | (Some x, Some y) \<Rightarrow> h x y)"
      using 4 by simp
    with 1 none lt show ?thesis by (auto simp: push_item_get split: option.splits)
  next
    case 2
    then have "bt_get (merge_spec f g h ((an, x) # as) bs) k =
        (case (bt_get ((an, x) # as) k, bt_get bs k) of (None, None) \<Rightarrow> None
         | (Some x, None) \<Rightarrow> f x | (None, Some y) \<Rightarrow> g y | (Some x, Some y) \<Rightarrow> h x y)"
      using 4 by simp
    with 2 none lt show ?thesis by (auto simp: push_item_get split: option.splits)
  next
    case 3
    then have "an = bn" by simp
    moreover have "bt_get (merge_spec f g h as bs) k =
        (case (bt_get as k, bt_get bs k) of (None, None) \<Rightarrow> None
         | (Some x, None) \<Rightarrow> f x | (None, Some y) \<Rightarrow> g y | (Some x, Some y) \<Rightarrow> h x y)"
      using 3 4 by simp
    ultimately show ?thesis using none by (auto simp: push_item_get split: option.splits)
  qed
qed simp

lemma bt_get_map_snd [simp]: "bt_get (map (\<lambda>(n, s). (n, \<theta> s)) m) k = map_option \<theta> (bt_get m k)"
  by (induction m) auto

end
