(* ===== verification/Stream_Compose.thy ===== *)
theory Stream_Compose
  imports Depot_Stream
begin

text \<open>
  Streaming composition computes the encoding of the composed layer. The walk of the two child lists
  is related to \<open>compose_kids\<close> through the items it pushes, read as nodes; \<open>compose_collapses\<close>, which
  decides before emitting whether a two-sided child disappears, is exact.
\<close>

section \<open>The pushed items\<close>

definition cp_left :: "node \<Rightarrow> node src option" where
  "cp_left c = Some (CopyA c)"

definition cp_right :: "bool \<Rightarrow> node \<Rightarrow> node src option" where
  "cp_right a_opaque c =
     (if a_opaque then if npresence (harden c) = Live then Some (Owned (harden c)) else None
      else if is_identity c then None else Some (CopyB c))"

definition cp_both :: "node \<Rightarrow> node \<Rightarrow> node src option" where
  "cp_both a b = (if is_identity (compose_node a b) then None else Some (Both a b))"

fun src_node :: "node src \<Rightarrow> node" where
  "src_node (CopyA n) = n"
| "src_node (CopyB n) = n"
| "src_node (Owned n) = n"
| "src_node (Both a b) = compose_node a b"

abbreviation cp_merge :: "bool \<Rightarrow> (name \<times> node) list \<Rightarrow> (name \<times> node) list \<Rightarrow> (name \<times> node src) list" where
  "cp_merge q \<equiv> merge_spec cp_left (cp_right q) cp_both"

lemma compose_kids_merge:
  assumes "bt_wf (nchildren a)" and "bt_wf (nchildren b)" and "\<not> nopaque b"
  shows "compose_kids a b = map (\<lambda>(k, s). (k, src_node s)) (cp_merge (nopaque a) (nchildren a) (nchildren b))"
proof (rule bt_ext)
  show "bt_wf (compose_kids a b)" by (rule compose_kids_wf) (rule assms(2))
  show "bt_wf (map (\<lambda>(k, s). (k, src_node s)) (cp_merge (nopaque a) (nchildren a) (nchildren b)))"
    using merge_spec_wf [OF assms(1,2)] by simp
  fix k
  show "bt_get (compose_kids a b) k
      = bt_get (map (\<lambda>(k, s). (k, src_node s)) (cp_merge (nopaque a) (nchildren a) (nchildren b))) k"
    by (simp add: compose_kids_get [OF assms] merge_spec_get [OF assms(1,2)] cp_left_def cp_right_def cp_both_def
        split: option.splits)
qed

lemma clean_keep [simp]: "clean keep"
  by (simp add: keep_def clean_Live)

lemma enc_keep: "enc_node keep = ID_BYTES"
  by (simp add: keep_def enc_node_eq node_flags_def enc_blob_def enc_attrs_opt_def enc_kids_def
      varint.simps flag_defs ID_BYTES_def)

lemma enc_is_ID: "clean c \<Longrightarrow> enc_node c = ID_BYTES \<longleftrightarrow> is_identity c"
  using enc_node_inj [of c keep] by (simp add: enc_keep is_identity_eq)

lemma decode_sub_clean: "clean c \<Longrightarrow> decode_sub (enc_node c) = Inr c"
  using decode_sub_enc [of c "[]"] by simp

lemma harden_sub_enc:
  "clean c \<Longrightarrow> harden_sub (enc_node c)
    = Inr (if npresence (harden c) = Live then Some (enc_node (harden c)) else None)"
  by (simp add: harden_sub_def decode_sub_clean Let_def encode_node_eq)

lemma push_b_only_enc:
  "clean c \<Longrightarrow> push_compose_b_only q (enc_node c) = Inr (map_option (map_src enc_node) (cp_right q c))"
  by (simp add: push_compose_b_only_def harden_sub_enc cp_right_def enc_is_ID)

lemma harden_items_enc:
  "(\<And>k c. (k, c) \<in> set kids \<Longrightarrow> clean c) \<Longrightarrow> harden_items (enc_list kids) = Inr (enc_list (harden_children kids))"
proof (induction kids)
  case (Cons x kids)
  obtain k c where x: "x = (k, c)" by fastforce
  have "harden_items (enc_list kids) = Inr (enc_list (harden_children kids))"
    using Cons.prems by (intro Cons.IH) auto
  then show ?case using Cons.prems [of k c] by (simp add: x harden_sub_enc push_item_def Let_def)
qed simp

section \<open>Collapsing children\<close>

lemma push_item_Nil: "push_item k i r = [] \<longleftrightarrow> i = None \<and> r = []"
  by (cases i) (simp_all add: push_item_def)

lemma collapses_loop_enc:
  assumes "\<And>k c. (k, c) \<in> set bs \<Longrightarrow> clean c"
    and "\<And>k x y. (k, x) \<in> set as \<Longrightarrow> (k, y) \<in> set bs \<Longrightarrow>
      collapses (enc_node x) (enc_node y) = Inr (is_identity (compose_node x y))"
  shows "collapses_loop collapses (enc_list as) (enc_list bs) = Inr (cp_merge False as bs = [])"
  using assms
proof (induction "cp_left" "cp_right False" "cp_both" as bs rule: merge_spec.induct)
  case (3 bn y bs)
  have "collapses_loop collapses (enc_list []) (enc_list bs) = Inr (cp_merge False [] bs = [])"
    by (rule 3(1)) (meson 3(2,3) list.set_intros)+
  with enc_is_ID [OF 3(2) [of bn y]] show ?case by (simp add: push_item_Nil cp_right_def)
next
  case (4 an x as bn y bs)
  have y: "enc_node y = ID_BYTES \<longleftrightarrow> is_identity y" using 4(4) [of bn y] by (simp add: enc_is_ID)
  consider "an < bn" | "\<not> an < bn" "bn < an" | "\<not> an < bn" "\<not> bn < an" by blast
  then show ?case
  proof cases
    case 1
    then show ?thesis by (simp add: push_item_Nil cp_left_def)
  next
    case 2
    have "collapses_loop collapses (enc_list ((an, x) # as)) (enc_list bs) = Inr (cp_merge False ((an, x) # as) bs = [])"
      by (rule 4(2) [OF 2]) (meson 4(4,5) list.set_intros)+
    with 2 y show ?thesis by (simp add: push_item_Nil cp_right_def)
  next
    case 3
    have "collapses_loop collapses (enc_list as) (enc_list bs) = Inr (cp_merge False as bs = [])"
      by (rule 4(3) [OF 3]) (meson 4(4,5) list.set_intros)+
    moreover have "an = bn" using 3 by simp
    ultimately show ?thesis using 3 4(5) [of an x y] by (simp add: push_item_Nil cp_both_def)
  qed
qed (simp_all add: push_item_Nil cp_left_def)

lemma read_head_live_clean:
  "clean (Node Live blob opaq attrs anchor kids) \<Longrightarrow>
    read_head (enc_node (Node Live blob opaq attrs anchor kids) @ rest)
      = Inr (live_head blob opaq attrs anchor (length kids), enc_kids kids @ rest)"
  by (rule read_head_live) (rule clean_sized)

lemma clean_kids:
  assumes "clean (Node Live blob opaq attrs anchor kids)"
  shows "length kids < 2 ^ 58" and "\<And>k c. (k, c) \<in> set kids \<Longrightarrow> length k < 2 ^ 64 \<and> clean c" and "bt_wf kids"
  using assms by (auto simp: clean_Live)

lemma collect_clean:
  "clean (Node Live blob opaq attrs anchor kids) \<Longrightarrow>
    collect_children (of_nat (length kids)) (enc_kids kids @ rest) = Inr (enc_list kids, rest)"
  using clean_kids by (intro collect_children_enc) blast+

lemma live_cases:
  obtains (dead) "npresence n = Tombstone"
  | (live) blob opaq attrs anchor kids where "n = Node Live blob opaq attrs anchor kids"
  by (cases n; cases "npresence n") auto

lemma not_Backdrop [simp]: "x \<noteq> Backdrop \<longleftrightarrow> x = Lower"
  by (cases x) simp_all

lemma collapses_go_enc:
  "clean a \<Longrightarrow> clean b \<Longrightarrow> length (enc_node a) \<le> fuel \<Longrightarrow>
    collapses_go fuel (enc_node a) (enc_node b) = Inr (is_identity (compose_node a b))"
proof (induction a arbitrary: b fuel rule: node_induct)
  case (Node pres blob opaq attrs anchor kids)
  let ?a = "Node pres blob opaq attrs anchor kids"
  obtain f where f: "fuel = Suc f" using Node.prems(3) by (cases fuel) (auto simp: enc_node_eq split: if_splits)
  show ?case
  proof (cases b rule: live_cases)
    case dead
    then have "b = tombstone" using clean_dead [OF Node.prems(2)] by simp
    then show ?thesis by (simp add: f read_head_dead compose_node_eq is_identity_def)
  next
    case b: (live bblob bopaq battrs banchor bkids)
    note cb = Node.prems(2) [unfolded b]
    show ?thesis
    proof (cases banchor)
      case Backdrop
      then show ?thesis using read_head_live_clean [OF cb, of "[]"] by (simp add: f b compose_node_eq is_identity_def)
    next
      case Lower
      note rb = read_head_live_clean [OF cb [unfolded Lower], where rest = "[]", simplified]
      show ?thesis
      proof (cases pres)
        case Tombstone
        then have "?a = tombstone" using clean_dead [OF Node.prems(1)] by simp
        then show ?thesis
          by (simp add: f b Lower rb read_head_dead compose_node_eq harden_eq is_identity_def)
      next
        case Live
        note ca = Node.prems(1) [unfolded Live]
        note ra = read_head_live_clean [OF ca, where rest = "[]", simplified]
        have "collapses_loop (collapses_go f) (enc_list kids) (enc_list bkids) = Inr (cp_merge False kids bkids = [])"
        proof (rule collapses_loop_enc)
          show "clean c" if "(k, c) \<in> set bkids" for k c using clean_kids(2) [OF cb] that by blast
          fix k x y assume x: "(k, x) \<in> set kids" and y: "(k, y) \<in> set bkids"
          have "length (enc_node x) \<le> f"
            using Node.prems(3) Live enc_kids_length [OF x] by (simp add: f enc_node_eq)
          with clean_kids(2) [OF ca x] clean_kids(2) [OF cb y]
          show "collapses_go f (enc_node x) (enc_node y) = Inr (is_identity (compose_node x y))"
            by (intro Node.IH [OF x]) blast+
        qed
        moreover have "\<not> bopaq \<Longrightarrow> compose_kids ?a b = map (\<lambda>(k, s). (k, src_node s)) (cp_merge opaq kids bkids)"
          using compose_kids_merge [of ?a b] clean_kids(3) [OF ca] clean_kids(3) [OF cb]
          by (simp add: b)
        ultimately show ?thesis
          using collect_clean [OF ca, of "[]"] collect_clean [OF cb, of "[]"]
          by (auto simp: f b Lower ra rb Live compose_node_eq is_identity_def split: blob_op.splits option.splits)
      qed
    qed
  qed
qed

lemma compose_collapses_enc:
  "clean a \<Longrightarrow> clean b \<Longrightarrow> compose_collapses (enc_node a) (enc_node b) = Inr (is_identity (compose_node a b))"
  unfolding compose_collapses_def by (rule collapses_go_enc) simp_all

lemma compose_items_enc:
  assumes "\<And>k c. (k, c) \<in> set as \<Longrightarrow> clean c" and "\<And>k c. (k, c) \<in> set bs \<Longrightarrow> clean c"
  shows "compose_items q (enc_list as) (enc_list bs)
    = Inr (map (\<lambda>(k, s). (k, map_src enc_node s)) (cp_merge q as bs))"
  unfolding compose_items_def
proof (rule merge_walk_spec)
  fix k x y assume "(k, x) \<in> set as" "(k, y) \<in> set bs"
  with assms have "clean x" "clean y" by blast+
  then show "res_bind (compose_collapses (enc_node x) (enc_node y))
      (\<lambda>c. Inr (if \<not> c then Some (Both (enc_node x) (enc_node y)) else None))
      = Inr (map_option (map_src enc_node) (cp_both x y))"
    by (simp add: compose_collapses_enc cp_both_def)
qed (use assms in \<open>auto simp: cp_left_def push_b_only_enc\<close>)

section \<open>Composition\<close>

lemma emit_src_enc:
  assumes "\<And>x y o1. s = Both x y \<Longrightarrow> compose_go fuel (enc_node x) (enc_node y) o1 = Inr (o1 @ enc_node (compose_node x y), [], [])"
  shows "(case map_src enc_node s of
      CopyA v \<Rightarrow> Inr (o1 @ v) | CopyB v \<Rightarrow> Inr (o1 @ v) | Owned v \<Rightarrow> Inr (o1 @ v)
    | Both asub bsub \<Rightarrow> res_bind (compose_go fuel asub bsub o1) (\<lambda>(o2, _, _). Inr o2)) = Inr (o1 @ enc_node (src_node s))"
  using assms by (cases s) simp_all

lemma cp_merge_Both: "(k, Both x y) \<in> set (cp_merge q as bs) \<Longrightarrow> bt_wf as \<Longrightarrow> bt_wf bs \<Longrightarrow> (k, x) \<in> set as \<and> (k, y) \<in> set bs"
proof -
  assume "(k, Both x y) \<in> set (cp_merge q as bs)" and wf: "bt_wf as" "bt_wf bs"
  then have "bt_get (cp_merge q as bs) k = Some (Both x y)" by (intro bt_in_get merge_spec_wf)
  then show ?thesis using bt_get_Some_in [of as k] bt_get_Some_in [of bs k]
    by (auto simp: merge_spec_get [OF wf] cp_left_def cp_right_def cp_both_def split: option.splits if_splits)
qed

lemma compose_go_enc:
  "clean a \<Longrightarrow> clean b \<Longrightarrow> length (enc_node a) \<le> fuel \<Longrightarrow>
    compose_go fuel (enc_node a @ ra) (enc_node b @ rb) out = Inr (out @ enc_node (compose_node a b), ra, rb)"
proof (induction a arbitrary: b fuel out ra rb rule: node_induct)
  case (Node pres blob opaq attrs anchor kids)
  let ?a = "Node pres blob opaq attrs anchor kids"
  obtain f where f: "fuel = Suc f" using Node.prems(3) by (cases fuel) (auto simp: enc_node_eq split: if_splits)
  show ?case
  proof (cases b rule: live_cases)
    case dead
    then have "b = tombstone" using clean_dead [OF Node.prems(2)] by simp
    then show ?thesis by (simp add: f read_head_dead skip_node_enc [OF Node.prems(1)] compose_node_eq)
  next
    case b: (live bblob bopaq battrs banchor bkids)
    note cb = Node.prems(2) [unfolded b]
    have skip: "skip_children (of_nat (length bkids)) (enc_kids bkids @ rb) = Inr rb"
      using clean_kids [OF cb] by (intro skip_children_enc) blast+
    show ?thesis
    proof (cases banchor)
      case Backdrop
      then show ?thesis using read_head_live_clean [OF cb] skip skip_node_enc [OF Node.prems(1)]
        by (simp add: f b compose_node_eq)
    next
      case Lower
      note hb = read_head_live_clean [OF cb [unfolded Lower]]
      show ?thesis
      proof (cases pres)
        case Tombstone
        then have "?a = tombstone" using clean_dead [OF Node.prems(1)] by simp
        then show ?thesis using hb skip decode_sub_enc [OF cb]
          by (simp add: f b Lower read_head_dead compose_node_eq encode_node_eq)
      next
        case Live
        note ca = Node.prems(1) [unfolded Live]
        note step = read_head_live_clean [OF ca] hb collect_clean [OF ca] collect_clean [OF cb]
        let ?blob = "case bblob of Keep \<Rightarrow> blob | other \<Rightarrow> other"
        let ?attrs = "case battrs of Some m \<Rightarrow> Some m | None \<Rightarrow> attrs"
        note emit = emit_node [where out = out and blob = ?blob and anchor = anchor and attrs = ?attrs]
        show ?thesis
        proof (cases bopaq)
          case True
          have "harden_items (enc_list bkids) = Inr (enc_list (harden_children bkids))"
            using clean_kids(2) [OF cb] by (intro harden_items_enc) blast
          moreover have "emit_items (\<lambda>v o1. Inr (o1 @ v))
              (put_varint (emit_facets out ?blob True (anchor = Backdrop) (map_option attrs_block ?attrs))
                (of_nat (length (harden_children bkids)))) (enc_list (harden_children bkids))
              = Inr (out @ enc_node (compose_node ?a b))"
            using True Live
            by (subst emit [where val = "\<lambda>n. n"])
              (simp_all add: b Lower compose_node_eq compose_kids_def split: blob_op.split option.split)
          ultimately show ?thesis using True step
            by (cases bblob; cases battrs) (simp_all add: f b Lower Live)
        next
          case False
          let ?items = "cp_merge opaq kids bkids"
          have "compose_items opaq (enc_list kids) (enc_list bkids) = Inr (map (\<lambda>(k, s). (k, map_src enc_node s)) ?items)"
            using clean_kids(2) [OF ca] clean_kids(2) [OF cb] by (intro compose_items_enc) blast+
          moreover have kids: "compose_kids ?a b = map (\<lambda>(k, s). (k, src_node s)) ?items"
            using compose_kids_merge [of ?a b] clean_kids(3) [OF ca] clean_kids(3) [OF cb] False by (simp add: b)
          moreover have "compose_go f (enc_node x) (enc_node y) o1 = Inr (o1 @ enc_node (compose_node x y), [], [])"
            if "(k, Both x y) \<in> set ?items" for k x y o1
          proof -
            from cp_merge_Both [OF that] clean_kids(3) [OF ca] clean_kids(3) [OF cb]
            have xy: "(k, x) \<in> set kids" "(k, y) \<in> set bkids" by blast+
            then have "length (enc_node x) \<le> f"
              using Node.prems(3) Live enc_kids_length [OF xy(1)] by (simp add: f enc_node_eq)
            with Node.IH [OF xy(1), of y f "[]" "[]" o1] clean_kids(2) [OF ca xy(1)] clean_kids(2) [OF cb xy(2)]
            show ?thesis by simp
          qed
          then have "emit_items (\<lambda>src o1. case src of CopyA s \<Rightarrow> Inr (o1 @ s) | CopyB s \<Rightarrow> Inr (o1 @ s) | Owned v \<Rightarrow> Inr (o1 @ v)
                | Both asub bsub \<Rightarrow> res_bind (compose_go f asub bsub o1) (\<lambda>(o2, _, _). Inr o2))
              (put_varint (emit_facets out ?blob opaq (anchor = Backdrop) (map_option attrs_block ?attrs))
                (of_nat (length ?items))) (map (\<lambda>(k, s). (k, map_src enc_node s)) ?items)
              = Inr (out @ enc_node (compose_node ?a b))"
            using False Live kids
            by (subst emit [where val = src_node], intro emit_src_enc)
              (auto simp: b Lower compose_node_eq split: blob_op.split option.split)
          ultimately show ?thesis using False step
            by (cases bblob; cases battrs) (simp_all add: f b Lower Live)
        qed
      qed
    qed
  qed
qed

section \<open>Properties\<close>

text \<open>C7: streaming composition is composition. On the canonical encodings of two layers, with
  lengths that fit their prefixes, \<open>compose_stream\<close> appends to its output exactly the canonical
  encoding of the composed layer, byte for byte, and it does not fail.\<close>

theorem compose_stream_is_compose:
  assumes "clean (root a)" and "clean (root b)"
  shows "compose_stream (encode_layer a) (encode_layer b) out = Inr (out @ encode_layer (compose a b))"
  using compose_go_enc [OF assms, of "Suc (length (enc_node (root a)))" "[]" "[]" out]
  by (simp add: compose_stream_def encode_layer_def compose_def enc_node_def)

theorem compose_stream_is_compose_witness:
  "let a = \<lparr>root = Node Live Keep False None Lower [([97], Node Live (Set [1]) False None Lower []), ([98], tombstone)]\<rparr>;
       b = \<lparr>root = Node Live Keep False None Lower [([97], tombstone), ([98], Node Live (Set [2]) False None Lower [])]\<rparr>
   in compose_stream (encode_layer a) (encode_layer b) [] = Inr (encode_layer (compose a b))
     \<and> encode_layer (compose a b) \<noteq> encode_layer b"
proof -
  let ?a = "\<lparr>root = Node Live Keep False None Lower [([97], Node Live (Set [1]) False None Lower []), ([98], tombstone)]\<rparr>"
  let ?b = "\<lparr>root = Node Live Keep False None Lower [([97], tombstone), ([98], Node Live (Set [2]) False None Lower [])]\<rparr>"
  have "clean (root ?a)" "clean (root ?b)" by (simp_all add: clean_Live list_less_def)
  moreover have "encode_layer (compose ?a ?b) \<noteq> encode_layer ?b" by code_simp
  ultimately show ?thesis using compose_stream_is_compose [of ?a ?b "[]"] by (simp only: Let_def append_Nil simp_thms True_implies_equals)
qed

end
