(* ===== verification/Stream_State.thy ===== *)
theory Stream_State
  imports Stream_Compose
begin

text \<open>
  Full states on the wire: the record of a view against nothing (\<open>pos\<close>), the streaming difference of
  two of them, and the overlay of a delta on one. \<open>over\<close> is the specification of the overlay, the
  view the composed layer presents over nothing.
\<close>

declare diff_node.simps [simp del]

section \<open>Full states\<close>

fun pos :: "view \<Rightarrow> node" where
  "pos (View blob attrs kids) =
     Node Live (case blob of None \<Rightarrow> Keep | Some bs \<Rightarrow> Set bs) False
       (if attrs \<noteq> [] then Some attrs else if blob = None \<and> kids = [] then Some [] else None) Lower
       (map (\<lambda>(k, c). (k, pos c)) kids)"

lemma pos_Live [simp]: "npresence (pos v) = Live" "nanchor (pos v) = Lower" "\<not> nopaque (pos v)"
  by (cases v; simp)+

lemma pos_not_keep: "\<not> is_identity (pos v)"
  by (cases v) (auto simp: is_identity_def split: option.splits)

lemma diff_None: "view_wf v \<Longrightarrow> diff_node same None v = pos v"
proof (induction v rule: view_induct)
  case (View blob attrs kids)
  note wf = View.prems [unfolded view_wf_View]
  have "bt_get (diff_kids same None kids) k = bt_get (map (\<lambda>(k, c). (k, pos c)) kids) k" for k
  proof (cases "bt_get kids k")
    case (Some c)
    have "view_wf c" using wf Some by (metis option.pred_inject(2))
    with View.IH [OF bt_get_Some_in [OF Some]] Some wf show ?thesis
      by (simp add: diff_kids_get base_kid_def skipped_def pos_not_keep)
  qed (use wf in \<open>simp add: diff_kids_get base_kid_def\<close>)
  then have "diff_kids same None kids = map (\<lambda>(k, c). (k, pos c)) kids"
    using wf by (intro bt_ext diff_kids_wf) simp_all
  then show ?case
    by (auto simp: diff_node_eq Let_def diff_blob_def diff_attrs_def is_empty_view_def asserts_self_def
        split: option.splits)
qed

lemma apply_pos: "view_wf v \<Longrightarrow> apply_node None (pos v) = Some v"
  using diff_apply [of "\<lambda>_ _. False" v None] diff_None [of v] by simp

lemma pos_inj: "view_wf u \<Longrightarrow> view_wf v \<Longrightarrow> pos u = pos v \<longleftrightarrow> u = v"
  by (metis apply_pos option.inject)

text \<open>What a difference or an overlay reads of a full state.\<close>

lemma attrs_block_empty [simp]: "attrs_block [] = [0]"
  by (simp add: attrs_block_def enc_attrs_def varint.simps)

lemma rd_attrs_block:
  "bt_wf m \<Longrightarrow> attrs_sized m \<Longrightarrow> rd_attrs_opt FLAG_ATTRS (attrs_block m) = Inr (Some m, [])"
proof -
  assume "bt_wf m" "attrs_sized m"
  then have "rd_attrs (length m) None [] (enc_attrs m) = Inr (m, [])"
    using rd_attrs_enc [of "[]" m "[]"] by (simp add: attrs_sized_def prev_of_def)
  moreover have "unat (of_nat (length m) :: u64) = length m" using \<open>attrs_sized m\<close> by (simp add: attrs_sized_def unat_of_nat)
  ultimately show ?thesis
    by (simp add: rd_attrs_opt_def attrs_block_def rd_varint_varint flag_defs)
qed

lemma attrs_block_inj:
  "bt_wf m \<Longrightarrow> attrs_sized m \<Longrightarrow> bt_wf m' \<Longrightarrow> attrs_sized m' \<Longrightarrow> attrs_block m = attrs_block m' \<longleftrightarrow> m = m'"
  by (metis Pair_inject option.inject rd_attrs_block sum.inject(2))

definition raw_attrs :: "attrs \<Rightarrow> bytes option" where
  "raw_attrs m = (if m = [] then None else Some (attrs_block m))"

lemma attrs_sized_Nil [simp]: "attrs_sized []"
  by (simp add: attrs_sized_def)

lemma norm_attrs_block: "bt_wf m \<Longrightarrow> attrs_sized m \<Longrightarrow> norm_attrs (Some (attrs_block m)) = raw_attrs m"
  using attrs_block_inj [of m "[]"] by (simp add: norm_attrs_def raw_attrs_def)

lemma raw_attrs_inj:
  "bt_wf m \<Longrightarrow> attrs_sized m \<Longrightarrow> bt_wf m' \<Longrightarrow> attrs_sized m' \<Longrightarrow> raw_attrs m = raw_attrs m' \<longleftrightarrow> m = m'"
  by (simp add: raw_attrs_def attrs_block_inj)

lemma raw_attrs_None [simp]: "raw_attrs m = None \<longleftrightarrow> m = []"
  by (simp add: raw_attrs_def)

lemma clean_pos_View:
  assumes "view_wf (View blob attrs kids)" and "clean (pos (View blob attrs kids))"
  shows "bt_wf attrs" and "attrs_sized attrs" and "bt_wf kids" and "length kids < 2 ^ 58"
    and "\<And>k c. (k, c) \<in> set kids \<Longrightarrow> view_wf c \<and> clean (pos c) \<and> length k < 2 ^ 64"
  using assms by (auto simp: clean_Live list_all_iff split: if_splits)

text \<open>The head of a full state, and its child list.\<close>

lemma pos_head:
  assumes wf: "view_wf (View blob attrs kids)" and cl: "clean (pos (View blob attrs kids))"
  obtains h where "read_head (enc_node (pos (View blob attrs kids)) @ rest)
      = Inr (h, enc_kids (map (\<lambda>(k, c). (k, pos c)) kids) @ rest)"
    and "h_blob h = (case blob of None \<Rightarrow> Keep | Some bs \<Rightarrow> Set bs)"
    and "norm_attrs (h_attrs h) = raw_attrs attrs" and "h_count h = of_nat (length kids)"
    and "\<not> h_tombstone h" and "\<not> h_backdrop h"
proof
  let ?a = "if attrs \<noteq> [] then Some attrs else if blob = None \<and> kids = [] then Some [] else None"
  let ?h = "live_head (case blob of None \<Rightarrow> Keep | Some bs \<Rightarrow> Set bs) False ?a Lower (length kids)"
  show "read_head (enc_node (pos (View blob attrs kids)) @ rest)
      = Inr (?h, enc_kids (map (\<lambda>(k, c). (k, pos c)) kids) @ rest)"
    using read_head_live_clean [OF cl [unfolded pos.simps]] by simp
  show "norm_attrs (h_attrs ?h) = raw_attrs attrs"
    using norm_attrs_block [OF clean_pos_View(1,2) [OF wf cl]]
    by (cases "attrs = []") (simp_all add: norm_attrs_def raw_attrs_def)
qed simp_all

lemma pos_kids: "nchildren (pos (View blob attrs kids)) = map (\<lambda>(k, c). (k, pos c)) kids"
  by simp

lemma pos_collect:
  assumes "view_wf (View blob attrs kids)" and "clean (pos (View blob attrs kids))"
  shows "collect_children (of_nat (length kids)) (enc_kids (map (\<lambda>(k, c). (k, pos c)) kids) @ rest)
    = Inr (map (\<lambda>(k, c). (k, enc_node (pos c))) kids, rest)"
  using collect_clean [OF assms(2) [unfolded pos.simps], of rest] by (simp add: case_prod_beta comp_def)

section \<open>The streaming difference\<close>

text \<open>A delta whose deletions are marked by \<open>rm\<close>.\<close>

fun with_removal :: "node \<Rightarrow> node \<Rightarrow> node" where
  "with_removal rm (Node pres blob opaq attrs anchor kids) =
     (if pres = Tombstone then rm
      else Node Live blob opaq attrs anchor (map (\<lambda>(k, c). (k, with_removal rm c)) kids))"

lemma with_removal_pos: "with_removal rm (pos v) = pos v"
  by (induction v rule: view_induct) auto

lemma with_removal_tombstone [simp]: "with_removal rm tombstone = rm"
  by (simp add: tombstone_def)

lemma with_removal_canon: "with_removal tombstone n = canon n"
  by (induction n rule: node_induct) auto

definition df_both :: "view \<Rightarrow> view \<Rightarrow> view dsrc option" where
  "df_both u v = (if u \<noteq> v then Some (DBoth u v) else None)"

fun dsrc_node :: "node \<Rightarrow> view dsrc \<Rightarrow> node" where
  "dsrc_node rm DRemove = rm"
| "dsrc_node rm (DCopyB v) = pos v"
| "dsrc_node rm (DBoth u v) = with_removal rm (diff_node (\<lambda>_ _. False) (Some u) v)"

abbreviation df_merge :: "(name \<times> view) list \<Rightarrow> (name \<times> view) list \<Rightarrow> (name \<times> view dsrc) list" where
  "df_merge \<equiv> merge_spec (\<lambda>_. Some DRemove) (\<lambda>v. Some (DCopyB v)) df_both"

lemma diff_identity:
  "view_wf u \<Longrightarrow> view_wf v \<Longrightarrow> is_identity (diff_node (\<lambda>_ _. False) (Some u) v) \<longleftrightarrow> u = v"
  using diff_apply [of "\<lambda>_ _. False" v "Some u"] diff_self [of v]
  by (auto simp: is_identity_eq apply_keep)

lemma diff_node_facets:
  "npresence (diff_node same base (View tblob tattrs tkids)) = Live"
  "nopaque (diff_node same base (View tblob tattrs tkids)) = False"
  "nanchor (diff_node same base (View tblob tattrs tkids)) = Lower"
  "nblob (diff_node same base (View tblob tattrs tkids)) = diff_blob base tblob"
  "nchildren (diff_node same base (View tblob tattrs tkids)) = diff_kids same base tkids"
  "nattrs (diff_node same base (View tblob tattrs tkids)) \<in> {None, Some tattrs}"
  by (simp_all add: diff_node_eq Let_def diff_attrs_def split: option.splits)

lemma diff_node_wf: "view_wf v \<Longrightarrow> node_wf (diff_node same base v) \<and> anchor_free (diff_node same base v)"
proof (induction v arbitrary: base rule: view_induct)
  case (View tblob tattrs tkids)
  note wf = View.prems [unfolded view_wf_View]
  have "pred_option (\<lambda>n. node_wf n \<and> anchor_free n) (bt_get (diff_kids same base tkids) k)" for k
  proof (cases "bt_get tkids k")
    case (Some t)
    have "view_wf t" using wf Some by (metis option.pred_inject(2))
    with View.IH [OF bt_get_Some_in [OF Some]] wf Some show ?thesis by (simp add: diff_kids_get)
  qed (use wf in \<open>simp add: diff_kids_get, simp add: tombstone_def\<close>)
  then have "pred_option node_wf (bt_get (diff_kids same base tkids) k)"
      "pred_option anchor_free (bt_get (diff_kids same base tkids) k)" for k
    by (auto simp: option.pred_set)
  moreover have "pred_option bt_wf (nattrs (diff_node same base (View tblob tattrs tkids)))"
    using diff_node_facets(6) [of same base tblob tattrs tkids] wf by auto
  ultimately show ?case
    using diff_kids_wf [of same base tkids]
    by (simp add: node_wf_iff [of "diff_node _ _ _"] anchor_free_iff diff_node_facets)
qed

lemma diff_kids_merge:
  assumes "view_wf (View ublob uattrs ukids)" and "view_wf (View tblob tattrs tkids)"
  shows "map (\<lambda>(k, c). (k, with_removal rm c)) (diff_kids (\<lambda>_ _. False) (Some (View ublob uattrs ukids)) tkids)
    = map (\<lambda>(k, s). (k, dsrc_node rm s)) (df_merge ukids tkids)"
proof (rule bt_ext)
  note wf = assms [unfolded view_wf_View]
  have uw: "bt_wf ukids" and vw: "bt_wf tkids" using wf by blast+
  show "bt_wf (map (\<lambda>(k, c). (k, with_removal rm c)) (diff_kids (\<lambda>_ _. False) (Some (View ublob uattrs ukids)) tkids))"
    using diff_kids_wf by simp
  show "bt_wf (map (\<lambda>(k, s). (k, dsrc_node rm s)) (df_merge ukids tkids))"
    using merge_spec_wf [OF uw vw] by simp
  fix k
  have kid: "view_wf x" if "bt_get ukids k = Some x" for x using wf that by (metis option.pred_inject(2))
  have kid': "view_wf x" if "bt_get tkids k = Some x" for x using wf that by (metis option.pred_inject(2))
  show "bt_get (map (\<lambda>(k, c). (k, with_removal rm c)) (diff_kids (\<lambda>_ _. False) (Some (View ublob uattrs ukids)) tkids)) k
      = bt_get (map (\<lambda>(k, s). (k, dsrc_node rm s)) (df_merge ukids tkids)) k"
    using kid kid'
    by (cases "bt_get ukids k"; cases "bt_get tkids k")
      (simp_all add: diff_kids_get [OF vw] merge_spec_get [OF uw vw] base_kid_def skipped_def df_both_def
        diff_identity diff_None pos_not_keep with_removal_pos)
qed

lemma diff_items_enc:
  assumes "\<And>k c. (k, c) \<in> set us \<Longrightarrow> view_wf c \<and> clean (pos c)"
    and "\<And>k c. (k, c) \<in> set vs \<Longrightarrow> view_wf c \<and> clean (pos c)"
  shows "diff_items (map (\<lambda>(k, c). (k, enc_node (pos c))) us) (map (\<lambda>(k, c). (k, enc_node (pos c))) vs)
    = Inr (map (\<lambda>(k, s). (k, map_dsrc (\<lambda>c. enc_node (pos c)) s)) (df_merge us vs))"
  unfolding diff_items_def
proof (rule merge_walk_spec)
  fix k u v assume "(k, u) \<in> set us" "(k, v) \<in> set vs"
  with assms have "enc_node (pos u) = enc_node (pos v) \<longleftrightarrow> u = v" by (metis enc_node_inj pos_inj)
  then show "Inr (if enc_node (pos u) \<noteq> enc_node (pos v) then Some (DBoth (enc_node (pos u)) (enc_node (pos v))) else None)
      = Inr (map_option (map_dsrc (\<lambda>c. enc_node (pos c))) (df_both u v))"
    by (simp add: df_both_def)
qed simp_all

lemma df_merge_Both: "(k, DBoth x y) \<in> set (df_merge us vs) \<Longrightarrow> bt_wf us \<Longrightarrow> bt_wf vs \<Longrightarrow> (k, x) \<in> set us \<and> (k, y) \<in> set vs"
proof -
  assume "(k, DBoth x y) \<in> set (df_merge us vs)" and wf: "bt_wf us" "bt_wf vs"
  then have "bt_get (df_merge us vs) k = Some (DBoth x y)" by (intro bt_in_get merge_spec_wf)
  then show ?thesis using bt_get_Some_in [of us k] bt_get_Some_in [of vs k]
    by (auto simp: merge_spec_get [OF wf] df_both_def split: option.splits if_splits)
qed

text \<open>The attributes the streaming difference writes.\<close>

lemma stream_attrs_diff:
  assumes "bt_wf m" "attrs_sized m" "bt_wf m'" "attrs_sized m'"
  shows "dattrs_raw (stream_attrs (raw_attrs m) (raw_attrs m'))
      = map_option attrs_block (diff_attrs (Some (View b m kids)) m')"
    and "stream_attrs (raw_attrs m) (raw_attrs m') = DInherit \<longleftrightarrow> diff_attrs (Some (View b m kids)) m' = None"
  using raw_attrs_inj [OF assms]
  by (auto simp: stream_attrs_def dattrs_raw_def diff_attrs_def raw_attrs_def split: option.splits)

lemma diff_go_enc:
  assumes rm: "clean rm"
  shows "view_wf u \<Longrightarrow> view_wf v \<Longrightarrow> clean (pos u) \<Longrightarrow> clean (pos v) \<Longrightarrow> length (enc_node (pos u)) \<le> fuel \<Longrightarrow>
    diff_go fuel (enc_node (pos u)) (enc_node (pos v)) (enc_node rm) out
      = Inr (out @ enc_node (with_removal rm (diff_node (\<lambda>_ _. False) (Some u) v)))"
proof (induction u arbitrary: v fuel out rule: view_induct)
  case (View ublob uattrs ukids)
  let ?u = "View ublob uattrs ukids"
  obtain tblob tattrs tkids where v: "v = View tblob tattrs tkids" by (cases v)
  obtain f where f: "fuel = Suc f" using View.prems(5) by (cases fuel) (auto simp: enc_node_eq)
  note uw = View.prems(1) and vw = View.prems(2) [unfolded v] and uc = View.prems(3) and vc = View.prems(4) [unfolded v]
  note un = clean_pos_View [OF uw uc] and vn = clean_pos_View [OF vw vc]
  obtain uh where uh: "read_head (enc_node (pos ?u)) = Inr (uh, enc_kids (map (\<lambda>(k, c). (k, pos c)) ukids))"
    "h_blob uh = (case ublob of None \<Rightarrow> Keep | Some bs \<Rightarrow> Set bs)" "norm_attrs (h_attrs uh) = raw_attrs uattrs"
    "h_count uh = of_nat (length ukids)" using pos_head [OF uw uc, of "[]"] by (metis append_Nil2)
  obtain vh where vh: "read_head (enc_node (pos v)) = Inr (vh, enc_kids (map (\<lambda>(k, c). (k, pos c)) tkids))"
    "h_blob vh = (case tblob of None \<Rightarrow> Keep | Some bs \<Rightarrow> Set bs)" "norm_attrs (h_attrs vh) = raw_attrs tattrs"
    "h_count vh = of_nat (length tkids)" using pos_head [OF vw vc, of "[]"] unfolding v by (metis append_Nil2)
  have pay: "set_payload (case b of None \<Rightarrow> Keep | Some bs \<Rightarrow> Set bs) = b" for b
    by (cases b) (simp_all add: set_payload_def)
  have items: "diff_items (map (\<lambda>(k, c). (k, enc_node (pos c))) ukids) (map (\<lambda>(k, c). (k, enc_node (pos c))) tkids)
      = Inr (map (\<lambda>(k, s). (k, map_dsrc (\<lambda>c. enc_node (pos c)) s)) (df_merge ukids tkids))"
    by (rule diff_items_enc) (use un(5) vn(5) in blast)+
  let ?items = "df_merge ukids tkids"
  let ?E = "\<lambda>src o1. case src of DRemove \<Rightarrow> Inr (o1 @ enc_node rm) | DCopyB s \<Rightarrow> Inr (o1 @ s)
      | DBoth asub bsub \<Rightarrow> diff_go f asub bsub (enc_node rm) o1"
  let ?d = "diff_node (\<lambda>_ _. False) (Some ?u) v"
  have "diff_go f (enc_node (pos x)) (enc_node (pos y)) (enc_node rm) o1
      = Inr (o1 @ enc_node (with_removal rm (diff_node (\<lambda>_ _. False) (Some x) y)))"
    if "(k, DBoth x y) \<in> set ?items" for k x y o1
  proof -
    from df_merge_Both [OF that un(3) vn(3)] have xy: "(k, x) \<in> set ukids" "(k, y) \<in> set tkids" by blast+
    then have "(k, pos x) \<in> set (map (\<lambda>(k, c). (k, pos c)) ukids)" by force
    then have "length (enc_node (pos x)) \<le> f"
      using View.prems(5) enc_kids_length by (fastforce simp: f enc_node_eq)
    with un(5) [OF xy(1)] vn(5) [OF xy(2)] show ?thesis by (intro View.IH [OF xy(1)]) blast+
  qed
  then have ev: "?E (map_dsrc (\<lambda>c. enc_node (pos c)) s) o1 = Inr (o1 @ enc_node (dsrc_node rm s))"
    if "(k, s) \<in> set ?items" for k s o1 using that by (cases s) simp_all
  have kids: "nchildren (with_removal rm ?d) = map (\<lambda>(k, s). (k, dsrc_node rm s)) ?items"
    using diff_kids_merge [OF uw vw, of rm] by (simp add: v diff_node_eq Let_def)
  have facets: "npresence ?d = Live" "nopaque ?d = False" "nanchor ?d = Lower" "nblob ?d = diff_blob (Some ?u) tblob"
    by (simp_all add: v diff_node_eq Let_def)
  have attrs: "map_option attrs_block (nattrs ?d) =
      dattrs_raw (if (tblob = None \<and> tattrs = [] \<and> tkids = []) \<and> \<not> (diff_blob (Some ?u) tblob \<noteq> Keep
          \<or> stream_attrs (raw_attrs uattrs) (raw_attrs tattrs) \<noteq> DInherit)
          \<and> \<not> (ublob = None \<and> uattrs = [] \<and> ukids = [])
        then DEmpty else stream_attrs (raw_attrs uattrs) (raw_attrs tattrs))"
    using stream_attrs_diff [OF un(1,2) vn(1,2), of ublob ukids]
    by (auto simp: v diff_node_eq Let_def asserts_self_def empty_present_def is_empty_view_def dattrs_raw_def)
  have "with_removal rm ?d = Node Live (diff_blob (Some ?u) tblob) False (nattrs ?d) Lower
      (map (\<lambda>(k, s). (k, dsrc_node rm s)) ?items)"
    using kids facets by (cases ?d) simp
  moreover have "emit_items ?E (put_varint (emit_facets out (diff_blob (Some ?u) tblob) False (Lower = Backdrop)
        (map_option attrs_block (nattrs ?d))) (of_nat (length ?items)))
        (map (\<lambda>(k, s). (k, map_dsrc (\<lambda>c. enc_node (pos c)) s)) ?items)
      = Inr (out @ enc_node (Node Live (diff_blob (Some ?u) tblob) False (nattrs ?d) Lower
          (map (\<lambda>(k, s). (k, dsrc_node rm s)) ?items)))"
    by (rule emit_node) (rule ev)
  moreover have "stream_blob ublob tblob = diff_blob (Some ?u) tblob"
    by (simp add: stream_blob_def diff_blob_def)
  ultimately show ?case
    using pos_collect [OF uw uc, of "[]"] pos_collect [OF vw vc, of "[]"] items attrs
    by (simp add: f uh vh [unfolded v] pay v Let_def del: pos.simps not_None_eq cong: if_cong split del: if_split)
qed

section \<open>The overlay\<close>

definition over :: "view \<Rightarrow> node \<Rightarrow> view option" where
  "over u d = apply_node None (compose_node (pos u) d)"

lemma pon_enc:
  "clean d \<Longrightarrow> positive_over_nothing (enc_node d) = Inr (map_option (\<lambda>v. enc_node (pos v)) (apply_node None d))"
  using apply_node_wf [of d None]
  by (cases "apply_node None d")
    (simp_all add: positive_over_nothing_def decode_sub_clean apply_layer_def diff_def diff_None encode_node_eq clean_def)

definition ov_left :: "view \<Rightarrow> view osrc option" where
  "ov_left u = Some (CopyBase u)"

definition ov_right :: "node \<Rightarrow> view osrc option" where
  "ov_right d = map_option OOwned (apply_node None d)"

definition ov_both :: "view \<Rightarrow> node \<Rightarrow> view osrc option" where
  "ov_both u d = map_option OOwned (over u d)"

fun osrc_view :: "view osrc \<Rightarrow> view" where
  "osrc_view (CopyBase v) = v"
| "osrc_view (OOwned v) = v"

abbreviation ov_merge :: "(name \<times> view) list \<Rightarrow> (name \<times> node) list \<Rightarrow> (name \<times> view osrc) list" where
  "ov_merge \<equiv> merge_spec ov_left ov_right ov_both"

definition ov_items :: "bool \<Rightarrow> (name \<times> view) list \<Rightarrow> (name \<times> node) list \<Rightarrow> (name \<times> view osrc) list" where
  "ov_items opaq us ds = (if opaq then merge_spec ov_left ov_right ov_both [] ds else ov_merge us ds)"

lemma osrc_map: "map_option osrc_view (map_option OOwned x) = x"
  by (cases x) simp_all

text \<open>The children of the overlaid view.\<close>

lemma over_kids:
  assumes u: "view_wf (View ublob uattrs ukids)" and d: "node_wf d" "npresence d = Live"
  shows "eff_kids None (nopaque d) (compose_kids (pos (View ublob uattrs ukids)) d)
    = map (\<lambda>(k, s). (k, osrc_view s)) (ov_items (nopaque d) ukids (nchildren d))" (is "?l = ?r")
proof (rule bt_ext)
  note wf = u [unfolded view_wf_View]
  let ?p = "pos (View ublob uattrs ukids)"
  have uw: "bt_wf ukids" and dw: "bt_wf (nchildren d)" using wf d(1) by (simp_all add: node_wf_iff)
  have pw: "bt_wf (nchildren ?p)" using uw by simp
  note ck = compose_kids_wf [OF dw, of ?p]
  show "bt_wf ?l" by (rule eff_kids_wf) simp
  show "bt_wf ?r" using uw dw by (simp add: ov_items_def merge_spec_wf)
  fix k
  have kid: "apply_node None (pos x) = Some x" if "bt_get ukids k = Some x" for x
    using wf that apply_pos by (metis option.pred_inject(2))
  have hard: "apply_node None (harden c) = apply_node None c"
    and drop: "npresence (harden c) \<noteq> Live \<Longrightarrow> apply_node None c = None"
    if "bt_get (nchildren d) k = Some c" for c
    using apply_harden apply_None_iff node_wf_child [OF d(1) that] npresence_harden by (blast, blast)
  show "bt_get ?l k = bt_get ?r k"
  proof (cases "nopaque d")
    case True
    then show ?thesis using hard drop
      by (auto simp: eff_kids_get [OF ck] pos_kids ov_items_def merge_spec_get [OF bt_wf_Nil dw] ov_right_def osrc_map
          compose_kids_def harden_children_get [OF dw] eff_kids_get [OF harden_children_wf [OF dw]]
          simp del: not_Live pos.simps split: option.splits)
  next
    case False
    have "over x y = None" if "is_identity (compose_node (pos x) y)" for x y
      using that by (simp add: over_def is_identity_eq apply_keep)
    then show ?thesis using False kid
      by (cases "bt_get ukids k"; cases "bt_get (nchildren d) k")
        (auto simp: eff_kids_get [OF ck] compose_kids_get [OF pw dw False] pos_kids ov_items_def merge_spec_get [OF uw dw]
          ov_left_def ov_right_def ov_both_def osrc_map over_def is_identity_eq apply_keep simp del: pos.simps)
  qed
qed

definition over_blob :: "view \<Rightarrow> node \<Rightarrow> bytes option" where
  "over_blob u d = eff_blob (Some u) (nblob d)"

definition over_attrs :: "view \<Rightarrow> node \<Rightarrow> attrs" where
  "over_attrs u d = eff_attrs (Some u) (nattrs d)"

lemma over_eq:
  assumes u: "view_wf (View ublob uattrs ukids)" and d: "node_wf d" "npresence d = Live" "nanchor d = Lower"
  defines "v \<equiv> View ublob uattrs ukids"
  shows "over v d =
    (let items = ov_items (nopaque d) ukids (nchildren d) in
     if over_blob v d \<noteq> None \<or> over_attrs v d \<noteq> [] \<or> items \<noteq> [] \<or> asserts_self d \<or> is_empty_view v
     then Some (View (over_blob v d) (over_attrs v d) (map (\<lambda>(k, s). (k, osrc_view s)) items)) else None)"
proof -
  have kids: "eff_kids None (nopaque d) (compose_kids (pos v) d)
      = map (\<lambda>(k, s). (k, osrc_view s)) (ov_items (nopaque d) ukids (nchildren d))"
    unfolding v_def by (rule over_kids [OF u d(1,2)])
  have c: "compose_node (pos v) d = Node Live (case nblob d of Keep \<Rightarrow> nblob (pos v) | other \<Rightarrow> other) (nopaque d)
      (case nattrs d of Some m \<Rightarrow> Some m | None \<Rightarrow> nattrs (pos v)) Lower (compose_kids (pos v) d)"
    using d by (simp add: compose_node_eq)
  have b: "eff_blob None (case nblob d of Keep \<Rightarrow> nblob (pos v) | other \<Rightarrow> other) = over_blob v d"
    by (auto simp: over_blob_def eff_blob_def v_def split: blob_op.splits option.splits)
  have a: "eff_attrs None (case nattrs d of Some m \<Rightarrow> Some m | None \<Rightarrow> nattrs (pos v)) = over_attrs v d"
    by (auto simp: over_attrs_def eff_attrs_def v_def split: option.splits)
  have "asserts_self (Node Live (case nblob d of Keep \<Rightarrow> nblob (pos v) | other \<Rightarrow> other) (nopaque d)
      (case nattrs d of Some m \<Rightarrow> Some m | None \<Rightarrow> nattrs (pos v)) Lower (compose_kids (pos v) d))
    \<longleftrightarrow> asserts_self d \<or> is_empty_view v \<or> over_blob v d \<noteq> None \<and> nblob d = Keep \<or> over_attrs v d \<noteq> [] \<and> nattrs d = None"
    by (auto simp: asserts_self_def over_blob_def over_attrs_def eff_blob_def eff_attrs_def is_empty_view_def v_def
        split: blob_op.splits option.splits)
  then show ?thesis unfolding over_def c apply_node_eq b a kids Let_def by auto
qed

lemma is_tombstone_enc: "clean d \<Longrightarrow> is_tombstone (enc_node d) \<longleftrightarrow> npresence d = Tombstone"
  using enc_node_inj [of d tombstone] clean_dead [of d] by (auto simp: is_tombstone_def)

lemma is_backdrop_enc: "clean d \<Longrightarrow> is_backdrop (enc_node d) \<longleftrightarrow> npresence d = Live \<and> nanchor d = Backdrop"
proof (cases d rule: live_cases)
  case dead
  moreover assume "clean d"
  ultimately show ?thesis using clean_dead [of d] by (simp add: is_backdrop_def flag_defs)
next
  case live
  then show ?thesis by (simp add: is_backdrop_def enc_node_eq node_flags_read del: not_Backdrop)
qed

lemma over_dead: "npresence d = Tombstone \<Longrightarrow> over u d = None"
  by (simp add: over_def compose_node_eq tombstone_def apply_node_eq)

lemma over_backdrop: "npresence d = Live \<Longrightarrow> nanchor d = Backdrop \<Longrightarrow> over u d = apply_node None d"
  by (simp add: over_def compose_node_eq)

abbreviation enc_osrc :: "view osrc \<Rightarrow> bytes osrc" where
  "enc_osrc \<equiv> map_osrc (\<lambda>v. enc_node (pos v))"

lemma resolve_sub_enc: "clean d \<Longrightarrow> resolve_sub (enc_node d) = Inr (map_option enc_osrc (ov_right d))"
  by (cases "apply_node None d") (simp_all add: resolve_sub_def pon_enc ov_right_def)

lemma resolve_items_enc:
  "(\<And>k c. (k, c) \<in> set ds \<Longrightarrow> clean c) \<Longrightarrow>
    resolve_items (enc_list ds) = Inr (map (\<lambda>(k, s). (k, enc_osrc s)) (ov_merge [] ds))"
proof (induction ds)
  case (Cons x ds)
  obtain k c where x: "x = (k, c)" by fastforce
  have "resolve_items (enc_list ds) = Inr (map (\<lambda>(k, s). (k, enc_osrc s)) (ov_merge [] ds))"
    using Cons.prems by (intro Cons.IH) auto
  then show ?case using Cons.prems [of k c]
    by (simp add: x resolve_sub_enc push_item_map)
qed simp

lemma overlay_items_enc:
  assumes "\<And>k c. (k, c) \<in> set ds \<Longrightarrow> clean c"
    and "\<And>k x y. (k, x) \<in> set us \<Longrightarrow> (k, y) \<in> set ds \<Longrightarrow> npresence y = Live \<Longrightarrow>
      overlay_go fuel (enc_node (pos x)) (enc_node y) []
        = Inr (case over x y of None \<Rightarrow> (False, []) | Some v \<Rightarrow> (True, enc_node (pos v)))"
  shows "merge_walk (\<lambda>bsub. Inr (Some (CopyBase bsub)))
      resolve_sub (overlay_arm (overlay_go fuel))
      (map (\<lambda>(k, c). (k, enc_node (pos c))) us) (enc_list ds)
    = Inr (map (\<lambda>(k, s). (k, enc_osrc s)) (ov_merge us ds))"
proof (rule merge_walk_spec)
  fix k y assume "(k, y) \<in> set ds"
  then show "resolve_sub (enc_node y) = Inr (map_option enc_osrc (ov_right y))"
    using assms(1) by (intro resolve_sub_enc)
next
  fix k x y assume x: "(k, x) \<in> set us" and y: "(k, y) \<in> set ds"
  note cy = assms(1) [OF y]
  consider "npresence y = Tombstone" | "npresence y = Live" "nanchor y = Backdrop" | "npresence y = Live" "nanchor y = Lower"
    using not_Backdrop not_Live by blast
  then show "overlay_arm (overlay_go fuel) (enc_node (pos x)) (enc_node y) = Inr (map_option enc_osrc (ov_both x y))"
  proof cases
    case 2
    then show ?thesis using cy
      by (cases "apply_node None y") (simp_all add: overlay_arm_def is_backdrop_enc resolve_sub_enc ov_right_def ov_both_def over_backdrop)
  next
    case 3
    with assms(2) [OF x y] cy show ?thesis
      by (cases "over x y") (simp_all add: overlay_arm_def is_backdrop_enc is_tombstone_enc ov_both_def)
  qed (use cy in \<open>simp add: overlay_arm_def is_backdrop_enc is_tombstone_enc ov_both_def over_dead\<close>)
qed (simp add: ov_left_def)

text \<open>One overlaid node, written in positive form.\<close>

lemma emit_positive_enc:
  "emit_positive out blob (raw_attrs attrs) (map (\<lambda>(k, s). (k, enc_osrc s)) items)
    = Inr (out @ enc_node (pos (View blob attrs (map (\<lambda>(k, s). (k, osrc_view s)) items))))"
proof -
  let ?a = "if attrs \<noteq> [] then Some attrs else if blob = None \<and> items = [] then Some [] else None"
  let ?E = "\<lambda>src o1. case src of CopyBase s \<Rightarrow> Inr (o1 @ s) | OOwned v \<Rightarrow> Inr (o1 @ v)"
  have "(case raw_attrs attrs of Some raw \<Rightarrow> Some raw
      | None \<Rightarrow> if blob = None \<and> raw_attrs attrs = None \<and> items = [] then Some [0] else None)
    = map_option attrs_block ?a" by (simp add: raw_attrs_def)
  moreover have "emit_items ?E
      (put_varint (emit_facets out (case blob of Some x \<Rightarrow> Set x | None \<Rightarrow> Keep) False (Lower = Backdrop) (map_option attrs_block ?a))
        (of_nat (length items))) (map (\<lambda>(k, s). (k, enc_osrc s)) items)
    = Inr (out @ enc_node (Node Live (case blob of Some x \<Rightarrow> Set x | None \<Rightarrow> Keep) False ?a Lower
        (map (\<lambda>(k, s). (k, pos (osrc_view s))) items)))"
  proof (rule emit_node)
    show "?E (enc_osrc s) o1 = Inr (o1 @ enc_node (pos (osrc_view s)))" for s o1
      by (cases s) simp_all
  qed
  moreover have "map (\<lambda>(k, c). (k, pos c)) (map (\<lambda>(k, s). (k, osrc_view s)) items) = map (\<lambda>(k, s). (k, pos (osrc_view s))) items"
    by auto
  then have "pos (View blob attrs (map (\<lambda>(k, s). (k, osrc_view s)) items))
      = Node Live (case blob of Some x \<Rightarrow> Set x | None \<Rightarrow> Keep) False ?a Lower
        (map (\<lambda>(k, s). (k, pos (osrc_view s))) items)" by simp
  ultimately show ?thesis by (simp only: emit_positive_def Let_def anchor.distinct map_is_Nil_conv length_map)
qed

lemma overlay_go_enc:
  "view_wf u \<Longrightarrow> clean (pos u) \<Longrightarrow> clean d \<Longrightarrow> npresence d = Live \<Longrightarrow> length (enc_node (pos u)) \<le> fuel \<Longrightarrow>
    overlay_go fuel (enc_node (pos u)) (enc_node d) out
      = Inr (case over u d of None \<Rightarrow> (False, out) | Some v \<Rightarrow> (True, out @ enc_node (pos v)))"
proof (induction u arbitrary: d fuel out rule: view_induct)
  case (View ublob uattrs ukids)
  let ?u = "View ublob uattrs ukids"
  obtain dblob dopaq dattrs danchor dkids where d: "d = Node Live dblob dopaq dattrs danchor dkids"
    using View.prems(4) by (cases d) auto
  obtain f where f: "fuel = Suc f" using View.prems(5) by (cases fuel) (auto simp: enc_node_eq)
  note uw = View.prems(1) and uc = View.prems(2) and dc = View.prems(3) [unfolded d]
  note un = clean_pos_View [OF uw uc] and dn = clean_kids [OF dc]
  obtain uh where uh: "read_head (enc_node (pos ?u)) = Inr (uh, enc_kids (map (\<lambda>(k, c). (k, pos c)) ukids))"
    "h_blob uh = (case ublob of None \<Rightarrow> Keep | Some bs \<Rightarrow> Set bs)" "norm_attrs (h_attrs uh) = raw_attrs uattrs"
    "h_count uh = of_nat (length ukids)" using pos_head [OF uw uc, of "[]"] by (metis append_Nil2)
  note dh = read_head_live_clean [OF dc, of "[]", simplified]
  show ?case
  proof (cases danchor)
    case Backdrop
    have "skip_children (of_nat (length ukids)) (enc_kids (map (\<lambda>(k, c). (k, pos c)) ukids)) = Inr []"
      using skip_children_enc [of "map (\<lambda>(k, c). (k, pos c)) ukids" "[]", OF _ clean_kids(2) [OF uc [unfolded pos.simps]]] un(4)
      by simp
    moreover have "skip_children (of_nat (length dkids)) (enc_kids dkids) = Inr []"
      using skip_children_enc [of dkids "[]"] dn by simp
    ultimately show ?thesis using uh dh pon_enc [OF dc] over_backdrop [of d ?u]
      by (cases "apply_node None d") (simp_all add: f d Backdrop consumed_def del: pos.simps)
  next
    case Lower
    let ?items = "ov_items dopaq ukids dkids"
    have "overlay_go f (enc_node (pos x)) (enc_node y) []
        = Inr (case over x y of None \<Rightarrow> (False, []) | Some v \<Rightarrow> (True, enc_node (pos v)))"
      if x: "(k, x) \<in> set ukids" and y: "(k, y) \<in> set dkids" and "npresence y = Live" for k x y
    proof -
      have "(k, pos x) \<in> set (map (\<lambda>(k, c). (k, pos c)) ukids)" using x by force
      then have "length (enc_node (pos x)) \<le> f"
        using View.prems(5) enc_kids_length by (fastforce simp: f enc_node_eq)
      with un(5) [OF x] dn(2) [OF y] that(3) View.IH [OF x, of y f "[]"] show ?thesis by (simp split: option.splits)
    qed
    with dn(2) have items: "(if dopaq then resolve_items (enc_list dkids)
        else merge_walk (\<lambda>bsub. Inr (Some (CopyBase bsub))) resolve_sub (overlay_arm (overlay_go f))
          (map (\<lambda>(k, c). (k, enc_node (pos c))) ukids) (enc_list dkids))
      = Inr (map (\<lambda>(k, s). (k, enc_osrc s)) ?items)"
      using resolve_items_enc [of dkids] overlay_items_enc [of dkids ukids f] by (simp add: ov_items_def)
    have blob: "overlay_blob dblob ublob = over_blob ?u d"
      by (simp add: overlay_blob_def over_blob_def eff_blob_def d split: blob_op.splits)
    have attrs: "overlay_attrs (map_option attrs_block dattrs) (raw_attrs uattrs) = raw_attrs (over_attrs ?u d)"
      using dc norm_attrs_block
      by (auto simp: overlay_attrs_def over_attrs_def eff_attrs_def d clean_Live split: option.splits)
    have pay: "set_payload (case ublob of None \<Rightarrow> Keep | Some bs \<Rightarrow> Set bs) = ublob"
      by (cases ublob) (simp_all add: set_payload_def)
    have zero: "of_nat (length ukids) = (0 :: u64) \<longleftrightarrow> ukids = []"
      by (simp only: unsigned_eq_0_iff [symmetric, where ?'a = nat] small_count [OF un(4)] length_0_conv)
    have asserts: "dblob \<noteq> Keep \<or> map_option attrs_block dattrs \<noteq> None \<or> dopaq \<longleftrightarrow> asserts_self d"
      by (simp add: asserts_self_def d)
    have "overlay_go (Suc f) (enc_node (pos ?u)) (enc_node d) out =
        (if \<not> (over_blob ?u d \<noteq> None \<or> raw_attrs (over_attrs ?u d) \<noteq> None \<or> map (\<lambda>(k, s). (k, enc_osrc s)) ?items \<noteq> []
           \<or> (dblob \<noteq> Keep \<or> map_option attrs_block dattrs \<noteq> None \<or> dopaq) \<or> is_empty_view ?u)
         then Inr (False, out)
         else res_bind (emit_positive out (over_blob ?u d) (raw_attrs (over_attrs ?u d)) (map (\<lambda>(k, s). (k, enc_osrc s)) ?items))
           (\<lambda>out'. Inr (True, out')))"
      using pos_collect [OF uw uc, of "[]"] collect_clean [OF dc, of "[]"] items
      by (simp add: uh dh [folded d] Lower blob attrs pay zero is_empty_view_def Let_def del: pos.simps not_None_eq
          cong: if_cong split del: if_split) (rule if_cong; blast)
    note go = this [unfolded asserts raw_attrs_None map_is_Nil_conv emit_positive_enc res_bind_Inr]
    have sels: "nopaque d = dopaq" "nchildren d = dkids" "nanchor d = Lower" by (simp_all add: d Lower)
    have "node_wf d" using View.prems(3) by (simp add: clean_def)
    note eq = over_eq [OF uw this View.prems(4) sels(3), unfolded sels Let_def]
    show ?thesis unfolding f go eq by (simp only: split: if_split option.split) simp
  qed
qed

declare diff_go.simps overlay_go.simps [simp del]

section \<open>Overlaying a difference\<close>

definition removal :: "node \<Rightarrow> bool" where
  "removal rm \<longleftrightarrow> rm = tombstone \<or> rm = hole"

lemma removal_gone: "removal rm \<Longrightarrow> apply_node None rm = None \<and> over u rm = None"
proof -
  have "apply_node None hole = None" by code_simp
  moreover have "over u hole = apply_node None hole" by (rule over_backdrop) (simp_all add: hole_def)
  ultimately show "removal rm \<Longrightarrow> ?thesis"
    by (auto simp: removal_def over_dead) (simp add: tombstone_def apply_node_eq)
qed

lemma removal_clean: "removal rm \<Longrightarrow> clean rm \<and> width_below (2 ^ 57) rm"
  by (auto simp: removal_def hole_def clean_Live) (simp add: tombstone_def)

lemma with_removal_wf: "removal rm \<Longrightarrow> node_wf n \<Longrightarrow> node_wf (with_removal rm n)"
proof (induction n rule: node_induct)
  case (Node pres blob opaq attrs anchor kids)
  note wf = Node.prems(2) [unfolded node_wf_Node]
  have "node_wf (with_removal rm c)" if "bt_get kids k = Some c" for k c
    using Node.IH [OF bt_get_Some_in [OF that] Node.prems(1)] wf that by (metis option.pred_inject(2))
  then have "pred_option node_wf (map_option (with_removal rm) (bt_get kids k))" for k
    by (cases "bt_get kids k") auto
  with Node.prems show ?case
    using removal_clean [OF Node.prems(1)] by (auto simp: node_wf_Node clean_def)
qed

lemma apply_removal: "removal rm \<Longrightarrow> node_wf n \<Longrightarrow> apply_node None (with_removal rm n) = apply_node None n"
proof (induction n rule: node_induct)
  case (Node pres blob opaq attrs anchor kids)
  note wf = Node.prems(2) [unfolded node_wf_Node]
  show ?case
  proof (cases pres)
    case Tombstone
    then show ?thesis using removal_gone [OF Node.prems(1)] by (simp add: apply_node_eq)
  next
    case Live
    have "eff_kids None opaq (map (\<lambda>(k, c). (k, with_removal rm c)) kids) = eff_kids None opaq kids"
    proof (rule bt_ext)
      fix k
      show "bt_get (eff_kids None opaq (map (\<lambda>(k, c). (k, with_removal rm c)) kids)) k = bt_get (eff_kids None opaq kids) k"
        using Node.IH [OF bt_get_Some_in] Node.prems(1) wf
        by (cases "bt_get kids k") (simp_all add: eff_kids_get option.pred_set)
    qed (simp_all add: eff_kids_wf)
    then show ?thesis using Live by (auto simp: apply_node_eq asserts_self_def)
  qed
qed

lemma over_removal:
  "removal rm \<Longrightarrow> view_wf u \<Longrightarrow> node_wf d \<Longrightarrow> anchor_free d \<Longrightarrow> npresence d = Live \<Longrightarrow>
    over u (with_removal rm d) = apply_node (Some u) d"
proof (induction d arbitrary: u rule: node_induct)
  case (Node pres blob opaq attrs anchor kids)
  let ?d = "Node pres blob opaq attrs anchor kids"
  let ?d' = "with_removal rm ?d"
  obtain ublob uattrs ukids where u: "u = View ublob uattrs ukids" by (cases u)
  note wf = Node.prems(3) [unfolded node_wf_Node] and uw = Node.prems(2) [unfolded u view_wf_View]
  have live: "pres = Live" and low: "anchor = Lower" using Node.prems(4,5) by auto
  have wf': "node_wf ?d'" by (rule with_removal_wf) fact+
  have kw: "bt_wf (map (\<lambda>(k, c). (k, with_removal rm c)) kids)" using wf by simp
  have kids: "map (\<lambda>(k, s). (k, osrc_view s)) (ov_items opaq ukids (map (\<lambda>(k, c). (k, with_removal rm c)) kids))
      = eff_kids (Some u) opaq kids"
  proof (rule bt_ext)
    show "bt_wf (map (\<lambda>(k, s). (k, osrc_view s)) (ov_items opaq ukids (map (\<lambda>(k, c). (k, with_removal rm c)) kids)))"
      using uw wf by (simp add: ov_items_def merge_spec_wf)
    show "bt_wf (eff_kids (Some u) opaq kids)" by (rule eff_kids_wf) (simp add: Node.prems(2))
    fix k
    have x: "over x (with_removal rm c) = apply_node (Some x) c"
      if c: "bt_get kids k = Some c" and x: "bt_get ukids k = Some x" for c x
    proof (cases "npresence c = Live")
      case True
      have "view_wf x" "node_wf c" using uw wf c x by (metis option.pred_inject(2))+
      moreover have "anchor_free c" using anchor_free_child [OF Node.prems(4,5)] c by simp
      ultimately show ?thesis using Node.IH [OF bt_get_Some_in [OF c] Node.prems(1)] True by blast
    next
      case False
      then show ?thesis using removal_gone [OF Node.prems(1)] by (cases c) (simp add: apply_node_eq)
    qed
    have c: "apply_node None (with_removal rm c) = apply_node None c" if "bt_get kids k = Some c" for c
      using apply_removal [OF Node.prems(1)] wf that by (metis option.pred_inject(2))
    show "bt_get (map (\<lambda>(k, s). (k, osrc_view s)) (ov_items opaq ukids (map (\<lambda>(k, c). (k, with_removal rm c)) kids))) k
        = bt_get (eff_kids (Some u) opaq kids) k"
      using x c uw wf
      by (cases "bt_get kids k"; cases "bt_get ukids k")
        (simp_all add: ov_items_def merge_spec_get eff_kids_get lower_kids_def u ov_left_def ov_right_def ov_both_def osrc_map)
  qed
  have "over u ?d' = (let items = ov_items (nopaque ?d') ukids (nchildren ?d') in
     if over_blob u ?d' \<noteq> None \<or> over_attrs u ?d' \<noteq> [] \<or> items \<noteq> [] \<or> asserts_self ?d' \<or> is_empty_view u
     then Some (View (over_blob u ?d') (over_attrs u ?d') (map (\<lambda>(k, s). (k, osrc_view s)) items)) else None)"
    unfolding u by (rule over_eq) (use Node.prems(2) u wf' live low in simp_all)
  moreover have "ov_items opaq ukids (map (\<lambda>(k, c). (k, with_removal rm c)) kids) = [] \<longleftrightarrow> eff_kids (Some u) opaq kids = []"
    using kids by (metis map_is_Nil_conv)
  ultimately show ?case
    using kids live by (auto simp: Let_def apply_node_eq over_blob_def over_attrs_def asserts_self_def empty_present_def)
qed

lemma push_item_length: "length (push_item k i r) \<le> Suc (length r)"
  by (cases i) (simp_all add: push_item_def)

lemma merge_spec_length: "length (merge_spec f g h as bs) \<le> length as + length bs"
proof (induction f g h as bs rule: merge_spec.induct)
  case (2 f g h an x as)
  then show ?case using push_item_length [of an "f x" "merge_spec f g h as []"] by simp
next
  case (3 f g h bn y bs)
  then show ?case using push_item_length [of bn "g y" "merge_spec f g h [] bs"] by simp
next
  case (4 f g h an x as bn y bs)
  then show ?case using push_item_length [of an "f x" "merge_spec f g h as ((bn, y) # bs)"]
      push_item_length [of bn "g y" "merge_spec f g h ((an, x) # as) bs"]
      push_item_length [of an "h x y" "merge_spec f g h as bs"]
    by (cases "an < bn"; cases "bn < an") simp_all
qed simp

lemma df_merge_item:
  assumes "(k, s) \<in> set (df_merge us vs)" and "bt_wf us" and "bt_wf vs"
  shows "s = DRemove \<and> k \<in> fst ` set us \<or> (\<exists>v. s = DCopyB v \<and> (k, v) \<in> set vs)
    \<or> (\<exists>u v. s = DBoth u v \<and> (k, u) \<in> set us \<and> (k, v) \<in> set vs)"
proof -
  from assms have "bt_get (df_merge us vs) k = Some s" by (intro bt_in_get merge_spec_wf)
  then show ?thesis using bt_get_Some_in [of us k] bt_get_Some_in [of vs k]
    by (force simp: merge_spec_get [OF assms(2,3)] df_both_def split: option.splits if_splits)
qed

text \<open>The delta between two full states of at most half the width is itself accepted.\<close>

lemma clean_diff:
  assumes rm: "clean rm"
  shows "view_wf u \<Longrightarrow> view_wf v \<Longrightarrow> clean (pos u) \<Longrightarrow> clean (pos v) \<Longrightarrow>
    width_below (2 ^ 57) (pos u) \<Longrightarrow> width_below (2 ^ 57) (pos v) \<Longrightarrow>
    clean (with_removal rm (diff_node (\<lambda>_ _. False) (Some u) v))"
proof (induction u arbitrary: v rule: view_induct)
  case (View ublob uattrs ukids)
  let ?u = "View ublob uattrs ukids"
  obtain tblob tattrs tkids where v: "v = View tblob tattrs tkids" by (cases v)
  note uw = View.prems(1) and vw = View.prems(2) [unfolded v]
  note un = clean_pos_View [OF uw View.prems(3)] and vn = clean_pos_View [OF vw View.prems(4) [unfolded v]]
  have w: "length ukids < 2 ^ 57" "length tkids < 2 ^ 57"
    "\<And>k x. (k, x) \<in> set ukids \<Longrightarrow> width_below (2 ^ 57) (pos x)"
    "\<And>k x. (k, x) \<in> set tkids \<Longrightarrow> width_below (2 ^ 57) (pos x)"
    using View.prems(5,6) by (auto simp: v list_all_iff)
  let ?items = "df_merge ukids tkids"
  obtain attrs where d: "with_removal rm (diff_node (\<lambda>_ _. False) (Some ?u) v)
      = Node Live (diff_blob (Some ?u) tblob) False attrs Lower (map (\<lambda>(k, s). (k, dsrc_node rm s)) ?items)"
    and a: "attrs = None \<or> attrs = Some tattrs"
  proof
    let ?d = "diff_node (\<lambda>_ _. False) (Some ?u) v"
    show "with_removal rm ?d = Node Live (diff_blob (Some ?u) tblob) False (nattrs ?d) Lower
        (map (\<lambda>(k, s). (k, dsrc_node rm s)) ?items)"
      using diff_kids_merge [OF uw vw, of rm] diff_node_facets [of "\<lambda>_ _. False" "Some ?u" tblob tattrs tkids] unfolding v
      by (cases "diff_node (\<lambda>_ _. False) (Some ?u) (View tblob tattrs tkids)") simp
    show "nattrs ?d = None \<or> nattrs ?d = Some tattrs"
      using diff_node_facets(6) [of "\<lambda>_ _. False" "Some ?u" tblob tattrs tkids] by (simp add: v)
  qed
  have "length k < 2 ^ 64 \<and> clean (dsrc_node rm s)" if ks: "(k, s) \<in> set ?items" for k s
    using df_merge_item [OF ks un(3) vn(3)]
  proof (elim disjE exE conjE)
    assume "s = DRemove" "k \<in> fst ` set ukids"
    then show ?thesis using rm un(5) by auto
  next
    fix y assume "s = DCopyB y" "(k, y) \<in> set tkids"
    then show ?thesis using vn(5) by simp
  next
    fix x y assume "s = DBoth x y" and xy: "(k, x) \<in> set ukids" "(k, y) \<in> set tkids"
    then show ?thesis
      using un(5) [OF xy(1)] vn(5) [OF xy(2)] w(3) [OF xy(1)] w(4) [OF xy(2)] View.IH [OF xy(1), of y] by simp
  qed
  moreover have "length ?items \<le> length ukids + length tkids" by (rule merge_spec_length)
  then have "length ?items < 2 ^ 58" using w(1,2) by simp
  moreover have "case diff_blob (Some ?u) tblob of Set bs \<Rightarrow> length bs < 2 ^ 64 | _ \<Rightarrow> True"
    using View.prems(4) by (auto simp: v clean_Live diff_blob_def split: option.splits)
  ultimately show ?case using a vn(1,2) merge_spec_wf [OF un(3) vn(3)] by (auto simp: d clean_Live)
qed

lemma enc_canon: "enc_node (canon n) = enc_node n"
proof (induction n rule: node_induct)
  case (Node pres blob opaq attrs anchor kids)
  then have "enc_kids (map (\<lambda>(k, c). (k, canon c)) kids) = enc_kids kids"
    by (auto simp: enc_kids_def intro!: arg_cong [where f = concat])
  then show ?case by (simp add: enc_node_eq)
qed

section \<open>Properties\<close>

text \<open>The full-state record of a view.\<close>

definition full_state :: "view \<Rightarrow> layer" where
  "full_state v = diff (\<lambda>_ _. False) None (Some v)"

lemma full_state_pos: "view_wf v \<Longrightarrow> root (full_state v) = pos v"
  by (simp add: full_state_def diff_def diff_None)

lemma encode_full_state: "view_wf v \<Longrightarrow> encode_layer (full_state v) = enc_node (pos v)"
  by (simp add: encode_layer_def enc_node_def full_state_pos)

lemma demo_clean:
  "view_wf (View None [] [([97], View (Some [1]) [] []), ([98], View None [] [])])
    \<and> clean (root (full_state (View None [] [([97], View (Some [1]) [] []), ([98], View None [] [])])))
    \<and> width_below (2 ^ 57) (root (full_state (View None [] [([97], View (Some [1]) [] []), ([98], View None [] [])])))"
  "view_wf (View None [([120], [5])] [([98], View (Some [2]) [] [])])
    \<and> clean (root (full_state (View None [([120], [5])] [([98], View (Some [2]) [] [])])))
    \<and> width_below (2 ^ 57) (root (full_state (View None [([120], [5])] [([98], View (Some [2]) [] [])])))"
  by (simp_all add: full_state_pos clean_Live attrs_sized_def list_less_def)

text \<open>C12: the streaming difference is the difference. On the full-state records of two views,
  \<open>diff_stream\<close> appends exactly the canonical encoding of the delta between the views, byte for byte,
  whatever pointer comparison the in-memory \<open>diff\<close> uses.\<close>

theorem diff_stream_is_diff:
  assumes "view_wf u" and "view_wf v" and "clean (root (full_state u))" and "clean (root (full_state v))"
    and "\<And>x y. same x y \<Longrightarrow> x = y"
  shows "diff_stream (encode_layer (full_state u)) (encode_layer (full_state v)) out
    = Inr (out @ encode_layer (diff same (Some u) (Some v)))"
proof -
  have "diff_go (Suc (length (enc_node (pos u)))) (enc_node (pos u)) (enc_node (pos v)) (enc_node tombstone) out
      = Inr (out @ enc_node (with_removal tombstone (diff_node (\<lambda>_ _. False) (Some u) v)))"
    using assms by (intro diff_go_enc) (simp_all add: full_state_pos)
  moreover have "diff_node same (Some u) v = diff_node (\<lambda>_ _. False) (Some u) v"
    using assms(2,5) by (intro diff_same_irrelevant)
  ultimately show ?thesis
    by (simp only: diff_stream_def full_state_pos [OF assms(1)] full_state_pos [OF assms(2)] enc_tombstone
        with_removal_canon enc_canon encode_layer_def enc_node_def [symmetric] diff_def option.case layer.select_convs)
qed

theorem diff_stream_is_diff_witness:
  "let u = View None [] [([97], View (Some [1]) [] []), ([98], View None [] [])];
       v = View None [([120], [5])] [([98], View (Some [2]) [] [])]
   in diff_stream (encode_layer (full_state u)) (encode_layer (full_state v)) [9]
     = Inr (9 # encode_layer (diff (=) (Some u) (Some v)))"
  using diff_stream_is_diff [of "View None [] [([97], View (Some [1]) [] []), ([98], View None [] [])]"
      "View None [([120], [5])] [([98], View (Some [2]) [] [])]" "(=)" "[9]"] demo_clean
  by (simp only: Let_def append_Cons append_Nil simp_thms True_implies_equals)

text \<open>C13: the overlay step writes the next full state. Overlaying a delta on the full-state record of
  a view appends the full-state record of what the composed layer presents over nothing, and appends
  nothing when that is no tree at all.\<close>

theorem overlay_full_is_compose:
  assumes "view_wf u" and "clean (root (full_state u))" and "clean (root d)" and "npresence (root d) = Live"
  shows "overlay_full (encode_layer (full_state u)) (encode_layer d) out
    = Inr (out @ (case apply_layer None (compose (full_state u) d) of
        Some v \<Rightarrow> encode_layer (full_state v) | None \<Rightarrow> []))"
proof -
  have "node_wf (root d)" "node_wf (pos u)" using assms by (simp_all add: clean_def full_state_pos)
  then have wf: "pred_option view_wf (over u (root d))"
    unfolding over_def by (intro apply_node_wf compose_node_wf) simp_all
  have over: "apply_layer None (compose (full_state u) d) = over u (root d)"
    using assms(1) by (simp add: apply_layer_def compose_def over_def full_state_pos)
  have "overlay_go (Suc (length (enc_node (pos u)))) (enc_node (pos u)) (enc_node (root d)) out
      = Inr (case over u (root d) of None \<Rightarrow> (False, out) | Some v \<Rightarrow> (True, out @ enc_node (pos v)))"
    using assms by (intro overlay_go_enc) (simp_all add: full_state_pos)
  then show ?thesis using assms(1) wf
    by (cases "over u (root d)")
      (simp_all add: overlay_full_def over encode_full_state encode_layer_def [of d] enc_node_def [symmetric])
qed

theorem overlay_full_is_compose_witness:
  "overlay_full (encode_layer (full_state (View None [] [([97], View (Some [1]) [] []), ([98], View None [] [])])))
      (encode_layer \<lparr>root = Node Live Keep False None Lower [([97], hole), ([98], tombstone), ([99], Node Live (Set [3]) False None Lower [])]\<rparr>) []
    = Inr (encode_layer (full_state (View None [] [([99], View (Some [3]) [] [])])))"
proof -
  let ?d = "\<lparr>root = Node Live Keep False None Lower [([97], hole), ([98], tombstone), ([99], Node Live (Set [3]) False None Lower [])]\<rparr>"
  have "clean (root ?d)" "npresence (root ?d) = Live" by (simp_all add: clean_Live hole_def list_less_def)
  moreover have "apply_layer None (compose (full_state (View None [] [([97], View (Some [1]) [] []), ([98], View None [] [])])) ?d)
      = Some (View None [] [([99], View (Some [3]) [] [])])" by code_simp
  ultimately show ?thesis
    using overlay_full_is_compose [of "View None [] [([97], View (Some [1]) [] []), ([98], View None [] [])]" ?d "[]"] demo_clean(1)
    by (simp only: option.case append_Nil simp_thms True_implies_equals)
qed

text \<open>C14: a difference overlaid on the old full state is the new full state, byte for byte, both with
  deletions written as tombstones and with deletions written as holes. Both streams exist: neither
  call fails on full states whose child lists have at most half the width a vector of slices allows.\<close>

theorem overlay_of_difference:
  assumes "view_wf u" and "view_wf v" and "clean (root (full_state u))" and "clean (root (full_state v))"
    and "width_below (2 ^ 57) (root (full_state u))" and "width_below (2 ^ 57) (root (full_state v))"
  shows "res_bind (diff_stream (encode_layer (full_state u)) (encode_layer (full_state v)) [])
        (\<lambda>d. overlay_full (encode_layer (full_state u)) d []) = Inr (encode_layer (full_state v))
    \<and> res_bind (diff_stream_holes (encode_layer (full_state u)) (encode_layer (full_state v)) [])
        (\<lambda>d. overlay_full (encode_layer (full_state u)) d []) = Inr (encode_layer (full_state v))"
proof -
  let ?d = "diff_node (\<lambda>_ _. False) (Some u) v"
  let ?fuel = "Suc (length (enc_node (pos u)))"
  note pos = assms(3-6) [unfolded full_state_pos [OF assms(1)] full_state_pos [OF assms(2)]]
  have *: "diff_go ?fuel (enc_node (pos u)) (enc_node (pos v)) (enc_node rm) [] = Inr (enc_node (with_removal rm ?d))
      \<and> overlay_go ?fuel (enc_node (pos u)) (enc_node (with_removal rm ?d)) [] = Inr (True, enc_node (pos v))"
    if rm: "removal rm" for rm
  proof -
    have c: "clean (with_removal rm ?d)" using assms(1,2) pos removal_clean [OF rm] by (intro clean_diff) simp_all
    have live: "npresence ?d = Live" by (cases v) (simp add: diff_node_eq Let_def)
    have "npresence (with_removal rm ?d) = Live" using live by (cases ?d) simp
    moreover have "over u (with_removal rm ?d) = Some v"
      using over_removal [OF rm assms(1) _ _ live] diff_node_wf [OF assms(2)] assms(1,2) diff_apply [of "\<lambda>_ _. False" v "Some u"]
      by simp
    ultimately show ?thesis
      using diff_go_enc [of rm u v ?fuel "[]"] overlay_go_enc [of u "with_removal rm ?d" ?fuel "[]"] assms(1,2) pos c removal_clean [OF rm]
      by simp
  qed
  have "enc_node hole = [FLAG_BACKDROP, 0]" by code_simp
  with * [of tombstone] * [of hole] show ?thesis
    using assms(1,2)
    by (simp add: removal_def diff_stream_def diff_stream_holes_def overlay_full_def encode_full_state)
qed

theorem overlay_of_difference_witness:
  "let u = View None [] [([97], View (Some [1]) [] []), ([98], View None [] [])];
       v = View None [([120], [5])] [([98], View (Some [2]) [] [])]
   in res_bind (diff_stream_holes (encode_layer (full_state u)) (encode_layer (full_state v)) [])
        (\<lambda>d. overlay_full (encode_layer (full_state u)) d []) = Inr (encode_layer (full_state v))"
  using overlay_of_difference [of "View None [] [([97], View (Some [1]) [] []), ([98], View None [] [])]"
      "View None [([120], [5])] [([98], View (Some [2]) [] [])]"] demo_clean
  by (simp only: Let_def simp_thms True_implies_equals)

end
