(* ===== verification/Stream_Bounds.thy ===== *)
theory Stream_Bounds
  imports Depot_Stream
begin

text \<open>
  The streaming walks on arbitrary bytes: every nested call works on a strictly shorter slice, so the
  nesting bound of the model is never reached, whatever the input, and the panic of the child list is
  excluded when no head on the walk claims too many children.
\<close>

section \<open>Abrupt ends\<close>

text \<open>A walk can stop for two reasons that are not format errors: the bound the model puts on the nesting,
  and the panic of \<open>Vec::with_capacity\<close>.\<close>

definition avoids :: "stream_stop \<Rightarrow> stream_stop + 'a \<Rightarrow> bool" where
  "avoids z r \<longleftrightarrow> r \<noteq> Inl z"

definition abrupt :: "stream_stop \<Rightarrow> bool" where
  "abrupt z \<longleftrightarrow> z = SOutOfFuel \<or> z = CapacityPanic"

abbreviation no_fuel :: "stream_stop + 'a \<Rightarrow> bool" where
  "no_fuel \<equiv> avoids SOutOfFuel"

abbreviation no_panic :: "stream_stop + 'a \<Rightarrow> bool" where
  "no_panic \<equiv> avoids CapacityPanic"

lemma abrupt_simps [simp]: "abrupt SOutOfFuel" "abrupt CapacityPanic"
  by (simp_all add: abrupt_def)

lemma av_Inr [simp]: "avoids z (Inr x)"
  by (simp add: avoids_def)

lemma av_Bad [simp]: "abrupt z \<Longrightarrow> avoids z (Inl (Bad e))" "no_fuel (Inl CapacityPanic)" "no_panic (Inl SOutOfFuel)"
  by (auto simp: avoids_def abrupt_def)

lemma av_bind: "avoids z r \<Longrightarrow> (\<And>x. r = Inr x \<Longrightarrow> avoids z (f x)) \<Longrightarrow> avoids z (res_bind r f)"
  by (cases r) (simp_all add: avoids_def)

lemma av_lift [simp]: "abrupt z \<Longrightarrow> avoids z (lift_dec r)"
  by (cases r) simp_all

lemma av_varint [simp]: "abrupt z \<Longrightarrow> avoids z (cur_varint r)"
  by (simp add: cur_varint_eq)

lemma av_slice [simp]: "abrupt z \<Longrightarrow> avoids z (cur_slice r)"
  by (simp add: cur_slice_eq)

lemma av_u8 [simp]: "abrupt z \<Longrightarrow> avoids z (cur_u8 r)"
  by (simp add: cur_u8_def split: list.splits)

lemma av_decode [simp]: "abrupt z \<Longrightarrow> avoids z (decode_sub r)"
  by (simp add: decode_sub_def split: sum.splits prod.splits)

lemma lift_eq_Inr [simp]: "lift_dec r = Inr x \<longleftrightarrow> r = Inr x"
  by (cases r) simp_all

lemma cur_slice_shrinks: "cur_slice r = Inr (s, r') \<Longrightarrow> length r' < length r"
  by (simp add: cur_slice_eq rd_bytes_shrinks)

lemma cur_varint_shrinks: "cur_varint r = Inr (v, r') \<Longrightarrow> length r' < length r"
  by (simp add: cur_varint_eq rd_varint_shrinks)

lemma av_skip_attrs [simp]: "abrupt z \<Longrightarrow> avoids z (skip_attrs n r)"
  by (induction n arbitrary: r) (auto intro!: av_bind)

lemma skip_attrs_shrinks: "skip_attrs n r = Inr r' \<Longrightarrow> length r' \<le> length r"
proof (induction n arbitrary: r)
  case (Suc n)
  then show ?case by (fastforce simp: res_bind_eq_Inr dest: cur_slice_shrinks)
qed simp

lemma av_head [simp]: "abrupt z \<Longrightarrow> avoids z (read_head r)"
  unfolding read_head_def head_blob_def head_attrs_def Let_def
  by (auto intro!: av_bind split: if_splits)

lemma head_blob_shrinks: "head_blob flags r = Inr (b, r') \<Longrightarrow> length r' \<le> length r"
  by (auto simp: head_blob_def res_bind_eq_Inr Let_def split: if_splits dest: cur_slice_shrinks)

lemma head_attrs_shrinks: "head_attrs flags r = Inr (a, r') \<Longrightarrow> length r' \<le> length r"
  by (fastforce simp: head_attrs_def res_bind_eq_Inr split: if_splits dest: cur_varint_shrinks skip_attrs_shrinks)

lemma read_head_shrinks: "read_head r = Inr (h, r') \<Longrightarrow> length r' < length r"
  by (fastforce simp: read_head_def res_bind_eq_Inr cur_u8_def split: list.splits if_splits
      dest: head_blob_shrinks head_attrs_shrinks cur_varint_shrinks)

lemma skip_kids_shrinks:
  "(\<And>r r'. skip r = Inr r' \<Longrightarrow> length r' \<le> length r) \<Longrightarrow> skip_kids skip n r = Inr r' \<Longrightarrow> length r' \<le> length r"
proof (induction n arbitrary: r)
  case (Suc n)
  then obtain s r1 r2 where "cur_slice r = Inr (s, r1)" "skip r1 = Inr r2" "skip_kids skip n r2 = Inr r'"
    by (auto simp: res_bind_eq_Inr)
  with Suc.IH [OF Suc.prems(1)] Suc.prems(1) cur_slice_shrinks show ?case by (meson less_imp_le order_trans)
qed simp

lemma skip_go_shrinks: "skip_go fuel r = Inr r' \<Longrightarrow> length r' < length r"
proof (induction fuel arbitrary: r r')
  case (Suc fuel)
  then obtain h r1 where h: "read_head r = Inr (h, r1)" "skip_kids (skip_go fuel) (unat (h_count h)) r1 = Inr r'"
    by (auto simp: res_bind_eq_Inr)
  have "length r' \<le> length r1" by (rule skip_kids_shrinks [OF _ h(2)]) (use Suc.IH in \<open>simp add: less_imp_le\<close>)
  with read_head_shrinks [OF h(1)] show ?case by simp
qed simp

lemma nf_skip_kids:
  assumes "\<And>r. length r < fuel \<Longrightarrow> no_fuel (skip_go fuel r)"
  shows "length r \<le> fuel \<Longrightarrow> no_fuel (skip_kids (skip_go fuel) n r)"
proof (induction n arbitrary: r)
  case (Suc n)
  show ?case unfolding skip_kids.simps
  proof (rule av_bind, simp)
    fix x assume "cur_slice r = Inr x"
    then obtain s r1 where x: "x = (s, r1)" "length r1 < length r" using cur_slice_shrinks by (cases x) auto
    show "no_fuel (case x of (_, r1) \<Rightarrow> res_bind (skip_go fuel r1) (skip_kids (skip_go fuel) n))"
      using x Suc.prems assms [of r1] skip_go_shrinks [of fuel r1] Suc.IH
      by (auto intro!: av_bind)
  qed
qed simp

lemma nf_skip_go: "length r < fuel \<Longrightarrow> no_fuel (skip_go fuel r)"
proof (induction fuel arbitrary: r)
  case (Suc fuel)
  then show ?case
    by (auto intro!: av_bind nf_skip_kids dest: read_head_shrinks)
qed simp

lemma nf_skip_node [simp]: "no_fuel (skip_node r)"
  unfolding skip_node_def by (rule nf_skip_go) simp

lemma nf_skip_children [simp]: "no_fuel (skip_children n r)"
  unfolding skip_children_def by (rule nf_skip_kids) (simp_all add: nf_skip_go del: skip_go.simps)

lemma nf_collect_loop: "no_fuel (collect_loop n r)"
  by (induction n arbitrary: r) (auto intro!: av_bind)

lemma nf_collect [simp]: "no_fuel (collect_children n r)"
  by (simp add: collect_children_def nf_collect_loop)

lemma skip_node_shrinks: "skip_node r = Inr r' \<Longrightarrow> length r' < length r"
  unfolding skip_node_def by (rule skip_go_shrinks)

lemma collect_loop_subs:
  "collect_loop n r = Inr (out, r') \<Longrightarrow> (k, sub) \<in> set out \<Longrightarrow> length sub < length r"
proof (induction n arbitrary: r out)
  case (Suc n)
  then obtain name r1 r2 out1 where s: "cur_slice r = Inr (name, r1)" "skip_node r1 = Inr r2"
      "collect_loop n r2 = Inr (out1, r')" "out = (name, consumed r1 r2) # out1"
    by (auto simp: res_bind_eq_Inr)
  have "length r1 < length r" "length r2 < length r1" using cur_slice_shrinks [OF s(1)] skip_node_shrinks [OF s(2)] .
  with Suc.IH [OF s(3)] Suc.prems(2) s(4) show ?case by (auto simp: consumed_def)
qed simp

lemma collect_subs:
  "collect_children n r = Inr (out, r') \<Longrightarrow> (k, sub) \<in> set out \<Longrightarrow> length sub < length r"
  by (auto simp: collect_children_def collect_loop_subs split: if_splits)

section \<open>The walks\<close>

lemma merge_induct [case_names Nil left right both]:
  fixes P :: "(name \<times> 'a) list \<Rightarrow> (name \<times> 'b) list \<Rightarrow> bool"
  assumes "P [] []" and "\<And>an x as. P as [] \<Longrightarrow> P ((an, x) # as) []" and "\<And>bn y bs. P [] bs \<Longrightarrow> P [] ((bn, y) # bs)"
    and "\<And>an x as bn y bs. (an < bn \<Longrightarrow> P as ((bn, y) # bs)) \<Longrightarrow> (\<not> an < bn \<Longrightarrow> bn < an \<Longrightarrow> P ((an, x) # as) bs)
      \<Longrightarrow> (\<not> an < bn \<Longrightarrow> \<not> bn < an \<Longrightarrow> P as bs) \<Longrightarrow> P ((an, x) # as) ((bn, y) # bs)"
  shows "P as bs"
  by (rule merge_spec.induct [of "\<lambda>_ _ _ as bs. P as bs"]) (use assms in blast)+

lemma av_merge_walk:
  "(\<And>k x. (k, x) \<in> set as \<Longrightarrow> avoids z (f x)) \<Longrightarrow> (\<And>k y. (k, y) \<in> set bs \<Longrightarrow> avoids z (g y)) \<Longrightarrow>
    (\<And>k k' x y. (k, x) \<in> set as \<Longrightarrow> (k', y) \<in> set bs \<Longrightarrow> avoids z (h x y)) \<Longrightarrow> avoids z (merge_walk f g h as bs)"
proof (induction as bs rule: merge_induct)
  case (left an x as)
  have "avoids z (merge_walk f g h as [])" by (rule left(1)) (meson left(2-4) list.set_intros)+
  moreover have "avoids z (f x)" by (meson left(2) list.set_intros)
  ultimately show ?case by (auto intro!: av_bind)
next
  case (right bn y bs)
  have "avoids z (merge_walk f g h [] bs)" by (rule right(1)) (meson right(2-4) list.set_intros)+
  moreover have "avoids z (g y)" by (meson right(3) list.set_intros)
  ultimately show ?case by (auto intro!: av_bind)
next
  case (both an x as bn y bs)
  note prems = both(4-6)
  have arms: "avoids z (f x)" "avoids z (g y)" "avoids z (h x y)" by (meson prems list.set_intros)+
  have "avoids z (merge_walk f g h as ((bn, y) # bs))" if "an < bn"
    by (rule both(1) [OF that]) (meson prems list.set_intros)+
  moreover have "avoids z (merge_walk f g h ((an, x) # as) bs)" if "\<not> an < bn" "bn < an"
    by (rule both(2) [OF that]) (meson prems list.set_intros)+
  moreover have "avoids z (merge_walk f g h as bs)" if "\<not> an < bn" "\<not> bn < an"
    by (rule both(3) [OF that]) (meson prems list.set_intros)+
  ultimately show ?case using arms by (auto intro!: av_bind)
qed simp

lemma av_emit_items:
  "(\<And>k s o1. (k, s) \<in> set items \<Longrightarrow> avoids z (emit s o1)) \<Longrightarrow> avoids z (emit_items emit out items)"
proof (induction items arbitrary: out)
  case (Cons x items)
  then show ?case by (cases x) (auto intro!: av_bind)
qed simp

lemma av_emit_plain [simp]: "avoids z (emit_items (\<lambda>v o1. Inr (o1 @ v)) out items)"
  by (rule av_emit_items) simp

lemma push_item_set: "(k, s) \<in> set (push_item n i r) \<Longrightarrow> k = n \<and> i = Some s \<or> (k, s) \<in> set r"
  by (cases i) (auto simp: push_item_def)

text \<open>Every pushed item comes from an arm applied to entries of the two lists.\<close>

definition from_arms :: "('a \<Rightarrow> stream_stop + 's option) \<Rightarrow> ('b \<Rightarrow> stream_stop + 's option)
    \<Rightarrow> ('a \<Rightarrow> 'b \<Rightarrow> stream_stop + 's option) \<Rightarrow> (name \<times> 'a) list \<Rightarrow> (name \<times> 'b) list \<Rightarrow> 's \<Rightarrow> bool" where
  "from_arms f g h as bs s \<longleftrightarrow> (\<exists>x \<in> snd ` set as. f x = Inr (Some s)) \<or> (\<exists>y \<in> snd ` set bs. g y = Inr (Some s))
     \<or> (\<exists>x \<in> snd ` set as. \<exists>y \<in> snd ` set bs. h x y = Inr (Some s))"

lemma from_arms_mono:
  "from_arms f g h as bs s \<Longrightarrow> set as \<subseteq> set as' \<Longrightarrow> set bs \<subseteq> set bs' \<Longrightarrow> from_arms f g h as' bs' s"
  unfolding from_arms_def by (elim disjE) (meson image_mono subsetD)+

lemma from_arms_push:
  assumes "(k, s) \<in> set (push_item n i r)" and "i = Some s \<Longrightarrow> from_arms f g h as bs s"
    and "(k, s) \<in> set r \<Longrightarrow> from_arms f g h as' bs' s" and "set as' \<subseteq> set as" and "set bs' \<subseteq> set bs"
  shows "from_arms f g h as bs s"
proof (cases "(k, s) \<in> set r")
  case True
  show ?thesis by (rule from_arms_mono [OF assms(3) [OF True] assms(4,5)])
next
  case False
  with push_item_set [OF assms(1)] have "i = Some s" by simp
  then show ?thesis by (rule assms(2))
qed

lemma merge_walk_items:
  "merge_walk f g h as bs = Inr items \<Longrightarrow> (k, s) \<in> set items \<Longrightarrow> from_arms f g h as bs s"
proof (induction as bs arbitrary: items rule: merge_induct)
  case (left an x as)
  then obtain i r where i: "f x = Inr i" and r: "merge_walk f g h as [] = Inr r" "items = push_item an i r"
    by (auto simp: res_bind_eq_Inr)
  show ?case by (rule from_arms_push [OF left(3) [unfolded r(2)] _ left(1) [OF r(1)]]) (auto simp: from_arms_def i)
next
  case (right bn y bs)
  then obtain i r where i: "g y = Inr i" and r: "merge_walk f g h [] bs = Inr r" "items = push_item bn i r"
    by (auto simp: res_bind_eq_Inr)
  show ?case by (rule from_arms_push [OF right(3) [unfolded r(2)] _ right(1) [OF r(1)]]) (auto simp: from_arms_def i)
next
  case (both an x as bn y bs)
  consider "an < bn" | "\<not> an < bn" "bn < an" | "\<not> an < bn" "\<not> bn < an" by blast
  then show ?case
  proof cases
    case 1
    with both(4) obtain i r where i: "f x = Inr i" and r: "merge_walk f g h as ((bn, y) # bs) = Inr r" "items = push_item an i r"
      by (auto simp: res_bind_eq_Inr)
    show ?thesis
      by (rule from_arms_push [OF both(5) [unfolded r(2)] _ both(1) [OF 1 r(1)]]) (auto simp: from_arms_def i)
  next
    case 2
    with both(4) obtain i r where i: "g y = Inr i" and r: "merge_walk f g h ((an, x) # as) bs = Inr r" "items = push_item bn i r"
      by (auto simp: res_bind_eq_Inr)
    show ?thesis
      by (rule from_arms_push [OF both(5) [unfolded r(2)] _ both(2) [OF 2 r(1)]]) (auto simp: from_arms_def i)
  next
    case 3
    with both(4) obtain i r where i: "h x y = Inr i" and r: "merge_walk f g h as bs = Inr r" "items = push_item an i r"
      by (auto simp: res_bind_eq_Inr)
    show ?thesis
      by (rule from_arms_push [OF both(5) [unfolded r(2)] _ both(3) [OF 3 r(1)]]) (auto simp: from_arms_def i)
  qed
qed simp

lemma av_collapses_loop:
  "(\<And>k k' x y. (k, x) \<in> set as \<Longrightarrow> (k', y) \<in> set bs \<Longrightarrow> avoids z (collapses x y)) \<Longrightarrow> avoids z (collapses_loop collapses as bs)"
proof (induction as bs rule: merge_induct)
  case (both an x as bn y bs)
  have "avoids z (collapses x y)" by (meson both(4) list.set_intros)
  moreover have "avoids z (collapses_loop collapses ((an, x) # as) bs)" if "\<not> an < bn" "bn < an"
    by (rule both(2) [OF that]) (meson both(4) list.set_intros)
  moreover have "avoids z (collapses_loop collapses as bs)" if "\<not> an < bn" "\<not> bn < an"
    by (rule both(3) [OF that]) (meson both(4) list.set_intros)
  ultimately show ?case by (auto intro!: av_bind)
qed auto

lemma av_harden_sub [simp]: "abrupt z \<Longrightarrow> avoids z (harden_sub b)"
  by (auto simp: harden_sub_def Let_def intro!: av_bind)

lemma av_b_only [simp]: "abrupt z \<Longrightarrow> avoids z (push_compose_b_only q b)"
  by (auto simp: push_compose_b_only_def intro!: av_bind)

lemma av_harden_items [simp]: "abrupt z \<Longrightarrow> avoids z (harden_items bs)"
  by (induction bs rule: harden_items.induct) (auto intro!: av_bind)

lemma av_positive [simp]: "abrupt z \<Longrightarrow> avoids z (positive_over_nothing b)"
  by (auto simp: positive_over_nothing_def intro!: av_bind split: option.splits)

lemma av_resolve_sub [simp]: "abrupt z \<Longrightarrow> avoids z (resolve_sub b)"
  by (auto simp: resolve_sub_def intro!: av_bind)

lemma av_resolve_items [simp]: "abrupt z \<Longrightarrow> avoids z (resolve_items bs)"
  by (induction bs rule: resolve_items.induct) (auto intro!: av_bind)


lemma np_skip_kids: "(\<And>r. no_panic (skip r)) \<Longrightarrow> no_panic (skip_kids skip n r)"
  by (induction n arbitrary: r) (auto intro!: av_bind)

lemma np_skip_go: "no_panic (skip_go fuel r)"
  by (induction fuel arbitrary: r) (auto intro!: av_bind np_skip_kids)

lemma av_skip_node [simp]: "abrupt z \<Longrightarrow> avoids z (skip_node r)"
  by (auto simp: abrupt_def skip_node_def np_skip_go nf_skip_go simp del: skip_go.simps)

lemma av_skip_children [simp]: "abrupt z \<Longrightarrow> avoids z (skip_children n r)"
  by (auto simp: abrupt_def) (simp add: skip_children_def np_skip_kids np_skip_go del: skip_go.simps)

lemma np_collect_loop: "no_panic (collect_loop n r)"
  by (induction n arbitrary: r) (auto intro!: av_bind)

lemma compose_items_Both:
  "compose_items q as bs = Inr items \<Longrightarrow> (k, Both x y) \<in> set items \<Longrightarrow> \<exists>k k'. (k, x) \<in> set as \<and> (k', y) \<in> set bs"
  unfolding compose_items_def
  by (drule (1) merge_walk_items) (auto simp: from_arms_def push_compose_b_only_def res_bind_eq_Inr split: if_splits)

lemma diff_items_Both:
  "diff_items as bs = Inr items \<Longrightarrow> (k, DBoth x y) \<in> set items \<Longrightarrow> \<exists>k k'. (k, x) \<in> set as \<and> (k', y) \<in> set bs"
  unfolding diff_items_def by (drule (1) merge_walk_items) (auto simp: from_arms_def split: if_splits)

section \<open>What rules an abrupt end out\<close>

text \<open>A condition on the two inputs and the remaining fuel rules the end \<open>z\<close> out of every walk when the
  two child lists can be collected and the condition holds again for every pair of children.\<close>

locale ruled_out =
  fixes z :: stream_stop and safe :: "nat \<Rightarrow> bytes \<Rightarrow> bytes \<Rightarrow> bool"
  assumes abrupt: "abrupt z"
    and safe_0: "safe 0 a b \<Longrightarrow> z \<noteq> SOutOfFuel"
    and safe_refuel: "safe fuel a b \<Longrightarrow> safe (Suc (length a)) a b"
    and safe_a: "safe (Suc fuel) a b \<Longrightarrow> read_head a = Inr (ah, a1) \<Longrightarrow> avoids z (collect_children (h_count ah) a1)"
    and safe_b: "safe (Suc fuel) a b \<Longrightarrow> read_head b = Inr (bh, b1) \<Longrightarrow> avoids z (collect_children (h_count bh) b1)"
    and safe_kids: "safe (Suc fuel) a b \<Longrightarrow> read_head a = Inr (ah, a1) \<Longrightarrow> collect_children (h_count ah) a1 = Inr (as, a2) \<Longrightarrow>
      read_head b = Inr (bh, b1) \<Longrightarrow> collect_children (h_count bh) b1 = Inr (bs, b2) \<Longrightarrow>
      (k, x) \<in> set as \<Longrightarrow> (k', y) \<in> set bs \<Longrightarrow> safe fuel x y"
begin

lemmas abrupt_ends [simp] = abrupt

lemma av_out_of_fuel: "safe 0 a b \<Longrightarrow> avoids z (Inl SOutOfFuel)"
  using safe_0 by (auto simp: avoids_def)

lemma av_collapses_go: "safe fuel a b \<Longrightarrow> avoids z (collapses_go fuel a b)"
proof (induction fuel arbitrary: a b)
  case 0
  then show ?case by (simp add: av_out_of_fuel)
next
  case (Suc fuel)
  note ab = Suc.prems
  show ?case
    by (auto simp: safe_a [OF ab] safe_b [OF ab] intro!: av_bind av_collapses_loop Suc.IH)
      (rule safe_kids [OF ab]; assumption)
qed

lemma av_compose_items:
  assumes "\<And>k k' x y. (k, x) \<in> set as \<Longrightarrow> (k', y) \<in> set bs \<Longrightarrow> safe fuel x y"
  shows "avoids z (compose_items q as bs)"
  unfolding compose_items_def compose_collapses_def
  by (intro av_merge_walk)
    (auto intro!: av_bind av_collapses_go simp del: collapses_go.simps dest: assms safe_refuel)

lemma av_compose_go: "safe fuel a b \<Longrightarrow> avoids z (compose_go fuel a b out)"
proof (induction fuel arbitrary: a b out)
  case 0
  then show ?case by (simp add: av_out_of_fuel)
next
  case (Suc fuel)
  note ab = Suc.prems
  have items: "avoids z (compose_items q as bs)"
    if "read_head a = Inr (ah, a1)" "collect_children (h_count ah) a1 = Inr (as, a2)"
      "read_head b = Inr (bh, b1)" "collect_children (h_count bh) b1 = Inr (bs, b2)" for ah a1 as a2 bh b1 bs b2 q
    by (rule av_compose_items [OF safe_kids [OF ab that]])
  have emit: "avoids z (emit_items (\<lambda>src o1. case src of CopyA s \<Rightarrow> Inr (o1 @ s) | CopyB s \<Rightarrow> Inr (o1 @ s) | Owned v \<Rightarrow> Inr (o1 @ v)
        | Both asub bsub \<Rightarrow> res_bind (compose_go fuel asub bsub o1) (\<lambda>(o2, _, _). Inr o2)) o0 items)"
    if "read_head a = Inr (ah, a1)" "collect_children (h_count ah) a1 = Inr (as, a2)"
      "read_head b = Inr (bh, b1)" "collect_children (h_count bh) b1 = Inr (bs, b2)" "compose_items q as bs = Inr items"
    for ah a1 as a2 bh b1 bs b2 q items o0
  proof (rule av_emit_items)
    fix k s o1 assume "(k, s) \<in> set items"
    then have "safe fuel x y" if "s = Both x y" for x y
      using safe_kids [OF ab \<open>read_head a = _\<close> \<open>collect_children (h_count ah) a1 = _\<close> \<open>read_head b = _\<close>
          \<open>collect_children (h_count bh) b1 = _\<close>] compose_items_Both [OF \<open>compose_items q as bs = _\<close>] that by blast
    then show "avoids z (case s of CopyA s \<Rightarrow> Inr (o1 @ s) | CopyB s \<Rightarrow> Inr (o1 @ s) | Owned v \<Rightarrow> Inr (o1 @ v)
        | Both asub bsub \<Rightarrow> res_bind (compose_go fuel asub bsub o1) (\<lambda>(o2, _, _). Inr o2))"
      by (cases s) (auto intro!: av_bind Suc.IH)
  qed
  show ?case
    by (auto simp: Let_def safe_a [OF ab] safe_b [OF ab] intro!: av_bind)
      ((rule items; assumption) | (rule emit; assumption))+
qed

lemma av_diff_go: "safe fuel a b \<Longrightarrow> avoids z (diff_go fuel a b remove out)"
proof (induction fuel arbitrary: a b out)
  case 0
  then show ?case by (simp add: av_out_of_fuel)
next
  case (Suc fuel)
  note ab = Suc.prems
  have "avoids z (diff_items as bs)" for as bs
    unfolding diff_items_def by (intro av_merge_walk) auto
  moreover have "avoids z (emit_items (\<lambda>src o1. case src of DRemove \<Rightarrow> Inr (o1 @ remove) | DCopyB s \<Rightarrow> Inr (o1 @ s)
        | DBoth asub bsub \<Rightarrow> diff_go fuel asub bsub remove o1) o0 items)"
    if "read_head a = Inr (ah, a1)" "collect_children (h_count ah) a1 = Inr (as, a2)"
      "read_head b = Inr (bh, b1)" "collect_children (h_count bh) b1 = Inr (bs, b2)" "diff_items as bs = Inr items"
    for ah a1 as a2 bh b1 bs b2 items o0
    by (auto intro!: av_emit_items Suc.IH split: dsrc.splits dest!: diff_items_Both [OF that(5)] intro: safe_kids [OF ab that(1-4)])
  ultimately show ?case by (auto simp: Let_def safe_a [OF ab] safe_b [OF ab] intro!: av_bind)
qed

lemma av_overlay_go: "safe fuel a d \<Longrightarrow> avoids z (overlay_go fuel a d out)"
proof (induction fuel arbitrary: a d out)
  case 0
  then show ?case by (simp add: av_out_of_fuel)
next
  case (Suc fuel)
  note ad = Suc.prems
  have arm: "avoids z (overlay_arm (overlay_go fuel) x y)" if "safe fuel x y" for x y
    using Suc.IH [OF that] by (auto simp: overlay_arm_def intro!: av_bind)
  have "avoids z (if q then resolve_items ds else merge_walk (\<lambda>bsub. Inr (Some (CopyBase bsub))) resolve_sub
      (overlay_arm (overlay_go fuel)) as ds)"
    if "read_head a = Inr (ah, a1)" "collect_children (h_count ah) a1 = Inr (as, a2)"
      "read_head d = Inr (dh, d1)" "collect_children (h_count dh) d1 = Inr (ds, d2)" for ah a1 as a2 dh d1 ds d2 q
    by (auto intro!: av_merge_walk arm safe_kids [OF ad that])
  moreover have "avoids z (emit_positive out b at items)" for b at items
    unfolding emit_positive_def Let_def by (rule av_emit_items) (simp split: osrc.splits)
  ultimately show ?case by (auto simp: Let_def safe_a [OF ad] safe_b [OF ad] intro!: av_bind)
qed

lemmas av_streams = av_compose_go av_diff_go av_overlay_go

lemma streams_avoid:
  assumes "safe (Suc (length a)) a b"
  shows "avoids z (compose_stream a b out)" "avoids z (diff_stream a b out)"
    "avoids z (diff_stream_holes a b out)" "avoids z (overlay_full a b out)"
  unfolding compose_stream_def diff_stream_def diff_stream_holes_def overlay_full_def
  by (auto intro!: av_bind av_streams assms simp del: compose_go.simps diff_go.simps overlay_go.simps)

end

text \<open>Every nested call works on a strictly shorter first input.\<close>

interpretation fuel: ruled_out SOutOfFuel "\<lambda>fuel a b. length a < fuel"
proof
  show "length x < fuel" if "length a < Suc fuel" "read_head a = Inr (ah, a1)" "collect_children (h_count ah) a1 = Inr (as, a2)"
      "(k, x) \<in> set as" for fuel and a x a1 a2 :: bytes and ah and as :: "(name \<times> bytes) list" and k
    using collect_subs [OF that(3,4)] read_head_shrinks [OF that(2)] that(1) by simp
qed simp_all

text \<open>An input is oversized when a node reached by the walk claims more children than a vector can hold.\<close>

inductive oversized :: "bytes \<Rightarrow> bool" where
  here: "read_head r = Inr (h, r1) \<Longrightarrow> MAX_ENTRIES < h_count h \<Longrightarrow> oversized r"
| child: "read_head r = Inr (h, r1) \<Longrightarrow> collect_children (h_count h) r1 = Inr (kids, r2) \<Longrightarrow> (k, s) \<in> set kids \<Longrightarrow>
    oversized s \<Longrightarrow> oversized r"

lemma np_collect:
  "\<not> oversized r \<Longrightarrow> read_head r = Inr (h, r1) \<Longrightarrow> no_panic (collect_children (h_count h) r1)"
  using oversized.here by (auto simp: collect_children_def np_collect_loop)

interpretation panic: ruled_out CapacityPanic "\<lambda>_ a b. \<not> oversized a \<and> \<not> oversized b"
  by unfold_locales (auto intro: np_collect oversized.child)

lemma outcome:
  "no_fuel r \<Longrightarrow> no_panic r \<Longrightarrow> (\<exists>x. r = Inr x) \<or> (\<exists>e. r = Inl (Bad e))"
  by (cases r; cases "projl r") (auto simp: avoids_def)

lemma tombstone_count: "read_head r = Inr (h, r1) \<Longrightarrow> h_tombstone h \<Longrightarrow> h_count h = 0"
  by (auto simp: read_head_def res_bind_eq_Inr split: if_splits)

lemma streams_panic:
  assumes "read_head a = Inr (ah, a1)" and "read_head b = Inr (bh, b1)" and "MAX_ENTRIES < h_count ah"
    and "\<not> h_tombstone bh" and "\<not> h_backdrop bh"
  shows "compose_stream a b out = Inl CapacityPanic" "diff_stream a b out = Inl CapacityPanic"
    "diff_stream_holes a b out = Inl CapacityPanic" "overlay_full a b out = Inl CapacityPanic"
proof -
  have "collect_children (h_count ah) a1 = Inl CapacityPanic" using assms(3) by (simp add: collect_children_def)
  moreover have "\<not> h_tombstone ah" using tombstone_count [OF assms(1)] assms(3) by auto
  ultimately show "compose_stream a b out = Inl CapacityPanic" "diff_stream a b out = Inl CapacityPanic"
    "diff_stream_holes a b out = Inl CapacityPanic" "overlay_full a b out = Inl CapacityPanic"
    using assms by (simp_all add: compose_stream_def diff_stream_def diff_stream_holes_def overlay_full_def Let_def)
qed

section \<open>Properties\<close>

text \<open>C15: how composition, both differences and the overlay end on arbitrary bytes. The nesting bound of the
  model is never what stops them. When no node the walk reaches in either input claims more than
  \<open>MAX_ENTRIES\<close> children, each of them ends with output or with a format error. When the root of the
  first input claims more than that and the second input starts with a head that is neither a tombstone nor
  a hole, each of them panics instead of reporting an error.\<close>

theorem stream_outcomes:
  fixes a b out :: bytes
  defines "results \<equiv> {compose_stream a b out, diff_stream a b out, diff_stream_holes a b out, overlay_full a b out}"
  shows "Inl SOutOfFuel \<notin> results
    \<and> (\<not> oversized a \<and> \<not> oversized b \<longrightarrow> (\<forall>r \<in> results. (\<exists>out'. r = Inr out') \<or> (\<exists>e. r = Inl (Bad e))))
    \<and> (\<forall>ah a1 bh b1. read_head a = Inr (ah, a1) \<and> read_head b = Inr (bh, b1) \<and> MAX_ENTRIES < h_count ah
         \<and> \<not> h_tombstone bh \<and> \<not> h_backdrop bh \<longrightarrow> results = {Inl CapacityPanic})"
proof -
  have fuel: "\<forall>r \<in> results. no_fuel r" by (simp add: results_def fuel.streams_avoid)
  then have "Inl SOutOfFuel \<notin> results" by (auto simp: avoids_def)
  moreover have "\<forall>r \<in> results. no_panic r" if "\<not> oversized a \<and> \<not> oversized b"
    unfolding results_def using panic.streams_avoid [OF that] by simp
  with fuel have "\<forall>r \<in> results. (\<exists>out'. r = Inr out') \<or> (\<exists>e. r = Inl (Bad e))" if "\<not> oversized a \<and> \<not> oversized b"
    using outcome that by blast
  moreover have "results = {Inl CapacityPanic}" if "read_head a = Inr (ah, a1) \<and> read_head b = Inr (bh, b1) \<and> MAX_ENTRIES < h_count ah
         \<and> \<not> h_tombstone bh \<and> \<not> h_backdrop bh" for ah a1 bh b1
    unfolding results_def using that by (simp add: streams_panic [of a ah a1 b bh b1])
  ultimately show ?thesis by blast
qed

theorem stream_outcomes_witness:
  "\<not> oversized [0, 1, 1, 97, 2, 1, 5, 0] \<and> \<not> oversized [0, 1, 1, 97, 1]
    \<and> ((\<exists>out'. compose_stream [0, 1, 1, 97, 2, 1, 5, 0] [0, 1, 1, 97, 1] [] = Inr out')
      \<or> (\<exists>e. compose_stream [0, 1, 1, 97, 2, 1, 5, 0] [0, 1, 1, 97, 1] [] = Inl (Bad e)))
    \<and> compose_stream [0, 255, 255, 255, 255, 255, 255, 255, 255, 255, 1] ID_BYTES [] = Inl CapacityPanic"
proof -
  let ?a = "[0, 1, 1, 97, 2, 1, 5, 0] :: bytes" and ?kid = "[2, 1, 5, 0] :: bytes" and ?b = "[0, 1, 1, 97, 1] :: bytes"
  let ?huge = "[0, 255, 255, 255, 255, 255, 255, 255, 255, 255, 1] :: bytes"
  let ?h = "\<lparr>h_tombstone = False, h_blob = Keep, h_opaque = False, h_backdrop = False, h_attrs = None, h_count = 0\<rparr>"
  have id: "read_head ID_BYTES = Inr (?h, [])" "collect_children 0 [] = Inr ([], [])" by code_simp+
  have kid: "read_head ?kid = Inr (?h\<lparr>h_blob := Set [5]\<rparr>, [])" by code_simp
  have a: "read_head ?a = Inr (?h\<lparr>h_count := 1\<rparr>, [1, 97, 2, 1, 5, 0])"
    "collect_children 1 [1, 97, 2, 1, 5, 0] = Inr ([([97], ?kid)], [])" by code_simp+
  have b: "read_head ?b = Inr (?h\<lparr>h_count := 1\<rparr>, [1, 97, 1])" "collect_children 1 [1, 97, 1] = Inr ([([97], [1])], [])"
    "read_head [1] = Inr (?h\<lparr>h_tombstone := True\<rparr>, [])" by code_simp+
  have huge: "read_head ?huge = Inr (?h\<lparr>h_count := 0xFFFFFFFFFFFFFFFF\<rparr>, [])" by code_simp
  have "\<not> oversized ?kid" by (subst oversized.simps) (simp add: kid id)
  then have "\<not> oversized ?a" by (subst oversized.simps) (simp add: a MAX_ENTRIES_def)
  moreover have "\<not> oversized [1]" by (subst oversized.simps) (simp add: b id)
  then have "\<not> oversized ?b" by (subst oversized.simps) (simp add: b MAX_ENTRIES_def)
  ultimately show ?thesis
    using stream_outcomes [of ?a ?b "[]"] stream_outcomes [of ?huge ID_BYTES "[]"]
    by (simp add: huge id MAX_ENTRIES_def)
qed

end
