(* ===== verification/Sud_Wire.thy ===== *)
theory Sud_Wire
  imports Wire_Value
begin

text \<open>
  The process trace of \<open>engine/src/sudwire.rs\<close>: events with seven delta-encoded scalars per stream,
  and the incremental decoder the engine feeds with whatever a pipe delivers. An \<open>i64\<close> is a 64-bit
  word; additions and subtractions wrap, as they do in a release build. A \<open>HashMap\<close> is a map. The
  wait-status macros of the \<open>libc\<close> crate are the parameter \<open>wait_ops\<close>. Diagnostics written to
  standard error are left out.
\<close>

section \<open>Encoder\<close>

type_synonym i64 = u64

definition TRACE_VERSION :: u64 where "TRACE_VERSION = 3"
definition EV_EXIT :: i64 where "EV_EXIT = 4"
definition EV_EXIT_EXITED :: i64 where "EV_EXIT_EXITED = 0"
definition EV_EXIT_SIGNALED :: i64 where "EV_EXIT_SIGNALED = 1"

definition version_atom :: "wire_error + bytes" where
  "version_atom = put_u64 [] TRACE_VERSION"

record ev_state =
  st_ty :: i64
  st_ts_ns :: i64
  st_pid :: i64
  st_tgid :: i64
  st_ppid :: i64
  st_nspid :: i64
  st_nstgid :: i64

definition ev_default :: ev_state where
  "ev_default = \<lparr>st_ty = 0, st_ts_ns = 0, st_pid = 0, st_tgid = 0, st_ppid = 0, st_nspid = 0, st_nstgid = 0\<rparr>"

fun put_i64s :: "bytes \<Rightarrow> i64 list \<Rightarrow> wire_error + bytes" where
  "put_i64s out [] = Inr out"
| "put_i64s out (e # es) = res_bind (put_i64 out e) (\<lambda>out'. put_i64s out' es)"

text \<open>\<open>build_event\<close> takes the seven new scalars as the state they become. The \<open>expect\<close> on \<open>put_many\<close>
  panics when the event does not fit an atom.\<close>

definition build_event :: "ev_state \<Rightarrow> u32 \<Rightarrow> ev_state \<Rightarrow> i64 list \<Rightarrow> bytes \<Rightarrow> wire_error + (bytes \<times> ev_state)" where
  "build_event st stream_id new extras blob =
     res_bind (put_u64 [] (ucast stream_id)) (\<lambda>h0.
     res_bind (put_i64 h0 (st_ty new - st_ty st)) (\<lambda>h1.
     res_bind (put_i64 h1 (st_ts_ns new - st_ts_ns st)) (\<lambda>h2.
     res_bind (put_i64 h2 (st_pid new - st_pid st)) (\<lambda>h3.
     res_bind (put_i64 h3 (st_tgid new - st_tgid st)) (\<lambda>h4.
     res_bind (put_i64 h4 (st_ppid new - st_ppid st)) (\<lambda>h5.
     res_bind (put_i64 h5 (st_nspid new - st_nspid st)) (\<lambda>h6.
     res_bind (put_i64 h6 (st_nstgid new - st_nstgid st)) (\<lambda>h7.
     res_bind (put_i64s h7 extras) (\<lambda>hdr.
       case put_many [] [hdr, blob] of
         Inl _ \<Rightarrow> Inl ExpectPanic
       | Inr out \<Rightarrow> Inr (out, new))))))))))"

record wait_ops =
  wifexited :: "u32 \<Rightarrow> bool"
  wexitstatus :: "u32 \<Rightarrow> u32"
  wifsignaled :: "u32 \<Rightarrow> bool"
  wtermsig :: "u32 \<Rightarrow> u32"
  wcoredump :: "u32 \<Rightarrow> bool"

definition exit_extras :: "wait_ops \<Rightarrow> u32 \<Rightarrow> i64 list" where
  "exit_extras w wstatus =
     (if wifexited w wstatus then [EV_EXIT_EXITED, scast (wexitstatus w wstatus), 0, scast wstatus]
      else if wifsignaled w wstatus
      then [EV_EXIT_SIGNALED, scast (wtermsig w wstatus), (if wcoredump w wstatus then 1 else 0), scast wstatus]
      else [EV_EXIT_EXITED, 0, 0, scast wstatus])"

definition build_exit :: "wait_ops \<Rightarrow> ev_state \<Rightarrow> u32 \<Rightarrow> i64 \<Rightarrow> i64 \<Rightarrow> i64 \<Rightarrow> i64 \<Rightarrow> u32
    \<Rightarrow> wire_error + (bytes \<times> ev_state)" where
  "build_exit w st stream_id ts_ns pid tgid ppid wstatus =
     build_event st stream_id
       \<lparr>st_ty = EV_EXIT, st_ts_ns = ts_ns, st_pid = pid, st_tgid = tgid, st_ppid = ppid,
        st_nspid = pid, st_nstgid = tgid\<rparr>
       (exit_extras w wstatus) []"

section \<open>Decoder\<close>

record event =
  ev_ty :: i64
  ev_ts_ns :: i64
  ev_pid :: u32
  ev_tgid :: u32
  ev_ppid :: u32
  ev_extras :: "i64 list"
  ev_blob :: bytes

record decoder =
  d_buf :: bytes
  d_states :: "u32 \<rightharpoonup> ev_state"
  d_versioned :: bool
  d_poisoned :: bool

definition decoder_default :: decoder where
  "decoder_default = \<lparr>d_buf = [], d_states = Map.empty, d_versioned = False, d_poisoned = False\<rparr>"

definition poison :: "decoder \<Rightarrow> decoder" where
  "poison d = d\<lparr>d_poisoned := True\<rparr>"

definition MAX_TRACE_ATOM :: nat where
  "MAX_TRACE_ATOM = 64 * 1024 * 1024"

definition take_atom :: "bytes \<Rightarrow> (bytes \<times> bytes) option" where
  "take_atom src = (case get_atom src MAX_TRACE_ATOM of Inl _ \<Rightarrow> None | Inr x \<Rightarrow> Some x)"

definition take_u64 :: "bytes \<Rightarrow> (u64 \<times> bytes) option" where
  "take_u64 src = (case get_u64 src of Inl _ \<Rightarrow> None | Inr x \<Rightarrow> Some x)"

definition take_i64 :: "bytes \<Rightarrow> (i64 \<times> bytes) option" where
  "take_i64 src = (case get_i64 src of Inl _ \<Rightarrow> None | Inr x \<Rightarrow> Some x)"

text \<open>The seven statements \<open>st.f += take_i64(&mut hdr)?\<close>, in order; a failing one keeps the earlier
  updates of the state.\<close>

definition delta_fields :: "((i64 \<Rightarrow> i64) \<Rightarrow> ev_state \<Rightarrow> ev_state) list" where
  "delta_fields = [st_ty_update, st_ts_ns_update, st_pid_update, st_tgid_update, st_ppid_update,
     st_nspid_update, st_nstgid_update]"

fun apply_deltas :: "((i64 \<Rightarrow> i64) \<Rightarrow> ev_state \<Rightarrow> ev_state) list \<Rightarrow> ev_state \<Rightarrow> bytes \<Rightarrow> ev_state \<times> bytes option" where
  "apply_deltas [] st hdr = (st, Some hdr)"
| "apply_deltas (f # fs) st hdr =
     (case take_i64 hdr of
        None \<Rightarrow> (st, None)
      | Some (d, hdr') \<Rightarrow> apply_deltas fs (f (\<lambda>x. x + d) st) hdr')"

lemma take_i64_progress: "take_i64 hdr = Some (e, hdr') \<Longrightarrow> length hdr' < length hdr"
  by (auto simp: take_i64_def dest: get_i64_progress split: sum.splits)

function read_extras :: "bytes \<Rightarrow> i64 list option" where
  "read_extras hdr =
     (if hdr = [] then Some []
      else case take_i64 hdr of
          None \<Rightarrow> None
        | Some (e, hdr') \<Rightarrow> map_option ((#) e) (read_extras hdr'))"
  by pat_completeness auto
termination
  by (relation "measure length") (auto dest: take_i64_progress)

declare read_extras.simps [simp del]

definition decode_event :: "(u32 \<rightharpoonup> ev_state) \<Rightarrow> bytes \<Rightarrow> (u32 \<rightharpoonup> ev_state) \<times> event option" where
  "decode_event states payload =
     (case take_atom payload of
        None \<Rightarrow> (states, None)
      | Some (hdr0, p1) \<Rightarrow>
     (case take_atom p1 of
        None \<Rightarrow> (states, None)
      | Some (blob, _) \<Rightarrow>
     (case take_u64 hdr0 of
        None \<Rightarrow> (states, None)
      | Some (sid64, hdr1) \<Rightarrow>
          let sid = ucast sid64;
              st0 = (case states sid of None \<Rightarrow> ev_default | Some st \<Rightarrow> st)
          in case apply_deltas delta_fields st0 hdr1 of
               (st, None) \<Rightarrow> (states(sid \<mapsto> st), None)
             | (st, Some hdr2) \<Rightarrow>
                 (states(sid \<mapsto> st),
                  map_option (\<lambda>extras.
                    \<lparr>ev_ty = st_ty st, ev_ts_ns = st_ts_ns st, ev_pid = ucast (st_pid st),
                     ev_tgid = ucast (st_tgid st), ev_ppid = ucast (st_ppid st),
                     ev_extras = extras, ev_blob = blob\<rparr>) (read_extras hdr2)))))"

function feed_loop :: "decoder \<Rightarrow> event list \<Rightarrow> bytes \<Rightarrow> decoder \<times> event list" where
  "feed_loop d out source =
     (case get_atom source MAX_TRACE_ATOM of
        Inr (payload, remaining) \<Rightarrow>
          if \<not> d_versioned d then
            let v = (case u64_from_payload payload of Inl _ \<Rightarrow> - 1 | Inr v \<Rightarrow> v) in
            if v \<noteq> TRACE_VERSION then (poison d, out)
            else feed_loop (d\<lparr>d_versioned := True\<rparr>) out remaining
          else (case decode_event (d_states d) payload of
              (states, Some ev) \<Rightarrow> feed_loop (d\<lparr>d_states := states\<rparr>) (out @ [ev]) remaining
            | (states, None) \<Rightarrow> ((poison d)\<lparr>d_states := states, d_buf := []\<rparr>, out))
      | Inl Truncated \<Rightarrow> (d\<lparr>d_buf := source\<rparr>, out)
      | Inl _ \<Rightarrow> ((poison d)\<lparr>d_buf := []\<rparr>, out))"
  by pat_completeness auto
termination
  by (relation "measure (\<lambda>(_, _, source). length source)") (auto dest: get_atom_progress)

declare feed_loop.simps [simp del]

definition feed :: "decoder \<Rightarrow> bytes \<Rightarrow> decoder \<times> event list" where
  "feed d bytes =
     (if d_poisoned d then (d, [])
      else let buf = d_buf d @ bytes in feed_loop (d\<lparr>d_buf := buf\<rparr>) [] buf)"

fun feed_all :: "decoder \<Rightarrow> bytes list \<Rightarrow> decoder \<times> event list" where
  "feed_all d [] = (d, [])"
| "feed_all d (chunk # chunks) =
     (let (d1, evs) = feed d chunk; (d2, evs') = feed_all d1 chunks in (d2, evs @ evs'))"

section \<open>More input\<close>

lemma get_atom_more_res:
  assumes "get_atom source m \<noteq> Inl Truncated"
  shows "get_atom (source @ t) m = map_sum id (map_prod id (\<lambda>rest. rest @ t)) (get_atom source m)"
proof -
  obtain tag src where s: "source = tag # src" using assms by (cases source) (auto simp: get_atom_def)
  consider "tag < 0xc0" | "\<not> tag < 0xc0" "tag < 0xf8" | "\<not> tag < 0xf8" by blast
  then show ?thesis
  proof cases
    case 3
    then have c: "\<not> tag < 0xc0" by (auto simp: word_less_nat_alt)
    define n where "n = unat (tag - 0xf8)"
    have n: "n \<le> length src"
      by (rule ccontr) (use assms s c 3 in \<open>simp add: get_atom_def n_def [symmetric]\<close>)
    obtain x where x: "read_length 0 0 (take n src) = x" by simp
    show ?thesis using assms s c 3 n x
      by (cases x) (auto simp: get_atom_def n_def [symmetric] Let_def checked_add_def split: if_splits)
  next
    case 2
    define n where "n = unat (tag - 0xc0)"
    show ?thesis using assms s 2
      by (auto simp: get_atom_def n_def [symmetric] checked_add_def split: if_splits)
  qed (simp add: s get_atom_def)
qed

lemma get_atom_more:
  "get_atom source m = Inr (p, rest) \<Longrightarrow> get_atom (source @ t) m = Inr (p, rest @ t)"
  "get_atom source m = Inl e \<Longrightarrow> e \<noteq> Truncated \<Longrightarrow> get_atom (source @ t) m = Inl e"
  using get_atom_more_res [of source m t] by auto

text \<open>The loop on a prefix of the input, then on what it left with the rest: the same as the loop on
  the whole, up to the buffer a refused version leaves behind.\<close>

definition same_decoder :: "decoder \<Rightarrow> decoder \<Rightarrow> bool" where
  "same_decoder d d' \<longleftrightarrow> d\<lparr>d_buf := []\<rparr> = d'\<lparr>d_buf := []\<rparr> \<and> (d_poisoned d \<or> d_buf d = d_buf d')"

lemma feed_loop_stop:
  "get_atom source MAX_TRACE_ATOM = Inl Truncated \<Longrightarrow> feed_loop d out source = (d\<lparr>d_buf := source\<rparr>, out)"
  "get_atom source MAX_TRACE_ATOM = Inl e \<Longrightarrow> e \<noteq> Truncated
    \<Longrightarrow> feed_loop d out source = ((poison d)\<lparr>d_buf := []\<rparr>, out)"
   apply (simp add: feed_loop.simps)
  apply (cases e; simp add: feed_loop.simps)
  done

text \<open>What one complete atom does: the decoder it leaves, the events it adds and whether the loop goes on.\<close>

definition atom_step :: "decoder \<Rightarrow> bytes \<Rightarrow> decoder \<times> event list \<times> bool" where
  "atom_step d payload =
     (if \<not> d_versioned d then
        if (case u64_from_payload payload of Inl _ \<Rightarrow> - 1 | Inr v \<Rightarrow> v) \<noteq> TRACE_VERSION then (poison d, [], False)
        else (d\<lparr>d_versioned := True\<rparr>, [], True)
      else (case decode_event (d_states d) payload of
          (states, Some ev) \<Rightarrow> (d\<lparr>d_states := states\<rparr>, [ev], True)
        | (states, None) \<Rightarrow> ((poison d)\<lparr>d_states := states, d_buf := []\<rparr>, [], False)))"

lemma feed_loop_atom:
  assumes "get_atom source MAX_TRACE_ATOM = Inr (p, rest)" and "atom_step d p = (d', evs, go)"
  shows "feed_loop d out source = (if go then feed_loop d' (out @ evs) rest else (d', out @ evs))"
  using assms
  by (subst feed_loop.simps) (auto simp: atom_step_def Let_def split: if_splits prod.splits option.splits)

lemma feed_loop_cases:
  obtains "get_atom source MAX_TRACE_ATOM = Inl Truncated"
  | e where "get_atom source MAX_TRACE_ATOM = Inl e" "e \<noteq> Truncated"
  | p rest d' evs go where "get_atom source MAX_TRACE_ATOM = Inr (p, rest)" "atom_step d p = (d', evs, go)"
proof (cases "get_atom source MAX_TRACE_ATOM")
  case (Inr x)
  then show thesis using that(3) by (cases x; cases "atom_step d (fst x)") auto
qed (use that in blast)

lemma feed_loop_out: "feed_loop d out source = (fst (feed_loop d [] source), out @ snd (feed_loop d [] source))"
proof (induction "length source" arbitrary: d out source rule: less_induct)
  case less
  show ?case
  proof (cases rule: feed_loop_cases [of source _ d])
    case (3 p rest d' evs go)
    have l: "length rest < length source" using get_atom_progress [OF 3(1)] .
    show ?thesis
      using less [OF l, of d' "out @ evs"] less [OF l, of d' evs]
      by (simp add: feed_loop_atom [OF 3])
  qed (simp_all add: feed_loop_stop)
qed

lemma atom_step_go:
  "atom_step d p = (d', evs, True) \<Longrightarrow>
   atom_step (d\<lparr>d_buf := b\<rparr>) p = (d'\<lparr>d_buf := b\<rparr>, evs, True) \<and> d_poisoned d' = d_poisoned d"
  by (cases d) (auto simp: atom_step_def split: if_splits prod.splits option.splits)

lemma atom_step_stop:
  "atom_step d p = (d', evs, False) \<Longrightarrow>
   \<exists>d''. atom_step (d\<lparr>d_buf := b\<rparr>) p = (d'', evs, False) \<and> same_decoder d' d'' \<and> d_poisoned d'"
  by (cases d) (auto simp: atom_step_def same_decoder_def poison_def split: if_splits prod.splits option.splits)

definition same_run :: "decoder \<times> event list \<Rightarrow> decoder \<times> event list \<Rightarrow> bool" where
  "same_run r r' \<longleftrightarrow> same_decoder (fst r) (fst r') \<and> snd r = snd r'"

lemma same_decoder_poisoned: "same_decoder d d' \<Longrightarrow> d_poisoned d = d_poisoned d'"
  by (cases d; cases d') (simp add: same_decoder_def)

lemma same_decoder_trans: "same_decoder d d' \<Longrightarrow> same_decoder d' d'' \<Longrightarrow> same_decoder d d''"
  by (cases d; cases d'; cases d'') (auto simp: same_decoder_def)

lemma same_decoder_refl: "same_decoder d d"
  by (simp add: same_decoder_def)

text \<open>Two feeds, one after the other.\<close>

definition feed2 :: "decoder \<times> event list \<Rightarrow> bytes \<Rightarrow> decoder \<times> event list" where
  "feed2 r ys = (fst (feed (fst r) ys), snd r @ snd (feed (fst r) ys))"

lemma feed_poisoned: "d_poisoned d \<Longrightarrow> feed d ys = (d, [])"
  by (simp add: feed_def)

lemma feed_loop_buf:
  "same_run (feed_loop (d\<lparr>d_buf := b\<rparr>) out source) (feed_loop (d\<lparr>d_buf := b'\<rparr>) out source)"
proof (induction "length source" arbitrary: d out source rule: less_induct)
  case less
  show ?case
  proof (cases rule: feed_loop_cases [of source _ "d\<lparr>d_buf := b\<rparr>"])
    case (3 p rest d' evs go)
    show ?thesis
    proof (cases go)
      case True
      with atom_step_go [of "d\<lparr>d_buf := b\<rparr>" p d' evs b'] atom_step_go [of "d\<lparr>d_buf := b\<rparr>" p d' evs b] 3
      have "atom_step (d\<lparr>d_buf := b'\<rparr>) p = (d'\<lparr>d_buf := b'\<rparr>, evs, True)" and d': "d' = d'\<lparr>d_buf := b\<rparr>" by simp_all
      then show ?thesis
        using less [OF get_atom_progress [OF 3(1)], of d' "out @ evs"] feed_loop_atom [OF 3, of out] True
          feed_loop_atom [OF 3(1), of "d\<lparr>d_buf := b'\<rparr>" _ _ _ out]
        by simp
    next
      case False
      with atom_step_stop [of "d\<lparr>d_buf := b\<rparr>" p d' evs b'] 3 obtain d''
        where "atom_step (d\<lparr>d_buf := b'\<rparr>) p = (d'', evs, False)" "same_decoder d' d''" by auto
      then show ?thesis
        using feed_loop_atom [OF 3, of out] feed_loop_atom [OF 3(1), of "d\<lparr>d_buf := b'\<rparr>" _ _ _ out] False
        by (simp add: same_run_def)
    qed
  qed (simp_all add: feed_loop_stop same_run_def same_decoder_def poison_def)
qed

lemma feed_loop_split:
  assumes "\<not> d_poisoned d"
  shows "same_run (feed_loop d [] (xs @ ys)) (feed2 (feed_loop d [] xs) ys)"
  using assms
proof (induction "length xs" arbitrary: d xs rule: less_induct)
  case less
  show ?case
  proof (cases rule: feed_loop_cases [of xs _ d])
    case 1
    then show ?thesis
      using less.prems feed_loop_buf [where d = d and b = "d_buf d" and b' = "xs @ ys" and out = "[]" and source = "xs @ ys"]
      by (simp add: feed_loop_stop feed2_def feed_def Let_def)
  next
    case (2 e)
    then show ?thesis
      by (simp add: feed_loop_stop get_atom_more feed2_def feed_poisoned poison_def same_run_def same_decoder_refl)
  next
    case (3 p rest d' evs go)
    note more = get_atom_more(1) [OF 3(1), of ys]
    show ?thesis
    proof (cases go)
      case True
      then have "\<not> d_poisoned d'" using atom_step_go [of d p d' evs] 3 less.prems by auto
      from less.hyps [OF get_atom_progress [OF 3(1)] this]
      show ?thesis using True
        by (simp add: feed_loop_atom [OF 3] feed_loop_atom [OF more 3(2)] feed2_def same_run_def
            feed_loop_out [of d' evs])
    next
      case False
      then have "d_poisoned d'" using atom_step_stop [of d p d' evs] 3 by auto
      then show ?thesis using False
        by (simp add: feed_loop_atom [OF 3] feed_loop_atom [OF more 3(2)] feed2_def feed_poisoned
            same_run_def same_decoder_refl)
    qed
  qed
qed

lemma feed_split: "same_run (feed d (xs @ ys)) (feed2 (feed d xs) ys)"
proof (cases "d_poisoned d")
  case False
  have "same_run (feed_loop (d\<lparr>d_buf := d_buf d @ xs @ ys\<rparr>) [] (d_buf d @ xs @ ys))
      (feed_loop (d\<lparr>d_buf := d_buf d @ xs\<rparr>) [] (d_buf d @ xs @ ys))"
    by (rule feed_loop_buf)
  moreover have "same_run (feed_loop (d\<lparr>d_buf := d_buf d @ xs\<rparr>) [] ((d_buf d @ xs) @ ys))
      (feed2 (feed_loop (d\<lparr>d_buf := d_buf d @ xs\<rparr>) [] (d_buf d @ xs)) ys)"
    by (rule feed_loop_split) (use False in simp)
  ultimately show ?thesis using False
    by (auto simp: feed_def same_run_def Let_def intro: same_decoder_trans)
qed (simp add: feed_poisoned feed2_def same_run_def same_decoder_refl)

text \<open>Between feeds the buffer holds no complete atom.\<close>

definition drained :: "decoder \<Rightarrow> bool" where
  "drained d \<longleftrightarrow> d_poisoned d \<or> get_atom (d_buf d) MAX_TRACE_ATOM = Inl Truncated"

lemma feed_loop_drained: "drained (fst (feed_loop d out source))"
proof (induction "length source" arbitrary: d out source rule: less_induct)
  case less
  show ?case
  proof (cases rule: feed_loop_cases [of source _ d])
    case (3 p rest d' evs go)
    show ?thesis
    proof (cases go)
      case True
      then show ?thesis using less [OF get_atom_progress [OF 3(1)]] by (simp add: feed_loop_atom [OF 3])
    next
      case False
      then show ?thesis using atom_step_stop [of d p d' evs] 3 by (auto simp: feed_loop_atom [OF 3] drained_def)
    qed
  qed (simp_all add: feed_loop_stop drained_def poison_def)
qed

lemma feed_drained: "drained (fst (feed d xs))"
  by (auto simp: feed_def Let_def feed_loop_drained) (simp add: drained_def)

lemma feed_nothing: "drained d \<Longrightarrow> feed d [] = (d, [])"
  by (cases d) (auto simp: drained_def feed_def feed_loop_stop)

lemma feed_all_concat: "drained d \<Longrightarrow> same_run (feed d (concat chunks)) (feed_all d chunks)"
proof (induction chunks arbitrary: d)
  case (Cons c cs)
  have "same_run (feed d (c @ concat cs)) (feed2 (feed d c) (concat cs))" by (rule feed_split)
  moreover have "same_run (feed (fst (feed d c)) (concat cs)) (feed_all (fst (feed d c)) cs)"
    by (rule Cons.IH [OF feed_drained])
  ultimately show ?case
    by (auto simp: same_run_def feed2_def split: prod.splits intro: same_decoder_trans)
qed (simp add: feed_nothing same_run_def same_decoder_refl)

lemma drained_default: "drained decoder_default"
  by (simp add: drained_def decoder_default_def get_atom_def)

text \<open>C23: How a pipe cuts the trace does not matter. On any bytes, well formed or not, the chunks fed one
  by one to a new decoder give the events that all of them give at once; the delta states, the version
  flag and the poisoned flag end the same, and so does the buffer unless the stream was refused.\<close>

theorem feed_chunk_independent:
  "let (d, evs) = feed_all decoder_default chunks; (d', evs') = feed decoder_default (concat chunks)
   in evs = evs' \<and> d_states d = d_states d' \<and> d_versioned d = d_versioned d' \<and>
      d_poisoned d = d_poisoned d' \<and> (d_poisoned d \<or> d_buf d = d_buf d')"
proof -
  obtain d evs d' evs' where r: "feed_all decoder_default chunks = (d, evs)"
      "feed decoder_default (concat chunks) = (d', evs')" by fastforce
  then show ?thesis
    using feed_all_concat [OF drained_default, of chunks]
    by (cases d; cases d') (auto simp: same_run_def same_decoder_def)
qed

section \<open>Round trip\<close>

type_synonym trace_item = "u32 \<times> ev_state \<times> i64 list \<times> bytes"

text \<open>A writer with one \<open>ev_state\<close> per stream, the streams interleaved as they come.\<close>

definition stream_state :: "(u32 \<rightharpoonup> ev_state) \<Rightarrow> u32 \<Rightarrow> ev_state" where
  "stream_state states sid = (case states sid of None \<Rightarrow> ev_default | Some st \<Rightarrow> st)"

fun build_trace :: "(u32 \<rightharpoonup> ev_state) \<Rightarrow> trace_item list \<Rightarrow> wire_error + bytes" where
  "build_trace states [] = Inr []"
| "build_trace states ((sid, new, extras, blob) # items) =
     res_bind (build_event (stream_state states sid) sid new extras blob) (\<lambda>(out, st).
     res_bind (build_trace (states(sid \<mapsto> st)) items) (\<lambda>rest. Inr (out @ rest)))"

fun event_of :: "trace_item \<Rightarrow> event" where
  "event_of (sid, new, extras, blob) =
     \<lparr>ev_ty = st_ty new, ev_ts_ns = st_ts_ns new, ev_pid = ucast (st_pid new), ev_tgid = ucast (st_tgid new),
      ev_ppid = ucast (st_ppid new), ev_extras = extras, ev_blob = blob\<rparr>"

fun item_fits :: "trace_item \<Rightarrow> bool" where
  "item_fits (sid, new, extras, blob) \<longleftrightarrow> 9 * (8 + length extras) + length blob + 16 \<le> MAX_TRACE_ATOM"

abbreviation enc_i64 :: "i64 \<Rightarrow> bytes" where
  "enc_i64 v \<equiv> enc_u64 (zigzag v)"

definition ev_header :: "ev_state \<Rightarrow> u32 \<Rightarrow> ev_state \<Rightarrow> i64 list \<Rightarrow> bytes" where
  "ev_header st sid new extras = enc_u64 (ucast sid) @ enc_i64 (st_ty new - st_ty st)
     @ enc_i64 (st_ts_ns new - st_ts_ns st) @ enc_i64 (st_pid new - st_pid st)
     @ enc_i64 (st_tgid new - st_tgid st) @ enc_i64 (st_ppid new - st_ppid st)
     @ enc_i64 (st_nspid new - st_nspid st) @ enc_i64 (st_nstgid new - st_nstgid st)
     @ concat (map enc_i64 extras)"

lemma put_i64s_eq: "put_i64s out es = Inr (out @ concat (map enc_i64 es))"
  by (induction es arbitrary: out) (simp_all add: put_i64_ok)

lemma length_enc_u64: "length (enc_u64 v) \<le> 9"
proof -
  have "length (u64_le_bytes v) \<le> 55" by (rule le_trans [OF length_u64_le_bytes]) simp
  then show ?thesis by (simp add: enc_atom_def len_prefix_def)
qed

lemma take_i64_enc: "take_i64 (enc_i64 v @ rest) = Some (v, rest)"
  by (simp add: take_i64_def get_i64_enc)

lemma read_extras_enc: "read_extras (concat (map enc_i64 es)) = Some es"
proof (induction es)
  case (Cons e es)
  have "enc_i64 e @ concat (map enc_i64 es) \<noteq> []"
    using take_i64_progress [OF take_i64_enc [of e "concat (map enc_i64 es)"]] by (auto simp del: append_is_Nil_conv)
  then show ?case using Cons by (subst read_extras.simps) (simp add: take_i64_enc del: append_is_Nil_conv)
qed (simp add: read_extras.simps)

lemma length_ev_header: "length (ev_header st sid new extras) \<le> 9 * (8 + length extras)"
proof -
  have "length (concat (map enc_i64 extras)) \<le> 9 * length extras"
    by (induction extras) (simp, use length_enc_u64 in \<open>fastforce intro: add_mono\<close>)
  then show ?thesis
    using length_enc_u64 [of "ucast sid"] length_enc_u64 [of "zigzag (st_ty new - st_ty st)"]
      length_enc_u64 [of "zigzag (st_ts_ns new - st_ts_ns st)"] length_enc_u64 [of "zigzag (st_pid new - st_pid st)"]
      length_enc_u64 [of "zigzag (st_tgid new - st_tgid st)"] length_enc_u64 [of "zigzag (st_ppid new - st_ppid st)"]
      length_enc_u64 [of "zigzag (st_nspid new - st_nspid st)"] length_enc_u64 [of "zigzag (st_nstgid new - st_nstgid st)"]
    unfolding ev_header_def length_append by arith
qed

lemma blob_size:
  "item_fits (sid, new, extras, blob) \<Longrightarrow> length blob < 2 ^ 56 \<and> length blob \<le> MAX_TRACE_ATOM"
  by (simp add: MAX_TRACE_ATOM_def)

lemma item_sizes:
  fixes st :: ev_state
  assumes "item_fits (sid, new, extras, blob)"
  defines "hdr \<equiv> ev_header st sid new extras"
  shows "length hdr < 2 ^ 56" "length hdr \<le> MAX_TRACE_ATOM" "length (enc_atom hdr @ enc_atom blob) \<le> MAX_TRACE_ATOM" "length (enc_atom hdr @ enc_atom blob) < 2 ^ 56"
proof -
  have h: "length hdr + length blob + 16 \<le> MAX_TRACE_ATOM"
    using assms(1) length_ev_header [of st sid new extras] by (simp add: hdr_def)
  then show *: "length hdr < 2 ^ 56" "length hdr \<le> MAX_TRACE_ATOM"
    by (simp_all add: MAX_TRACE_ATOM_def)
  have "length (enc_atom hdr) \<le> 8 + length hdr" "length (enc_atom blob) \<le> 8 + length blob"
    using length_enc_atom_le [of hdr 7] length_enc_atom_le [of blob 7] * blob_size [OF assms(1)] by simp_all
  then show m: "length (enc_atom hdr @ enc_atom blob) \<le> MAX_TRACE_ATOM" using h by simp
  then show "length (enc_atom hdr @ enc_atom blob) < 2 ^ 56" by (simp add: MAX_TRACE_ATOM_def)
qed

definition ev_body :: "ev_state \<Rightarrow> trace_item \<Rightarrow> bytes" where
  "ev_body st item = (case item of (sid, new, extras, blob) \<Rightarrow> enc_atom (ev_header st sid new extras) @ enc_atom blob)"

lemma build_event_ok:
  assumes "item_fits (sid, new, extras, blob)"
  shows "build_event st sid new extras blob =
    Inr (len_prefix (length (ev_body st (sid, new, extras, blob))) @ ev_body st (sid, new, extras, blob), new)"
proof -
  have h: "res_bind (put_i64s (enc_u64 (ucast sid) @ enc_i64 (st_ty new - st_ty st)
     @ enc_i64 (st_ts_ns new - st_ts_ns st) @ enc_i64 (st_pid new - st_pid st)
     @ enc_i64 (st_tgid new - st_tgid st) @ enc_i64 (st_ppid new - st_ppid st)
     @ enc_i64 (st_nspid new - st_nspid st) @ enc_i64 (st_nstgid new - st_nstgid st)) extras) F
     = F (ev_header st sid new extras)" for F :: "bytes \<Rightarrow> wire_error + (bytes \<times> ev_state)"
    by (simp add: put_i64s_eq ev_header_def)
  have p: "put_many [] [ev_header st sid new extras, blob] =
      Inr (len_prefix (length (ev_body st (sid, new, extras, blob))) @ ev_body st (sid, new, extras, blob))"
    using put_many_eq [of "[ev_header st sid new extras, blob]" "[]"] item_sizes [OF assms, where st = st] blob_size [OF assms]
    by (simp add: ev_body_def)
  show ?thesis
    by (simp only: build_event_def put_u64_ok put_i64_ok res_bind_Inr append_Nil append_assoc h p sum.case)
qed

lemma apply_deltas_enc:
  "apply_deltas delta_fields st
     (enc_i64 (st_ty new - st_ty st) @ enc_i64 (st_ts_ns new - st_ts_ns st) @ enc_i64 (st_pid new - st_pid st)
     @ enc_i64 (st_tgid new - st_tgid st) @ enc_i64 (st_ppid new - st_ppid st)
     @ enc_i64 (st_nspid new - st_nspid st) @ enc_i64 (st_nstgid new - st_nstgid st) @ rest) = (new, Some rest)"
  by (cases new; cases st) (simp add: delta_fields_def take_i64_enc)

lemma decode_event_ok:
  assumes "item_fits (sid, new, extras, blob)"
  shows "decode_event states (ev_body (stream_state states sid) (sid, new, extras, blob)) =
    (states(sid \<mapsto> new), Some (event_of (sid, new, extras, blob)))"
proof -
  let ?st = "stream_state states sid"
  note sz = item_sizes [OF assms, where st = ?st] blob_size [OF assms]
  have hdr: "take_atom (enc_atom (ev_header ?st sid new extras) @ rest) = Some (ev_header ?st sid new extras, rest)" for rest
    using sz by (simp add: take_atom_def get_atom_enc_atom)
  have blob: "take_atom (enc_atom blob) = Some (blob, [])"
    using sz get_atom_enc_atom [of blob "[]" MAX_TRACE_ATOM] by (simp add: take_atom_def)
  have sid: "take_u64 (enc_u64 v @ rest) = Some (v, rest)" for v rest
    by (simp add: take_u64_def get_u64_enc)
  have deltas: "apply_deltas delta_fields ?st (drop (length (enc_u64 (ucast sid :: u64))) (ev_header ?st sid new extras))
      = (new, Some (concat (map enc_i64 extras)))"
    unfolding ev_header_def append_eq_conv_conj by (simp add: apply_deltas_enc)
  have split: "ev_header ?st sid new extras =
      enc_u64 (ucast sid) @ drop (length (enc_u64 (ucast sid :: u64))) (ev_header ?st sid new extras)"
    by (simp add: ev_header_def)
  have u: "take_u64 (ev_header ?st sid new extras) =
      Some (ucast sid, drop (length (enc_u64 (ucast sid :: u64))) (ev_header ?st sid new extras))"
    by (subst split) (rule sid)
  have "ucast (ucast sid :: u64) = sid" by (rule bit_word_eqI) (simp add: bit_ucast_iff)
  then show ?thesis
    by (simp add: decode_event_def ev_body_def hdr blob u Let_def stream_state_def [symmetric] deltas read_extras_enc)
qed

lemma feed_loop_trace:
  assumes "\<forall>item \<in> set items. item_fits item" and "d_versioned d"
  shows "\<exists>bytes states. build_trace (d_states d) items = Inr bytes \<and>
    feed_loop d out bytes = (d\<lparr>d_states := states, d_buf := []\<rparr>, out @ map event_of items)"
  using assms
proof (induction items arbitrary: d out)
  case Nil
  then show ?case by (cases d) (simp add: feed_loop_stop get_atom_def)
next
  case (Cons item items)
  obtain sid new extras blob where i: "item = (sid, new, extras, blob)" by (cases item)
  let ?st = "stream_state (d_states d) sid"
  have fits: "item_fits (sid, new, extras, blob)" using Cons.prems i by simp
  from Cons.IH [of "d\<lparr>d_states := (d_states d)(sid \<mapsto> new)\<rparr>" "out @ [event_of item]"] Cons.prems
  obtain rest states where r: "build_trace ((d_states d)(sid \<mapsto> new)) items = Inr rest"
    "feed_loop (d\<lparr>d_states := (d_states d)(sid \<mapsto> new)\<rparr>) (out @ [event_of item]) rest =
       (d\<lparr>d_states := states, d_buf := []\<rparr>, out @ event_of item # map event_of items)"
    by (auto simp del: fun_upd_apply)
  have g: "get_atom (len_prefix (length (ev_body ?st item)) @ ev_body ?st item @ rest) MAX_TRACE_ATOM = Inr (ev_body ?st item, rest)"
    using item_sizes [OF fits, where st = ?st] by (simp add: get_atom_explicit i ev_body_def)
  have a: "atom_step d (ev_body ?st item) = (d\<lparr>d_states := (d_states d)(sid \<mapsto> new)\<rparr>, [event_of item], True)"
    using Cons.prems decode_event_ok [OF fits, of "d_states d"] by (simp add: atom_step_def i)
  show ?case
    using feed_loop_atom [OF g a, of out] r build_event_ok [OF fits, of ?st] by (simp add: i) blast
qed

lemma feed_version:
  assumes "feed_loop (decoder_default\<lparr>d_buf := enc_u64 TRACE_VERSION @ bs, d_versioned := True\<rparr>) [] bs = r"
  shows "feed decoder_default (enc_u64 TRACE_VERSION @ bs) = r"
proof -
  let ?all = "enc_u64 TRACE_VERSION @ bs"
  have s: "length (u64_le_bytes TRACE_VERSION) \<le> MAX_TRACE_ATOM"
    by (rule le_trans [OF length_u64_le_bytes]) (simp add: MAX_TRACE_ATOM_def)
  have g: "get_atom ?all MAX_TRACE_ATOM = Inr (u64_le_bytes TRACE_VERSION, bs)"
    using get_atom_enc_atom [OF small_payload [OF length_u64_le_bytes], of TRACE_VERSION bs MAX_TRACE_ATOM] s by (simp add: not_less)
  have a: "atom_step (decoder_default\<lparr>d_buf := ?all\<rparr>) (u64_le_bytes TRACE_VERSION)
      = (decoder_default\<lparr>d_buf := ?all, d_versioned := True\<rparr>, [], True)"
    by (simp add: atom_step_def decoder_default_def u64_from_payload_le_val le_val_u64_le_bytes)
  show ?thesis using feed_loop_atom [OF g a, of "[]"] assms by (simp add: feed_def decoder_default_def)
qed

definition trace_bytes :: "trace_item list \<Rightarrow> wire_error + bytes" where
  "trace_bytes items = res_bind version_atom (\<lambda>v. res_bind (build_trace Map.empty items) (\<lambda>b. Inr (v @ b)))"

text \<open>C4: A trace survives its pipe. Take any interleaving of streams whose events fit an atom, each stream
  encoded by \<open>build_event\<close> from its own previous event behind one version atom. The encoder does not
  panic, and however the bytes are cut into chunks, the decoder returns exactly the events, in order,
  with the absolute scalars restored from the deltas (identifiers cut to 32 bits), and ends unpoisoned with
  an empty buffer.\<close>

theorem trace_roundtrip:
  assumes "\<forall>item \<in> set items. item_fits item"
  shows "\<exists>bytes. trace_bytes items = Inr bytes \<and>
    (\<forall>chunks. concat chunks = bytes \<longrightarrow>
      (let (d, evs) = feed_all decoder_default chunks
       in evs = map event_of items \<and> \<not> d_poisoned d \<and> d_buf d = []))"
proof -
  let ?d = "\<lambda>b. decoder_default\<lparr>d_buf := b, d_versioned := True\<rparr>"
  have v: "version_atom = Inr (enc_u64 TRACE_VERSION)" by (simp add: version_atom_def put_u64_ok)
  have ex: "\<exists>bytes states. build_trace Map.empty items = Inr bytes \<and>
      feed_loop (?d b) [] bytes = ((?d b)\<lparr>d_states := states, d_buf := []\<rparr>, map event_of items)" for b
    using feed_loop_trace [OF assms, of "?d b" "[]"] by (simp add: decoder_default_def)
  then obtain bs where bs: "build_trace Map.empty items = Inr bs" by blast
  then have run: "\<exists>states. feed_loop (?d b) [] bs = ((?d b)\<lparr>d_states := states, d_buf := []\<rparr>, map event_of items)" for b
    using ex [of b] by auto
  let ?all = "enc_u64 TRACE_VERSION @ bs"
  obtain states where f: "feed decoder_default ?all = ((?d ?all)\<lparr>d_states := states, d_buf := []\<rparr>, map event_of items)"
    using run [of ?all] feed_version by blast
  have "let (d, evs) = feed_all decoder_default chunks in evs = map event_of items \<and> \<not> d_poisoned d \<and> d_buf d = []"
    if "concat chunks = ?all" for chunks
  proof -
    obtain d evs where r: "feed_all decoder_default chunks = (d, evs)" by fastforce
    with feed_all_concat [OF drained_default, of chunks] f that
    have "same_decoder ((?d ?all)\<lparr>d_states := states, d_buf := []\<rparr>) d" "evs = map event_of items"
      by (simp_all add: same_run_def)
    then have "\<not> d_poisoned d \<and> d_buf d = []" by (cases d) (simp add: same_decoder_def decoder_default_def)
    then show ?thesis using r \<open>evs = _\<close> by simp
  qed
  then show ?thesis by (simp add: trace_bytes_def v bs)
qed

definition two_streams :: "trace_item list" where
  "two_streams =
     [(1, ev_default\<lparr>st_ty := EV_EXIT, st_pid := 300\<rparr>, [0, - 1], [7]),
      (2, ev_default\<lparr>st_ts_ns := 5\<rparr>, [], []),
      (1, ev_default\<lparr>st_pid := 299\<rparr>, [], [1, 2])]"

theorem trace_roundtrip_witness:
  "\<exists>bytes. trace_bytes two_streams = Inr bytes \<and>
    (\<forall>chunks. concat chunks = bytes \<longrightarrow>
      (let (d, evs) = feed_all decoder_default chunks
       in evs = map event_of two_streams \<and> \<not> d_poisoned d \<and> d_buf d = []))"
  by (rule trace_roundtrip) (simp add: two_streams_def MAX_TRACE_ATOM_def)

end
