(* ===== verification/Rust_Text.thy ===== *)
theory Rust_Text
  imports Sarun_Prelude "HOL-Library.Sublist"
begin

text \<open>
  The parts of Rust's \<open>char\<close> and \<open>str\<close> that the rule files use. A \<open>char\<close> is its Unicode scalar value,
  a natural number, and a string is the list of its characters.
\<close>

type_synonym rchar = nat
type_synonym rtext = "rchar list"

abbreviation ch :: "char \<Rightarrow> rchar" where
  "ch c \<equiv> of_char c"

abbreviation str :: "string \<Rightarrow> rtext" where
  "str s \<equiv> map of_char s"

text \<open>\<open>char::is_whitespace\<close>: the Unicode property White\_Space.\<close>

definition is_whitespace :: "rchar \<Rightarrow> bool" where
  "is_whitespace c \<longleftrightarrow>
     9 \<le> c \<and> c \<le> 13 \<or> c = 32 \<or> c = 0x85 \<or> c = 0xa0 \<or> c = 0x1680 \<or> 0x2000 \<le> c \<and> c \<le> 0x200a
     \<or> c = 0x2028 \<or> c = 0x2029 \<or> c = 0x202f \<or> c = 0x205f \<or> c = 0x3000"

definition ascii_lower_char :: "rchar \<Rightarrow> rchar" where
  "ascii_lower_char c = (if 65 \<le> c \<and> c \<le> 90 then c + 32 else c)"

definition to_ascii_lowercase :: "rtext \<Rightarrow> rtext" where
  "to_ascii_lowercase s = map ascii_lower_char s"

definition trim_start :: "rtext \<Rightarrow> rtext" where
  "trim_start s = dropWhile is_whitespace s"

definition trim :: "rtext \<Rightarrow> rtext" where
  "trim s = rev (trim_start (rev (trim_start s)))"

text \<open>\<open>split\<close> at every occurrence of a character, keeping empty pieces.\<close>

fun split_at :: "rchar \<Rightarrow> rtext \<Rightarrow> rtext list" where
  "split_at c [] = [[]]"
| "split_at c (x # xs) =
     (if x = c then [] # split_at c xs
      else case split_at c xs of [] \<Rightarrow> [[x]] | w # ws \<Rightarrow> (x # w) # ws)"

text \<open>\<open>split_whitespace\<close>: the maximal runs without white space.\<close>

fun words_go :: "rtext \<Rightarrow> rtext \<Rightarrow> rtext list" where
  "words_go cur [] = (if cur = [] then [] else [cur])"
| "words_go cur (x # xs) =
     (if is_whitespace x then (if cur = [] then words_go [] xs else cur # words_go [] xs)
      else words_go (cur @ [x]) xs)"

definition split_whitespace :: "rtext \<Rightarrow> rtext list" where
  "split_whitespace s = words_go [] s"

fun split_once :: "rchar \<Rightarrow> rtext \<Rightarrow> (rtext \<times> rtext) option" where
  "split_once c [] = None"
| "split_once c (x # xs) =
     (if x = c then Some ([], xs) else map_option (\<lambda>(a, b). (x # a, b)) (split_once c xs))"

text \<open>\<open>lines\<close>: the pieces ended by a line feed, each without it and without a carriage return before it;
  a last piece without a line feed is kept as it is unless it is empty.\<close>

fun lines_go :: "rtext list \<Rightarrow> rtext list" where
  "lines_go [] = []"
| "lines_go [w] = (if w = [] then [] else [w])"
| "lines_go (w # ws) = (if w \<noteq> [] \<and> last w = 13 then butlast w else w) # lines_go ws"

definition lines :: "rtext \<Rightarrow> rtext list" where
  "lines s = lines_go (split_at 10 s)"

definition join_with :: "rtext \<Rightarrow> rtext list \<Rightarrow> rtext" where
  "join_with sep ws = (case ws of [] \<Rightarrow> [] | w # rest \<Rightarrow> w @ concat (map (\<lambda>v. sep @ v) rest))"

text \<open>\<open>str::parse::<i64>\<close>: an optional sign and decimal digits, refused out of range.\<close>

definition is_digit :: "rchar \<Rightarrow> bool" where
  "is_digit c \<longleftrightarrow> 48 \<le> c \<and> c \<le> 57"

definition digits_value :: "rtext \<Rightarrow> int" where
  "digits_value ds = foldl (\<lambda>v d. 10 * v + (int d - 48)) 0 ds"

definition parse_i64 :: "rtext \<Rightarrow> int option" where
  "parse_i64 s =
     (let (neg, ds) = (case s of [] \<Rightarrow> (False, []) | c # cs \<Rightarrow>
            if c = ch CHR ''-'' then (True, cs) else if c = ch CHR ''+'' then (False, cs) else (False, s));
          v = (if neg then - digits_value ds else digits_value ds)
      in if ds = [] \<or> \<not> list_all is_digit ds then None
         else if v < - (2 ^ 63) \<or> 2 ^ 63 \<le> v then None
         else Some v)"

text \<open>\<open>xs[a..b]\<close> of a slice, for \<open>a \<le> b \<le> xs.len()\<close>.\<close>

definition slice :: "'a list \<Rightarrow> nat \<Rightarrow> nat \<Rightarrow> 'a list" where
  "slice xs a b = drop a (take b xs)"

lemma slice_drop: "a \<le> b \<Longrightarrow> slice xs a b = take (b - a) (drop a xs)"
  by (simp add: slice_def drop_take)

lemma length_slice [simp]: "length (slice xs a b) = min b (length xs) - a"
  by (simp add: slice_def)

lemma split_iff_slice:
  assumes "ti \<le> length t"
  shows "(\<exists>u v. drop ti t = u @ v \<and> P u \<and> Q v) \<longleftrightarrow>
    (\<exists>e. ti \<le> e \<and> e \<le> length t \<and> P (slice t ti e) \<and> Q (drop e t))"
proof
  assume "\<exists>u v. drop ti t = u @ v \<and> P u \<and> Q v"
  then obtain u v where uv: "drop ti t = u @ v" "P u" "Q v" by blast
  have l: "length t - ti = length u + length v" using arg_cong [OF uv(1), of length] by simp
  have u: "slice t ti (ti + length u) = u" by (simp add: slice_drop uv(1))
  have "drop (ti + length u) t = v" by (metis add.commute append_eq_conv_conj drop_drop uv(1))
  then show "\<exists>e. ti \<le> e \<and> e \<le> length t \<and> P (slice t ti e) \<and> Q (drop e t)"
    using uv u l assms by (intro exI [of _ "ti + length u"]) auto
next
  assume "\<exists>e. ti \<le> e \<and> e \<le> length t \<and> P (slice t ti e) \<and> Q (drop e t)"
  then obtain e where e: "ti \<le> e" "e \<le> length t" "P (slice t ti e)" "Q (drop e t)" by blast
  have "drop ti t = slice t ti e @ drop e t"
    using e by (metis append_take_drop_id drop_append drop_eq_Nil2 length_take min.absorb2 slice_def
        append_Nil diff_is_0_eq drop0)
  then show "\<exists>u v. drop ti t = u @ v \<and> P u \<and> Q v" using e by blast
qed

end
