(* ===== verification/Glob_Groups.thy ===== *)
theory Glob_Groups
  imports Rust_Text
begin

text \<open>
  The parts of \<open>engine/src/rules/glob.rs\<close> the matcher is built from: brace expansion, bracket classes
  and extended groups. The closures of the source (the whole match of an alternative, the match of
  the pattern's tail) are arguments of \<open>match_extglob\<close>.
\<close>

section \<open>Brace expansion\<close>

fun scan_loop :: "rtext \<Rightarrow> nat \<Rightarrow> int \<Rightarrow> int \<Rightarrow> rtext list \<Rightarrow> rtext \<Rightarrow> bool \<Rightarrow> (nat \<times> rtext list \<times> bool) option" where
  "scan_loop [] i brace paren parts cur had_comma = None"
| "scan_loop (c # rest) i brace paren parts cur had_comma =
     (if c = ch CHR 0x5C then
        (case rest of
           [] \<Rightarrow> None
         | d # rest' \<Rightarrow> scan_loop rest' (i + 2) brace paren parts (cur @ [c, d]) had_comma)
      else if c = ch CHR ''{'' then
        scan_loop rest (i + 1) (brace + 1) paren parts (if brace + 1 > 1 then cur @ [c] else cur) had_comma
      else if c = ch CHR ''}'' then
        (if brace - 1 = 0 then Some (i, parts @ [cur], had_comma)
         else scan_loop rest (i + 1) (brace - 1) paren parts (cur @ [c]) had_comma)
      else if c = ch CHR ''('' then scan_loop rest (i + 1) brace (paren + 1) parts (cur @ [c]) had_comma
      else if c = ch CHR '')'' then
        scan_loop rest (i + 1) brace (if paren > 0 then paren - 1 else paren) parts (cur @ [c]) had_comma
      else if c = ch CHR '','' \<and> brace = 1 \<and> paren = 0 then
        scan_loop rest (i + 1) brace paren (parts @ [cur]) [] True
      else scan_loop rest (i + 1) brace paren parts (cur @ [c]) had_comma)"

definition scan_group :: "rtext \<Rightarrow> nat \<Rightarrow> (nat \<times> rtext list \<times> bool) option" where
  "scan_group chars open = scan_loop (drop open chars) open 0 0 [] [] False"

text \<open>The first group with a comma, from index \<open>i\<close> on: where it opens, where it closes, its parts.\<close>

function find_group :: "rtext \<Rightarrow> nat \<Rightarrow> (nat \<times> nat \<times> rtext list) option" where
  "find_group chars i =
     (if length chars \<le> i then None
      else if chars ! i = ch CHR 0x5C then find_group chars (i + 2)
      else if chars ! i = ch CHR ''{'' then
        (case scan_group chars i of
           Some (close, parts, True) \<Rightarrow> Some (i, close, parts)
         | _ \<Rightarrow> find_group chars (i + 1))
      else find_group chars (i + 1))"
  by pat_completeness auto
termination by (relation "measure (\<lambda>(chars, i). length chars - i)") auto

declare find_group.simps [simp del]

lemma scan_loop_bounds:
  "scan_loop rest i brace paren parts cur hc = Some (close, parts', hc') \<Longrightarrow>
   i \<le> close \<and> close < i + length rest \<and>
   (\<forall>a \<in> set parts'. a \<in> set parts \<or> i + length a \<le> length cur + close)"
proof (induction rest i brace paren parts cur hc rule: scan_loop.induct)
  case (2 c rest i brace paren parts cur hc)
  show ?case
    using 2 by (auto split: if_splits list.splits)
qed simp

lemma find_group_scan:
  "find_group chars i = Some (open, close, parts) \<Longrightarrow> open < length chars \<and> scan_group chars open = Some (close, parts, True)"
proof (induction chars i rule: find_group.induct)
  case (1 chars i)
  have "find_group chars i =
     (if length chars \<le> i then None
      else if chars ! i = ch CHR 0x5C then find_group chars (i + 2)
      else if chars ! i = ch CHR ''{'' then
        (case scan_group chars i of
           Some (close, parts, True) \<Rightarrow> Some (i, close, parts)
         | _ \<Rightarrow> find_group chars (i + 1))
      else find_group chars (i + 1))" by (rule find_group.simps)
  then show ?case using 1 by (simp split: if_splits option.splits prod.splits bool.splits)
qed

lemma find_group_shrinks:
  assumes "find_group chars i = Some (open, close, parts)" "a \<in> set parts"
  shows "length a + (length chars - Suc close) < length chars"
  using find_group_scan [OF assms(1)] assms(2)
    scan_loop_bounds [of "drop open chars" "open" 0 0 "[]" "[]" False close parts True]
  by (fastforce simp: scan_group_def)

function expand_braces :: "rtext \<Rightarrow> rtext list" where
  "expand_braces pat =
     (case find_group pat 0 of
        None \<Rightarrow> [pat]
      | Some (i, close, parts) \<Rightarrow>
          concat (map (\<lambda>p. map (\<lambda>tail. take i pat @ tail) (expand_braces (p @ drop (Suc close) pat))) parts))"
  by pat_completeness auto
termination by (relation "measure length") (auto dest: find_group_shrinks)

declare expand_braces.simps [simp del]

section \<open>Groups and classes\<close>

definition is_segment_globstar :: "rtext \<Rightarrow> nat \<Rightarrow> bool" where
  "is_segment_globstar p pi \<longleftrightarrow>
     (pi = 0 \<or> p ! (pi - 1) = ch CHR ''/'') \<and> (length p \<le> pi + 2 \<or> p ! (pi + 2) = ch CHR ''/'')"

fun ext_scan :: "rtext \<Rightarrow> nat \<Rightarrow> int \<Rightarrow> rtext list \<Rightarrow> rtext \<Rightarrow> (rtext list \<times> nat) option" where
  "ext_scan [] i depth alts cur = None"
| "ext_scan (c # rest) i depth alts cur =
     (if c = ch CHR 0x5C then
        (case rest of [] \<Rightarrow> None | d # rest' \<Rightarrow> ext_scan rest' (i + 2) depth alts (cur @ [c, d]))
      else if c = ch CHR ''('' then
        ext_scan rest (i + 1) (depth + 1) alts (if depth + 1 > 1 then cur @ [c] else cur)
      else if c = ch CHR '')'' then
        (if depth - 1 = 0 then Some (alts @ [cur], i + 1)
         else ext_scan rest (i + 1) (depth - 1) alts (cur @ [c]))
      else if c = ch CHR ''|'' \<and> depth = 1 then ext_scan rest (i + 1) depth (alts @ [cur]) []
      else ext_scan rest (i + 1) depth alts (cur @ [c]))"

definition parse_extglob :: "rtext \<Rightarrow> nat \<Rightarrow> (rtext list \<times> nat) option" where
  "parse_extglob p pi = ext_scan (drop (pi + 1) p) (pi + 1) 0 [] []"

lemma ext_scan_bounds:
  "ext_scan rest i depth alts cur = Some (alts', after) \<Longrightarrow>
   i < after \<and> after \<le> i + length rest \<and> (\<forall>a \<in> set alts'. a \<in> set alts \<or> length a \<le> length cur + length rest)"
proof (induction rest i depth alts cur rule: ext_scan.induct)
  case (2 c rest i depth alts cur)
  show ?case
    using 2 by (auto split: if_splits list.splits)
qed simp

lemma parse_extglob_bounds:
  assumes "parse_extglob p pi = Some (alts, after)"
  shows "pi + 1 < after" "after \<le> length p" "a \<in> set alts \<Longrightarrow> length a < length p - pi"
  using ext_scan_bounds [OF assms [unfolded parse_extglob_def]] by (cases "pi < length p"; fastforce)+

fun class_scan :: "rchar \<Rightarrow> rtext \<Rightarrow> bool \<Rightarrow> bool" where
  "class_scan ch0 (lo # d # hi # rest) matched =
     (if d = ch CHR ''-'' then class_scan ch0 rest (matched \<or> lo \<le> ch0 \<and> ch0 \<le> hi)
      else class_scan ch0 (d # hi # rest) (matched \<or> lo = ch0))"
| "class_scan ch0 (c # rest) matched = class_scan ch0 rest (matched \<or> c = ch0)"
| "class_scan ch0 [] matched = matched"

text \<open>The bounds of the class that opens at \<open>pi\<close>: whether it is negated, where its members start and
  where it closes.\<close>

definition class_bounds :: "rtext \<Rightarrow> nat \<Rightarrow> (bool \<times> nat \<times> nat) option" where
  "class_bounds p pi =
     (let j0 = pi + 1;
          negate = (j0 < length p \<and> (p ! j0 = ch CHR ''!'' \<or> p ! j0 = ch CHR ''^''));
          body_start = (if negate then j0 + 1 else j0);
          j1 = (if body_start < length p \<and> p ! body_start = ch CHR '']'' then body_start + 1 else body_start);
          close = j1 + length (takeWhile (\<lambda>c. c \<noteq> ch CHR '']'') (drop j1 p))
      in if length p \<le> close then None else Some (negate, body_start, close))"

definition match_class :: "rtext \<Rightarrow> nat \<Rightarrow> rtext \<Rightarrow> nat \<Rightarrow> (bool \<times> nat \<times> bool) option" where
  "match_class p pi t ti =
     (case class_bounds p pi of
        None \<Rightarrow> None
      | Some (negate, body_start, close) \<Rightarrow>
          if length t \<le> ti \<or> t ! ti = ch CHR ''/'' then Some (False, close - pi + 1, True)
          else let matched = class_scan (t ! ti) (slice p body_start close) False
               in Some (if negate then \<not> matched else matched, close - pi + 1, True))"

section \<open>Extended groups\<close>

definition seg_end :: "rtext \<Rightarrow> nat \<Rightarrow> nat" where
  "seg_end t ti = ti + length (takeWhile (\<lambda>c. c \<noteq> ch CHR ''/'') (drop ti t))"

definition alt_ends :: "(rtext \<Rightarrow> rtext \<Rightarrow> bool) \<Rightarrow> rtext list \<Rightarrow> rtext \<Rightarrow> nat \<Rightarrow> nat \<Rightarrow> nat list" where
  "alt_ends whole alts t e1 start =
     remdups_adj (sort (concat (map (\<lambda>a. filter (\<lambda>e. whole a (slice t start e)) [start..<Suc e1]) alts)))"

text \<open>One end \<open>e\<close> of a repetition that started at \<open>pos\<close>. A \<open>BTreeSet\<close> is a sorted list, the frontier a
  stack with its top first.\<close>

fun visit :: "nat \<Rightarrow> nat \<Rightarrow> nat list \<times> nat list \<times> nat list \<Rightarrow> nat list \<times> nat list \<times> nat list" where
  "visit pos e (positions, seen, frontier) =
     (if e = pos then (positions, seen, frontier)
      else if e \<in> set seen then (insort_insert e positions, seen, frontier)
      else (insort_insert e positions, insort_insert e seen, e # frontier))"

lemma set_alt_ends:
  "set (alt_ends whole alts t e1 start) = {e. start \<le> e \<and> e \<le> e1 \<and> (\<exists>a \<in> set alts. whole a (slice t start e))}"
  by (auto simp: alt_ends_def)

definition visit_measure :: "nat \<Rightarrow> nat list \<times> nat list \<times> nat list \<Rightarrow> nat" where
  "visit_measure e1 st = length (snd (snd st)) + card ({..e1} - set (fst (snd st)))"

lemma card_unseen: "(e :: nat) \<le> e1 \<Longrightarrow> e \<notin> S \<Longrightarrow> card ({..e1} - insert e S) + 1 = card ({..e1} - S)"
  using card_Suc_Diff1 [of "{..e1} - S" e] by (simp add: Diff_insert [symmetric])

lemma visit_measure_step: "e \<le> e1 \<Longrightarrow> visit_measure e1 (visit pos e st) \<le> visit_measure e1 st"
  using card_unseen [of e e1 "set (fst (snd st))"]
  by (cases st) (simp add: visit_measure_def set_insort_insert)

lemma visit_measure_fold:
  "\<forall>e \<in> set es. e \<le> e1 \<Longrightarrow> visit_measure e1 (fold (visit pos) es st) \<le> visit_measure e1 st"
proof (induction es arbitrary: st)
  case (Cons e es)
  have "visit_measure e1 (fold (visit pos) es (visit pos e st)) \<le> visit_measure e1 (visit pos e st)"
    by (rule Cons.IH) (use Cons.prems in simp)
  also have "\<dots> \<le> visit_measure e1 st" by (rule visit_measure_step) (use Cons.prems in simp)
  finally show ?case by simp
qed simp

function reach_loop :: "(rtext \<Rightarrow> rtext \<Rightarrow> bool) \<Rightarrow> rtext list \<Rightarrow> rtext \<Rightarrow> nat \<Rightarrow> nat list \<times> nat list \<times> nat list \<Rightarrow> nat list" where
  "reach_loop whole alts t e1 (positions, seen, []) = positions"
| "reach_loop whole alts t e1 (positions, seen, pos # frontier) =
     reach_loop whole alts t e1 (fold (visit pos) (alt_ends whole alts t e1 pos) (positions, seen, frontier))"
  by pat_completeness auto
termination
proof (relation "measure (\<lambda>(whole, alts, t, e1, st). visit_measure e1 st)", goal_cases)
  case (2 whole alts t e1 positions seen pos frontier)
  have "visit_measure e1 (fold (visit pos) (alt_ends whole alts t e1 pos) (positions, seen, frontier))
      \<le> visit_measure e1 (positions, seen, frontier)"
    by (rule visit_measure_fold) (simp add: set_alt_ends)
  then show ?case by (simp add: visit_measure_def)
qed simp

lemma alt_ends_cong:
  "(\<And>a u. a \<in> set alts \<Longrightarrow> whole a u = whole' a u) \<Longrightarrow> alt_ends whole alts t e1 start = alt_ends whole' alts t e1 start"
  by (simp add: alt_ends_def cong: map_cong filter_cong)

lemma reach_loop_cong:
  assumes "\<And>a u. a \<in> set alts \<Longrightarrow> whole a u = whole' a u"
  shows "reach_loop whole alts t e1 st = reach_loop whole' alts t e1 st"
  using assms
proof (induction whole alts t e1 st rule: reach_loop.induct)
  case (2 whole alts t e1 positions seen pos frontier)
  show ?case using 2 alt_ends_cong [OF 2(2)] by simp
qed simp

definition match_extglob :: "rchar \<Rightarrow> rtext list \<Rightarrow> (rtext \<Rightarrow> rtext \<Rightarrow> bool) \<Rightarrow> (nat \<Rightarrow> bool) \<Rightarrow> rtext \<Rightarrow> nat \<Rightarrow> bool" where
  "match_extglob op alts whole tail t ti =
     (let e1 = seg_end t ti in
      if op = ch CHR ''@'' then list_ex tail (alt_ends whole alts t e1 ti)
      else if op = ch CHR ''?'' then tail ti \<or> list_ex tail (alt_ends whole alts t e1 ti)
      else if op = ch CHR ''+'' \<or> op = ch CHR ''*'' then
        list_ex tail (reach_loop whole alts t e1 (if op = ch CHR ''*'' then [ti] else [], [ti], [ti]))
      else if op = ch CHR ''!'' then
        list_ex (\<lambda>e. \<not> list_ex (\<lambda>a. whole a (slice t ti e)) alts \<and> tail e) [ti..<Suc e1]
      else False)"

lemma match_extglob_cong [fundef_cong]:
  assumes "op = op'" "alts = alts'" "t = t'" "ti = ti'"
    and "\<And>a u. a \<in> set alts' \<Longrightarrow> whole a u = whole' a u" and "\<And>e. tail e = tail' e"
  shows "match_extglob op alts whole tail t ti = match_extglob op' alts' whole' tail' t' ti'"
proof -
  have "tail = tail'" using assms by blast
  moreover have "list_ex (\<lambda>a. whole a u) alts = list_ex (\<lambda>a. whole' a u) alts" for u
    using assms by (auto simp: list_ex_iff)
  ultimately show ?thesis
    using assms alt_ends_cong [of alts whole whole'] reach_loop_cong [of alts whole whole']
    by (simp add: match_extglob_def)
qed

end
