(* ===== verification/Glob.thy ===== *)
theory Glob
  imports Glob_Groups
begin

text \<open>
  The backtracking matcher of \<open>engine/src/rules/glob.rs\<close>, over indices into the pattern and the subject.
\<close>

section \<open>The matcher\<close>

definition ext_ops :: "rchar list" where
  "ext_ops = map of_char ''@!+*?''"

definition ext_group :: "rtext \<Rightarrow> nat \<Rightarrow> (rtext list \<times> nat) option" where
  "ext_group p pi =
     (if p ! pi \<in> set ext_ops \<and> pi + 1 < length p \<and> p ! (pi + 1) = ch CHR ''(''
      then parse_extglob p pi else None)"

lemma ext_group_bounds:
  assumes "ext_group p pi = Some (alts, after)"
  shows "pi + 1 < after" "after \<le> length p" "a \<in> set alts \<Longrightarrow> length a < length p - pi"
  using assms parse_extglob_bounds [of p pi alts after] by (auto simp: ext_group_def split: if_splits)

lemma match_class_len: "match_class p pi t ti = Some (matched, len, ok) \<Longrightarrow> 0 < len"
  by (auto simp: match_class_def Let_def split: option.splits if_splits)

lemma glob_measure: "pi < length p \<Longrightarrow> pi < x \<Longrightarrow>
    ((p, x, t, ti), (p, pi, t', ti')) \<in> measure (\<lambda>(p, pi, t, ti). length p - pi)"
  by simp

function glob_m :: "rtext \<Rightarrow> nat \<Rightarrow> rtext \<Rightarrow> nat \<Rightarrow> bool" where
  "glob_m p pi t ti =
     (if length p \<le> pi then length t \<le> ti
      else let c = p ! pi in
        if c = ch CHR ''*'' \<and> pi + 1 < length p \<and> p ! (pi + 1) = ch CHR ''*'' \<and> is_segment_globstar p pi then
          let ate_slash = (pi + 2 < length p \<and> p ! (pi + 2) = ch CHR ''/'');
              rest = (if ate_slash then pi + 3 else pi + 2)
          in glob_m p rest t ti
             \<or> list_ex (\<lambda>k. t ! k = ch CHR ''/'' \<and> glob_m p rest t (k + 1)) [ti..<length t]
             \<or> \<not> ate_slash \<and> list_ex (\<lambda>k. glob_m p rest t k) [ti..<Suc (max ti (length t))]
        else case ext_group p pi of
          Some (alts, after) \<Rightarrow>
            match_extglob c alts (\<lambda>a u. glob_m a 0 u 0) (\<lambda>e. glob_m p after t e) t ti
        | None \<Rightarrow>
            if c = ch CHR ''*'' then list_ex (\<lambda>k. glob_m p (pi + 1) t k) [ti..<Suc (seg_end t ti)]
            else if c = ch CHR ''?'' then
              (if length t \<le> ti \<or> t ! ti = ch CHR ''/'' then False else glob_m p (pi + 1) t (ti + 1))
            else if c = ch CHR ''['' then
              (case match_class p pi t ti of
                 Some (matched, len, ok) \<Rightarrow>
                   if \<not> ok \<or> \<not> matched then False else glob_m p (pi + len) t (ti + 1)
               | None \<Rightarrow>
                   if length t \<le> ti \<or> t ! ti \<noteq> ch CHR ''['' then False else glob_m p (pi + 1) t (ti + 1))
            else if c = ch CHR 0x5C then
              let lit = (if pi + 1 < length p then p ! (pi + 1) else ch CHR 0x5C)
              in if length t \<le> ti \<or> t ! ti \<noteq> lit then False else glob_m p (pi + 2) t (ti + 1)
            else if length t \<le> ti \<or> t ! ti \<noteq> c then False
            else glob_m p (pi + 1) t (ti + 1))"
  by pat_completeness auto
termination
proof (relation "measure (\<lambda>(p, pi, t, ti). length p - pi)", goal_cases)
  case 8
  show ?case by (rule glob_measure) (use 8 in \<open>auto dest: match_class_len\<close>)
next
  case 11
  then show ?case by (auto dest: ext_group_bounds(3))
next
  case 12
  show ?case by (rule glob_measure) (use 12 in \<open>auto dest: ext_group_bounds(1)\<close>)
qed (simp, (rule glob_measure; simp)+)

declare glob_m.simps [simp del]

definition match_pattern :: "rtext \<Rightarrow> rtext \<Rightarrow> bool" where
  "match_pattern pat s = glob_m pat 0 s 0"

definition globmatch :: "rtext \<Rightarrow> rtext \<Rightarrow> bool" where
  "globmatch pat s = list_ex (\<lambda>alt. match_pattern alt s) (expand_braces pat)"

definition SENTINEL :: rchar where "SENTINEL = 0x1f"

definition replace_slash :: "rtext \<Rightarrow> rtext" where
  "replace_slash s = map (\<lambda>c. if c = ch CHR ''/'' then SENTINEL else c) s"

definition textmatch :: "rtext \<Rightarrow> rtext \<Rightarrow> bool" where
  "textmatch pat s = globmatch (replace_slash pat) (replace_slash s)"

end
