(* ===== verification/Glob_Language.thy ===== *)
theory Glob_Language
  imports Glob
begin

text \<open>
  What a glob means, and that the matcher decides it. A pattern is read as a sequence of tokens, each
  token denotes a set of strings, and the language of the pattern is their concatenation.
\<close>

section \<open>Tokens and their languages\<close>

datatype gtok = Lit rchar | Any | Star | Class bool rtext | Globstar bool | Ext rchar "rtext list"

definition next_tok :: "rtext \<Rightarrow> nat \<Rightarrow> gtok \<times> nat" where
  "next_tok p pi =
     (let c = p ! pi in
      if c = ch CHR ''*'' \<and> pi + 1 < length p \<and> p ! (pi + 1) = ch CHR ''*'' \<and> is_segment_globstar p pi then
        (if pi + 2 < length p \<and> p ! (pi + 2) = ch CHR ''/'' then (Globstar True, pi + 3) else (Globstar False, pi + 2))
      else case ext_group p pi of
        Some (alts, after) \<Rightarrow> (Ext c alts, after)
      | None \<Rightarrow>
          if c = ch CHR ''*'' then (Star, pi + 1)
          else if c = ch CHR ''?'' then (Any, pi + 1)
          else if c = ch CHR ''['' then
            (case class_bounds p pi of
               Some (negate, body_start, close) \<Rightarrow> (Class negate (slice p body_start close), close + 1)
             | None \<Rightarrow> (Lit c, pi + 1))
          else if c = ch CHR 0x5C then (Lit (if pi + 1 < length p then p ! (pi + 1) else c), pi + 2)
          else (Lit c, pi + 1))"

text \<open>The strings an extended group takes, from those its alternatives take. A repetition under \<open>+\<close> is
  never empty.\<close>

definition ext_lang :: "(rtext \<Rightarrow> bool) \<Rightarrow> rchar \<Rightarrow> rtext \<Rightarrow> bool" where
  "ext_lang A op u \<longleftrightarrow>
     (if op = ch CHR ''@'' then A u
      else if op = ch CHR ''?'' then u = [] \<or> A u
      else if op = ch CHR ''*'' then \<exists>ws. u = concat ws \<and> (\<forall>w \<in> set ws. A w)
      else if op = ch CHR ''+'' then \<exists>ws. ws \<noteq> [] \<and> u = concat ws \<and> (\<forall>w \<in> set ws. w \<noteq> [] \<and> A w)
      else \<not> A u)"

fun tok_lang :: "(rtext \<Rightarrow> rtext \<Rightarrow> bool) \<Rightarrow> gtok \<Rightarrow> rtext \<Rightarrow> bool" where
  "tok_lang L (Lit c) u \<longleftrightarrow> u = [c]"
| "tok_lang L Any u \<longleftrightarrow> (\<exists>c. u = [c] \<and> c \<noteq> ch CHR ''/'')"
| "tok_lang L Star u \<longleftrightarrow> ch CHR ''/'' \<notin> set u"
| "tok_lang L (Class negate members) u \<longleftrightarrow>
     (\<exists>c. u = [c] \<and> c \<noteq> ch CHR ''/'' \<and> class_scan c members False \<noteq> negate)"
| "tok_lang L (Globstar slash) u \<longleftrightarrow> slash \<longrightarrow> u = [] \<or> last u = ch CHR ''/''"
| "tok_lang L (Ext op alts) u \<longleftrightarrow> ch CHR ''/'' \<notin> set u \<and> ext_lang (\<lambda>w. \<exists>a \<in> set alts. L a w) op u"

fun tok_alts :: "gtok \<Rightarrow> rtext list" where
  "tok_alts (Ext op alts) = alts"
| "tok_alts _ = []"

lemma tok_lang_cong [fundef_cong]:
  assumes "tk = tk'" "u = u'" "\<And>a w. a \<in> set (tok_alts tk') \<Longrightarrow> L a w = L' a w"
  shows "tok_lang L tk u = tok_lang L' tk' u'"
proof (cases tk')
  case (Ext op alts)
  have "(\<lambda>w. \<exists>a \<in> set alts. L a w) = (\<lambda>w. \<exists>a \<in> set alts. L' a w)" using assms Ext by auto
  then show ?thesis using assms Ext by simp
qed (use assms in simp_all)

lemma class_bounds_close: "class_bounds p pi = Some (negate, body_start, close) \<Longrightarrow> pi < close"
  by (auto simp: class_bounds_def Let_def split: if_splits)

lemma next_tok_bounds:
  assumes "next_tok p pi = (tk, nxt)"
  shows "pi < nxt" "a \<in> set (tok_alts tk) \<Longrightarrow> length a < length p - pi"
  using assms
  by (auto simp: next_tok_def Let_def dest: ext_group_bounds class_bounds_close split: if_splits option.splits)

function glob_lang :: "rtext \<Rightarrow> nat \<Rightarrow> rtext \<Rightarrow> bool" where
  "glob_lang p pi t \<longleftrightarrow>
     (if length p \<le> pi then t = []
      else case next_tok p pi of (tk, nxt) \<Rightarrow>
        \<exists>u v. t = u @ v \<and> tok_lang (\<lambda>a w. glob_lang a 0 w) tk u \<and> glob_lang p nxt v)"
  by pat_completeness auto
termination
proof (relation "measure (\<lambda>(p, pi, t). length p - pi)", goal_cases)
  case 2
  then show ?case by (auto dest: next_tok_bounds(2) [OF sym])
next
  case 3
  then show ?case by (auto dest: next_tok_bounds(1) [OF sym])
qed simp

declare glob_lang.simps [simp del]

section \<open>Repetition\<close>

text \<open>One nonempty repetition inside the segment that ends at \<open>e1\<close>.\<close>

definition rep_step :: "(rtext \<Rightarrow> bool) \<Rightarrow> rtext \<Rightarrow> nat \<Rightarrow> (nat \<times> nat) set" where
  "rep_step A t e1 = {(i, j). i < j \<and> j \<le> e1 \<and> A (slice t i j)}"

lemma fold_visit:
  assumes "fold (visit pos) es (P, S, F) = (P', S', F')"
  shows "set P' = set P \<union> (set es - {pos})" "set S' = set S \<union> (set es - {pos})"
    "set F' = set F \<union> (set es - {pos} - set S)"
proof -
  have "set P' = set P \<union> (set es - {pos}) \<and> set S' = set S \<union> (set es - {pos}) \<and> set F' = set F \<union> (set es - {pos} - set S)"
    using assms
  proof (induction es arbitrary: P S F)
    case (Cons e es)
    obtain P1 S1 F1 where v: "visit pos e (P, S, F) = (P1, S1, F1)" using prod_cases3 by blast
    from Cons.IH [of P1 S1 F1] Cons.prems v show ?case
      by (auto simp: set_insort_insert split: if_splits)
  qed simp
  then show "set P' = set P \<union> (set es - {pos})" "set S' = set S \<union> (set es - {pos})"
    "set F' = set F \<union> (set es - {pos} - set S)" by blast+
qed

definition reach_inv :: "(nat \<times> nat) set \<Rightarrow> nat \<Rightarrow> nat set \<Rightarrow> nat list \<times> nat list \<times> nat list \<Rightarrow> bool" where
  "reach_inv R ti P0 st = (case st of (P, S, F) \<Rightarrow>
     ti \<in> set S \<and> set F \<subseteq> set S \<and> set S \<subseteq> R\<^sup>* `` {ti} \<and> P0 \<subseteq> set P \<and> set P \<subseteq> P0 \<union> R\<^sup>+ `` {ti} \<and>
     (\<forall>x \<in> set S - set F. R `` {x} \<subseteq> set P \<inter> set S))"

lemma reach_inv_step:
  assumes "reach_inv R ti P0 (P, S, pos # F)" and es: "set es - {pos} = R `` {pos}"
  shows "reach_inv R ti P0 (fold (visit pos) es (P, S, F))"
proof -
  obtain P' S' F' where f: "fold (visit pos) es (P, S, F) = (P', S', F')" using prod_cases3 by blast
  note v = fold_visit [OF f, unfolded es]
  have pos: "pos \<in> R\<^sup>* `` {ti}" using assms(1) by (auto simp: reach_inv_def)
  then have "R `` {pos} \<subseteq> R\<^sup>+ `` {ti}" by (auto intro: rtrancl_into_trancl1)
  moreover have "R `` {pos} \<subseteq> R\<^sup>* `` {ti}" using pos by (auto intro: rtrancl_into_rtrancl)
  ultimately show ?thesis
    using assms(1) unfolding f reach_inv_def prod.case v by auto
qed

lemma reach_loop_set:
  assumes "reach_inv (rep_step (\<lambda>w. \<exists>a \<in> set alts. whole a w) t e1) ti P0 st"
  shows "set (reach_loop whole alts t e1 st) = P0 \<union> (rep_step (\<lambda>w. \<exists>a \<in> set alts. whole a w) t e1)\<^sup>+ `` {ti}"
  using assms
proof (induction whole alts t e1 st rule: reach_loop.induct)
  case (1 whole alts t e1 P S)
  let ?R = "rep_step (\<lambda>w. \<exists>a \<in> set alts. whole a w) t e1"
  have closed: "x \<in> set S \<Longrightarrow> (x, y) \<in> ?R \<Longrightarrow> y \<in> set P \<inter> set S" for x y
    using 1 by (auto simp: reach_inv_def)
  have "(ti, x) \<in> ?R\<^sup>* \<Longrightarrow> x \<in> set S" for x
    by (induction rule: rtrancl_induct) (use 1 closed in \<open>auto simp: reach_inv_def\<close>)
  then have "?R\<^sup>+ `` {ti} \<subseteq> set P" using closed by (fastforce dest: tranclD2)
  then show ?case using 1 by (auto simp: reach_inv_def)
next
  case (2 whole alts t e1 P S pos F)
  have "set (alt_ends whole alts t e1 pos) - {pos} = rep_step (\<lambda>w. \<exists>a \<in> set alts. whole a w) t e1 `` {pos}"
    by (auto simp: set_alt_ends rep_step_def)
  from 2 reach_inv_step [OF 2(2) this] show ?case by simp
qed

lemma slice_append:
  assumes "i \<le> j" "j \<le> k" "k \<le> length t"
  shows "slice t i k = slice t i j @ slice t j k"
proof -
  have "take k t = take j t @ drop j (take k t)"
    using assms append_take_drop_id [of j "take k t"] by (simp add: min_def)
  then have "drop i (take k t) = drop i (take j t @ drop j (take k t))" by simp
  then show ?thesis using assms by (simp add: slice_def)
qed

lemma slice_empty_iff: "i \<le> j \<Longrightarrow> j \<le> length t \<Longrightarrow> slice t i j = [] \<longleftrightarrow> i = j"
  by (auto simp: slice_def)

lemma rep_step_words:
  assumes "ti \<le> e" "e \<le> e1" "e1 \<le> length t"
  shows "(ti, e) \<in> (rep_step A t e1)\<^sup>* \<longleftrightarrow> (\<exists>ws. slice t ti e = concat ws \<and> (\<forall>w \<in> set ws. w \<noteq> [] \<and> A w))"
proof
  assume "(ti, e) \<in> (rep_step A t e1)\<^sup>*"
  then have "ti \<le> e \<and> (\<exists>ws. slice t ti e = concat ws \<and> (\<forall>w \<in> set ws. w \<noteq> [] \<and> A w))"
  proof (induction rule: rtrancl_induct)
    case base
    show ?case by (auto simp: slice_def intro: exI [of _ "[]"])
  next
    case (step y z)
    then obtain ws where ws: "slice t ti y = concat ws" "\<forall>w \<in> set ws. w \<noteq> [] \<and> A w" by blast
    have yz: "ti \<le> y" "y < z" "z \<le> length t" "A (slice t y z)"
      using step.IH step.hyps(2) assms(3) by (simp_all add: rep_step_def)
    have "slice t ti z = concat (ws @ [slice t y z])"
      using yz ws slice_append [of ti y z t] by simp
    moreover have "\<forall>w \<in> set (ws @ [slice t y z]). w \<noteq> [] \<and> A w"
      using yz ws by (auto simp: slice_empty_iff)
    ultimately have "\<exists>ws. slice t ti z = concat ws \<and> (\<forall>w \<in> set ws. w \<noteq> [] \<and> A w)" by blast
    then show ?case using yz by simp
  qed
  then show "\<exists>ws. slice t ti e = concat ws \<and> (\<forall>w \<in> set ws. w \<noteq> [] \<and> A w)" by blast
next
  assume "\<exists>ws. slice t ti e = concat ws \<and> (\<forall>w \<in> set ws. w \<noteq> [] \<and> A w)"
  then obtain ws where "slice t ti e = concat ws" "\<forall>w \<in> set ws. w \<noteq> [] \<and> A w" by blast
  then show "(ti, e) \<in> (rep_step A t e1)\<^sup>*" using assms(1)
  proof (induction ws arbitrary: ti)
    case Nil
    then show ?case using assms slice_empty_iff [of ti e t] by simp
  next
    case (Cons w ws)
    let ?y = "ti + length w"
    have "length (slice t ti e) = e - ti" using assms by simp
    then have y: "?y \<le> e" using Cons.prems by simp
    then have sp: "slice t ti ?y @ slice t ?y e = w @ concat ws"
      using Cons.prems(1) slice_append [of ti ?y e t] y assms by simp
    then have "slice t ti ?y = w \<and> slice t ?y e = concat ws"
      using y assms by (subst (asm) append_eq_append_conv) simp_all
    then have w: "slice t ti ?y = w" "slice t ?y e = concat ws" by simp_all
    have "(ti, ?y) \<in> rep_step A t e1" using Cons.prems(2) w(1) y assms by (simp add: rep_step_def)
    moreover have "(?y, e) \<in> (rep_step A t e1)\<^sup>*" by (rule Cons.IH) (use Cons.prems w(2) y in simp_all)
    ultimately show ?case by (rule converse_rtrancl_into_rtrancl)
  qed
qed

section \<open>One token\<close>

lemma seg_end_bounds: "ti \<le> length t \<Longrightarrow> ti \<le> seg_end t ti \<and> seg_end t ti \<le> length t"
  using length_takeWhile_le [of "\<lambda>c. c \<noteq> ch CHR ''/''" "drop ti t"] by (simp add: seg_end_def)

lemma slash_free_prefix: "n \<le> length xs \<Longrightarrow> c \<notin> set (take n xs) \<longleftrightarrow> n \<le> length (takeWhile (\<lambda>x. x \<noteq> c) xs)"
proof (induction xs arbitrary: n)
  case (Cons x xs)
  then show ?case by (cases n) auto
qed simp

lemma seg_end_iff:
  "ti \<le> e \<Longrightarrow> e \<le> length t \<Longrightarrow> ch CHR ''/'' \<notin> set (slice t ti e) \<longleftrightarrow> e \<le> seg_end t ti"
  using slash_free_prefix [of "e - ti" "drop ti t" "ch CHR ''/''"] by (auto simp: slice_drop seg_end_def)

text \<open>The ends the subject offers a token.\<close>

definition spans :: "(rtext \<Rightarrow> bool) \<Rightarrow> (nat \<Rightarrow> bool) \<Rightarrow> rtext \<Rightarrow> nat \<Rightarrow> bool" where
  "spans P G t ti \<longleftrightarrow> (\<exists>e. ti \<le> e \<and> e \<le> length t \<and> P (slice t ti e) \<and> G e)"

lemma slice_single: "ti \<le> e \<Longrightarrow> e \<le> length t \<Longrightarrow> slice t ti e = [c] \<longleftrightarrow> e = Suc ti \<and> c = t ! ti"
proof -
  assume a: "ti \<le> e" "e \<le> length t"
  have "e = Suc ti" if "slice t ti e = [c]" using a arg_cong [OF that, of length] by simp
  moreover have "slice t ti (Suc ti) = [t ! ti]" if "e = Suc ti"
    using that a by (simp add: slice_drop take_Suc_conv_app_nth hd_drop_conv_nth take_Suc)
  ultimately show ?thesis by auto
qed

lemma spans_single:
  "spans (\<lambda>u. \<exists>c. u = [c] \<and> P c) G t ti \<longleftrightarrow> ti < length t \<and> P (t ! ti) \<and> G (Suc ti)"
proof
  assume "spans (\<lambda>u. \<exists>c. u = [c] \<and> P c) G t ti"
  then show "ti < length t \<and> P (t ! ti) \<and> G (Suc ti)" by (auto simp: spans_def slice_single)
next
  assume "ti < length t \<and> P (t ! ti) \<and> G (Suc ti)"
  then show "spans (\<lambda>u. \<exists>c. u = [c] \<and> P c) G t ti"
    unfolding spans_def by (intro exI [of _ "Suc ti"]) (auto simp: slice_single)
qed

lemma spans_segment:
  assumes "ti \<le> length t"
  shows "spans (\<lambda>u. ch CHR ''/'' \<notin> set u \<and> P u) G t ti \<longleftrightarrow> (\<exists>e \<in> {ti..seg_end t ti}. P (slice t ti e) \<and> G e)"
proof -
  have "(ti \<le> e \<and> e \<le> length t \<and> (ch CHR ''/'' \<notin> set (slice t ti e) \<and> P (slice t ti e)) \<and> G e)
      = (e \<in> {ti..seg_end t ti} \<and> P (slice t ti e) \<and> G e)" for e
    using seg_end_bounds [OF assms] seg_end_iff [of ti e t] by auto
  then show ?thesis unfolding spans_def Bex_def by simp
qed

lemma spans_globstar:
  assumes "ti \<le> length t"
  shows "spans (\<lambda>u. u = [] \<or> last u = ch CHR ''/'') G t ti \<longleftrightarrow> G ti \<or> (\<exists>k \<in> {ti..<length t}. t ! k = ch CHR ''/'' \<and> G (k + 1))"
proof -
  have l: "last (slice t ti (Suc k)) = t ! k" if "ti \<le> k" "k < length t" for k
    using that by (simp add: slice_def take_Suc_conv_app_nth)
  have e: "slice t ti e = [] \<or> last (slice t ti e) = ch CHR ''/'' \<longleftrightarrow> e = ti \<or> t ! (e - 1) = ch CHR ''/''"
    if "ti \<le> e" "e \<le> length t" for e
    using that l [of "e - 1"] slice_empty_iff [of ti e t] by (cases "e = ti") (auto simp: Suc_le_eq)
  show ?thesis
  proof
    assume "spans (\<lambda>u. u = [] \<or> last u = ch CHR ''/'') G t ti"
    then obtain x where x: "ti \<le> x" "x \<le> length t" "x = ti \<or> t ! (x - 1) = ch CHR ''/''" "G x"
      using e by (auto simp: spans_def)
    show "G ti \<or> (\<exists>k \<in> {ti..<length t}. t ! k = ch CHR ''/'' \<and> G (k + 1))"
    proof (cases "x = ti")
      case False
      then show ?thesis using x by (intro disjI2 bexI [of _ "x - 1"]) auto
    qed (use x in simp)
  next
    assume "G ti \<or> (\<exists>k \<in> {ti..<length t}. t ! k = ch CHR ''/'' \<and> G (k + 1))"
    then show "spans (\<lambda>u. u = [] \<or> last u = ch CHR ''/'') G t ti"
    proof
      assume "G ti"
      then show ?thesis using assms e [of ti] unfolding spans_def by blast
    next
      assume "\<exists>k \<in> {ti..<length t}. t ! k = ch CHR ''/'' \<and> G (k + 1)"
      then obtain k where "ti \<le> k" "k < length t" "t ! k = ch CHR ''/''" "G (k + 1)" by auto
      then show ?thesis using e [of "k + 1"] unfolding spans_def by (intro exI [of _ "k + 1"]) simp
    qed
  qed
qed

lemma reach_positions:
  fixes t :: rtext and alts :: "rtext list" and whole :: "rtext \<Rightarrow> rtext \<Rightarrow> bool"
  assumes "ti \<le> length t"
  defines "A \<equiv> \<lambda>w. \<exists>a \<in> set alts. whole a w"
  shows "set (reach_loop whole alts t (seg_end t ti) (P0, [ti], [ti])) =
    set P0 \<union> {e \<in> {ti..seg_end t ti}. \<exists>ws. ws \<noteq> [] \<and> slice t ti e = concat ws \<and> (\<forall>w \<in> set ws. w \<noteq> [] \<and> A w)}"
proof -
  let ?R = "rep_step A t (seg_end t ti)"
  have s: "ti \<le> seg_end t ti" "seg_end t ti \<le> length t" using seg_end_bounds [OF assms(1)] by simp_all
  have inc: "(i, j) \<in> ?R\<^sup>+ \<Longrightarrow> i < j \<and> j \<le> seg_end t ti" for i j
    by (induction rule: trancl_induct) (auto simp: rep_step_def)
  have "(ti, e) \<in> ?R\<^sup>+ \<longleftrightarrow>
      ti \<le> e \<and> e \<le> seg_end t ti \<and> (\<exists>ws. ws \<noteq> [] \<and> slice t ti e = concat ws \<and> (\<forall>w \<in> set ws. w \<noteq> [] \<and> A w))" (is "?l = ?r") for e
  proof
    assume l: ?l
    with inc have e: "ti < e" "e \<le> seg_end t ti" by blast+
    with l rep_step_words [of ti e "seg_end t ti" t A] s obtain ws
      where "slice t ti e = concat ws" "\<forall>w \<in> set ws. w \<noteq> [] \<and> A w" by (auto dest: trancl_into_rtrancl)
    moreover from this e s have "ws \<noteq> []" using slice_empty_iff [of ti e t] by auto
    ultimately show ?r using e by auto
  next
    assume r: ?r
    then obtain ws where ws: "ws \<noteq> []" "slice t ti e = concat ws" "\<forall>w \<in> set ws. w \<noteq> [] \<and> A w" by blast
    then have "slice t ti e \<noteq> []" by (cases ws) auto
    then have "e \<noteq> ti" using slice_empty_iff [of ti ti t] assms(1) by auto
    moreover have "(ti, e) \<in> ?R\<^sup>*" using rep_step_words [of ti e "seg_end t ti" t A] s r ws by blast
    ultimately show ?l by (metis rtranclD)
  qed
  then have "?R\<^sup>+ `` {ti} = {e \<in> {ti..seg_end t ti}. \<exists>ws. ws \<noteq> [] \<and> slice t ti e = concat ws \<and> (\<forall>w \<in> set ws. w \<noteq> [] \<and> A w)}"
    by auto
  moreover have "reach_inv ?R ti (set P0) (P0, [ti], [ti])" by (simp add: reach_inv_def)
  ultimately show ?thesis using reach_loop_set [of alts whole t "seg_end t ti" ti "set P0" "(P0, [ti], [ti])"]
    by (simp add: A_def)
qed

lemma concat_nonempty: "concat (filter (\<lambda>w. w \<noteq> []) ws) = concat ws"
  by (induction ws) auto

lemma match_extglob_spans:
  assumes "ti \<le> length t" "op \<in> set ext_ops"
  shows "match_extglob op alts whole G t ti \<longleftrightarrow>
    spans (\<lambda>u. ch CHR ''/'' \<notin> set u \<and> ext_lang (\<lambda>w. \<exists>a \<in> set alts. whole a w) op u) G t ti"
proof -
  let ?A = "\<lambda>w. \<exists>a \<in> set alts. whole a w"
  note s = seg_end_bounds [OF assms(1)]
  have nil: "slice t ti ti = []" by (simp add: slice_def)
  have empties: "(\<exists>ws. u = concat ws \<and> (\<forall>w \<in> set ws. ?A w)) \<longleftrightarrow>
      u = [] \<or> (\<exists>ws. ws \<noteq> [] \<and> u = concat ws \<and> (\<forall>w \<in> set ws. w \<noteq> [] \<and> ?A w))" for u
  proof
    assume "\<exists>ws. u = concat ws \<and> (\<forall>w \<in> set ws. ?A w)"
    then obtain ws where "u = concat ws" "\<forall>w \<in> set ws. ?A w" by blast
    then have "u = concat (filter (\<lambda>w. w \<noteq> []) ws)" "\<forall>w \<in> set (filter (\<lambda>w. w \<noteq> []) ws). w \<noteq> [] \<and> ?A w"
      by (auto simp: concat_nonempty)
    then show "u = [] \<or> (\<exists>ws. ws \<noteq> [] \<and> u = concat ws \<and> (\<forall>w \<in> set ws. w \<noteq> [] \<and> ?A w))" by (metis concat.simps(1))
  next
    assume "u = [] \<or> (\<exists>ws. ws \<noteq> [] \<and> u = concat ws \<and> (\<forall>w \<in> set ws. w \<noteq> [] \<and> ?A w))"
    then show "\<exists>ws. u = concat ws \<and> (\<forall>w \<in> set ws. ?A w)" by (auto intro: exI [of _ "[]"])
  qed
  have op: "op = ch CHR ''@'' \<or> op = ch CHR ''!'' \<or> op = ch CHR ''+'' \<or> op = ch CHR ''*'' \<or> op = ch CHR ''?''"
    using assms(2) by (auto simp: ext_ops_def)
  have "match_extglob op alts whole G t ti \<longleftrightarrow> (\<exists>e \<in> {ti..seg_end t ti}. ext_lang ?A op (slice t ti e) \<and> G e)"
    using op
  proof (elim disjE)
    assume "op = ch CHR ''+''"
    then show ?thesis using reach_positions [OF assms(1), of whole alts "[]"]
      by (auto simp: match_extglob_def ext_lang_def list_ex_iff simp del: reach_loop.simps)
  next
    assume "op = ch CHR ''*''"
    then show ?thesis using reach_positions [OF assms(1), of whole alts "[ti]"] s slice_empty_iff [of ti _ t]
      by (auto simp: match_extglob_def ext_lang_def list_ex_iff empties nil simp del: reach_loop.simps)
  next
    assume "op = ch CHR ''?''"
    then show ?thesis using s slice_empty_iff [of ti _ t]
      by (auto simp: match_extglob_def ext_lang_def list_ex_iff set_alt_ends nil)
  qed (auto simp: match_extglob_def ext_lang_def list_ex_iff set_alt_ends Let_def)
  then show ?thesis using spans_segment [OF assms(1), of "ext_lang ?A op" G] by simp
qed

lemma list_ex_upt: "list_ex P [a..<b] \<longleftrightarrow> (\<exists>k \<in> {a..<b}. P k)"
  by (auto simp: list_ex_iff)

lemma match_class_bounds:
  "match_class p pi t ti = (case class_bounds p pi of None \<Rightarrow> None | Some (negate, body_start, close) \<Rightarrow>
     Some (ti < length t \<and> t ! ti \<noteq> ch CHR ''/'' \<and> class_scan (t ! ti) (slice p body_start close) False \<noteq> negate,
       close - pi + 1, True))"
  by (auto simp: match_class_def Let_def split: option.split)

text \<open>The matcher at one token: some prefix of the rest of the subject belongs to the token and the
  matcher goes on behind it. One lemma for each kind of token, then all together.\<close>

definition at_globstar :: "rtext \<Rightarrow> nat \<Rightarrow> bool" where
  "at_globstar p pi \<longleftrightarrow>
     p ! pi = ch CHR ''*'' \<and> pi + 1 < length p \<and> p ! (pi + 1) = ch CHR ''*'' \<and> is_segment_globstar p pi"

definition token_ok :: "rtext \<Rightarrow> nat \<Rightarrow> rtext \<Rightarrow> nat \<Rightarrow> bool" where
  "token_ok p pi t ti \<longleftrightarrow>
     (case next_tok p pi of (tk, nxt) \<Rightarrow>
        glob_m p pi t ti \<longleftrightarrow> spans (tok_lang (\<lambda>a u. glob_m a 0 u 0) tk) (glob_m p nxt t) t ti)"

lemma spans_lit: "spans (tok_lang L (Lit c)) G t ti \<longleftrightarrow> ti < length t \<and> t ! ti = c \<and> G (Suc ti)"
  using spans_single [of "\<lambda>d. d = c" G t ti] by (simp add: spans_def)

lemma spans_any: "spans (tok_lang L Any) G t ti \<longleftrightarrow> ti < length t \<and> t ! ti \<noteq> ch CHR ''/'' \<and> G (Suc ti)"
  using spans_single [of "\<lambda>d. d \<noteq> ch CHR ''/''" G t ti] by (simp add: spans_def)

lemma spans_class:
  "spans (tok_lang L (Class n b)) G t ti \<longleftrightarrow>
   ti < length t \<and> (t ! ti \<noteq> ch CHR ''/'' \<and> class_scan (t ! ti) b False \<noteq> n) \<and> G (Suc ti)"
  using spans_single [of "\<lambda>d. d \<noteq> ch CHR ''/'' \<and> class_scan d b False \<noteq> n" G t ti] by (simp add: spans_def)

lemma spans_star: "ti \<le> length t \<Longrightarrow> spans (tok_lang L Star) G t ti \<longleftrightarrow> (\<exists>e \<in> {ti..seg_end t ti}. G e)"
  using spans_segment [of ti t "\<lambda>_. True" G] by (simp add: spans_def)

lemma token_globstar:
  assumes "pi < length p" "ti \<le> length t" "at_globstar p pi"
  shows "token_ok p pi t ti"
proof -
  define slash where "slash \<longleftrightarrow> pi + 2 < length p \<and> p ! (pi + 2) = ch CHR ''/''"
  define nxt where "nxt = (if slash then pi + 3 else pi + 2)"
  have tk: "next_tok p pi = (Globstar slash, nxt)"
    using assms(3) by (simp add: next_tok_def slash_def nxt_def at_globstar_def)
  have m: "glob_m p pi t ti \<longleftrightarrow> glob_m p nxt t ti \<or> (\<exists>k \<in> {ti..<length t}. t ! k = ch CHR ''/'' \<and> glob_m p nxt t (k + 1))
      \<or> \<not> slash \<and> (\<exists>k \<in> {ti..<Suc (length t)}. glob_m p nxt t k)"
  proof -
    have mx: "max ti (length t) = length t" "\<not> length p \<le> pi" using assms by simp_all
    show ?thesis
      unfolding glob_m.simps [of p pi t ti] Let_def at_globstar_def [symmetric] slash_def [symmetric] nxt_def [symmetric] mx list_ex_upt
      using assms(3) mx(2) by simp
  qed
  show ?thesis
  proof (cases slash)
    case True
    have "tok_lang L (Globstar True) = (\<lambda>u. u = [] \<or> last u = ch CHR ''/'')" for L
      by (rule ext) simp
    then show ?thesis using True m spans_globstar [OF assms(2)] by (simp add: token_ok_def tk)
  next
    case False
    have "glob_m p pi t ti \<longleftrightarrow> (\<exists>k \<in> {ti..length t}. glob_m p nxt t k)"
    proof
      assume "glob_m p pi t ti"
      then show "\<exists>k \<in> {ti..length t}. glob_m p nxt t k"
        using m assms(2) by (auto simp: less_Suc_eq_le intro: bexI [of _ "Suc k" for k])
    qed (use m False in \<open>auto simp: less_Suc_eq_le\<close>)
    then show ?thesis using False by (auto simp: token_ok_def tk spans_def)
  qed
qed

lemma token_group:
  assumes "pi < length p" "ti \<le> length t" "\<not> at_globstar p pi" "ext_group p pi = Some (alts, after)"
  shows "token_ok p pi t ti"
proof -
  have "p ! pi \<in> set ext_ops" using assms(4) by (auto simp: ext_group_def split: if_splits)
  moreover have "next_tok p pi = (Ext (p ! pi) alts, after)"
    using assms(3,4) by (auto simp: next_tok_def at_globstar_def)
  moreover have "glob_m p pi t ti = match_extglob (p ! pi) alts (\<lambda>a u. glob_m a 0 u 0) (\<lambda>e. glob_m p after t e) t ti"
    using assms(1,3,4) unfolding glob_m.simps [of p pi t ti] Let_def at_globstar_def [symmetric] by simp
  moreover have "tok_lang L (Ext op alts) = (\<lambda>u. ch CHR ''/'' \<notin> set u \<and> ext_lang (\<lambda>w. \<exists>a \<in> set alts. L a w) op u)" for L op
    by (rule ext) simp
  ultimately show ?thesis using match_extglob_spans [OF assms(2)] by (simp add: token_ok_def)
qed

lemma token_class:
  assumes "pi < length p" "ext_group p pi = None" "p ! pi = ch CHR ''[''"
  shows "token_ok p pi t ti"
proof -
  have e: "glob_m p pi t ti = (case match_class p pi t ti of
      Some (matched, len, ok) \<Rightarrow> if \<not> ok \<or> \<not> matched then False else glob_m p (pi + len) t (ti + 1)
    | None \<Rightarrow> if length t \<le> ti \<or> t ! ti \<noteq> ch CHR ''['' then False else glob_m p (pi + 1) t (ti + 1))"
    using assms by (simp add: glob_m.simps [of p pi t ti])
  show ?thesis
  proof (cases "class_bounds p pi")
    case (Some x)
    obtain n b close where x: "x = (n, b, close)" by (cases x)
    then have "pi < close" using class_bounds_close Some by simp
    moreover have "next_tok p pi = (Class n (slice p b close), close + 1)"
      using assms Some x by (simp add: next_tok_def)
    ultimately show ?thesis using Some x by (auto simp: token_ok_def e match_class_bounds spans_class)
  next
    case None
    then have "next_tok p pi = (Lit (p ! pi), pi + 1)" using assms by (simp add: next_tok_def)
    then show ?thesis using None assms by (auto simp: token_ok_def e match_class_bounds spans_lit)
  qed
qed

lemma token_plain:
  assumes "pi < length p" "ti \<le> length t" "\<not> at_globstar p pi" "ext_group p pi = None" "p ! pi \<noteq> ch CHR ''[''"
  shows "token_ok p pi t ti"
proof -
  have m: "glob_m p pi t ti =
     (if p ! pi = ch CHR ''*'' then list_ex (\<lambda>k. glob_m p (pi + 1) t k) [ti..<Suc (seg_end t ti)]
      else if p ! pi = ch CHR ''?'' then
        (if length t \<le> ti \<or> t ! ti = ch CHR ''/'' then False else glob_m p (pi + 1) t (ti + 1))
      else if p ! pi = ch CHR 0x5C then
        (if length t \<le> ti \<or> t ! ti \<noteq> (if pi + 1 < length p then p ! (pi + 1) else ch CHR 0x5C) then False
         else glob_m p (pi + 2) t (ti + 1))
      else if length t \<le> ti \<or> t ! ti \<noteq> p ! pi then False
      else glob_m p (pi + 1) t (ti + 1))"
    unfolding glob_m.simps [of p pi t ti] Let_def at_globstar_def [symmetric]
    using assms(1,3,4,5) by simp
  have tk: "next_tok p pi =
     (if p ! pi = ch CHR ''*'' then (Star, pi + 1) else if p ! pi = ch CHR ''?'' then (Any, pi + 1)
      else if p ! pi = ch CHR 0x5C then (Lit (if pi + 1 < length p then p ! (pi + 1) else p ! pi), pi + 2)
      else (Lit (p ! pi), pi + 1))"
    unfolding next_tok_def Let_def at_globstar_def [symmetric] using assms(3,4,5) by simp
  show ?thesis
    using assms(2)
    by (simp add: token_ok_def m tk spans_star spans_any spans_lit list_ex_upt atLeastLessThanSuc_atLeastAtMost not_le
        del: upt_Suc)
qed

lemma glob_m_token:
  assumes "pi < length p" "ti \<le> length t"
  shows "token_ok p pi t ti"
  using assms token_globstar token_class token_plain
  by (cases "at_globstar p pi"; cases "ext_group p pi"; cases "p ! pi = ch CHR ''[''") (auto intro: token_group)

lemma glob_m_lang: "ti \<le> length t \<Longrightarrow> glob_m p pi t ti \<longleftrightarrow> glob_lang p pi (drop ti t)"
proof (induction "length p - pi" arbitrary: p pi t ti rule: less_induct)
  case less
  show ?case
  proof (cases "length p \<le> pi")
    case True
    then show ?thesis using less.prems by (simp add: glob_m.simps [of p] glob_lang.simps [of p])
  next
    case False
    obtain tk nxt where tk: "next_tok p pi = (tk, nxt)" by fastforce
    have alts: "tok_lang (\<lambda>a u. glob_m a 0 u 0) tk = tok_lang (\<lambda>a w. glob_lang a 0 w) tk"
      by (rule ext, rule tok_lang_cong) (use less.hyps next_tok_bounds(2) [OF tk] in auto)
    have rest: "glob_m p nxt t e = glob_lang p nxt (drop e t)" if "e \<le> length t" for e
      using less.hyps [of p nxt e t] False next_tok_bounds(1) [OF tk] that by simp
    have "glob_m p pi t ti \<longleftrightarrow> spans (tok_lang (\<lambda>a w. glob_lang a 0 w) tk) (\<lambda>e. glob_lang p nxt (drop e t)) t ti"
      using glob_m_token [of pi p ti t] False less.prems rest by (auto simp: token_ok_def tk alts spans_def)
    also have "\<dots> \<longleftrightarrow> (\<exists>u v. drop ti t = u @ v \<and> tok_lang (\<lambda>a w. glob_lang a 0 w) tk u \<and> glob_lang p nxt v)"
      unfolding spans_def by (rule split_iff_slice [OF less.prems, symmetric])
    finally show ?thesis using False by (simp add: glob_lang.simps [of p pi "drop ti t"] tk)
  qed
qed

section \<open>The matcher decides the language\<close>

text \<open>C3: The glob matcher decides the language of its pattern. \<open>globmatch\<close> accepts a subject exactly when
  some brace expansion of the pattern, read as a sequence of tokens, takes the whole subject: a literal
  takes itself, \<open>?\<close>, a class and \<open>*\<close> stay within a path segment, a globstar takes whole segments, and
  an extended group takes one of, none of, or a repetition of its alternatives within the segment.\<close>

theorem globmatch_language: "globmatch pat s \<longleftrightarrow> (\<exists>alt \<in> set (expand_braces pat). glob_lang alt 0 s)"
  using glob_m_lang [of 0 s] by (simp add: globmatch_def match_pattern_def list_ex_iff)

end
