(* ===== verification/Rules.thy ===== *)
theory Rules
  imports Glob_Language
begin

text \<open>
  The rule file of \<open>engine/src/rules.rs\<close>: actions, clauses, targets, the clause fold, the parser and
  printer of one rule line, and the decisions taken from an ordered list of rules. A kind is the
  string the source compares. The trait \<open>Target\<close> is the function \<open>match_one\<close> of the target at hand.
\<close>

section \<open>Data\<close>

definition FILE_KINDS :: "rtext list" where
  "FILE_KINDS = map str [''path'', ''box'', ''exe'', ''cwd'', ''arg'']"

definition NET_KINDS :: "rtext list" where
  "NET_KINDS = map str [''host'', ''port'', ''scheme'', ''sni'', ''http_path'', ''http_method'', ''http_status'',
     ''proto'', ''box'', ''exe'', ''cwd'', ''arg'']"

datatype action = Apply | Discard | Passthrough | Ask

definition action_parse :: "rtext \<Rightarrow> action option" where
  "action_parse s =
     (if s = str ''apply'' then Some Apply else if s = str ''discard'' then Some Discard
      else if s = str ''passthrough'' then Some Passthrough else if s = str ''ask'' then Some Ask else None)"

fun as_str :: "action \<Rightarrow> rtext" where
  "as_str Apply = str ''apply''"
| "as_str Discard = str ''discard''"
| "as_str Passthrough = str ''passthrough''"
| "as_str Ask = str ''ask''"

record rmatch =
  kind :: rtext
  pattern :: rtext

datatype join = And | Or

record clause =
  c_m :: rmatch
  c_join :: join
  c_negate :: bool
  c_enabled :: bool

record file_rule =
  r_action :: action
  r_clauses :: "clause list"

section \<open>Matching\<close>

definition glob_match :: "rtext \<Rightarrow> rtext \<Rightarrow> bool" where
  "glob_match pat s = (let pat = trim pat in if pat = [] then False else globmatch pat s)"

definition has_glob_meta :: "rtext \<Rightarrow> bool" where
  "has_glob_meta pat \<longleftrightarrow>
     ch CHR ''*'' \<in> set pat \<or> ch CHR ''?'' \<in> set pat \<or> ch CHR ''['' \<in> set pat \<or> ch CHR ''{'' \<in> set pat"

definition wrap_bare_as_substring :: "rtext \<Rightarrow> rtext" where
  "wrap_bare_as_substring pat =
     (let pat = trim pat in
      if pat = [] \<or> has_glob_meta pat then pat else str ''*'' @ pat @ str ''*'')"

definition cmd_match :: "rtext \<Rightarrow> rtext \<Rightarrow> bool" where
  "cmd_match pat s = (let pat = trim pat in if pat = [] then False else textmatch (wrap_bare_as_substring pat) s)"

definition path_match :: "rtext \<Rightarrow> rtext \<Rightarrow> bool" where
  "path_match pat rel =
     (let pat = trim pat in
      if pat = [] then False
      else let s = str ''/'' @ dropWhile (\<lambda>c. c = ch CHR ''/'') rel;
               p = (if ch CHR ''/'' \<notin> set pat \<or> hd pat \<noteq> ch CHR ''/'' then str ''**/'' @ pat else pat)
           in globmatch p s)"

section \<open>Subjects and targets\<close>

record subject =
  box_name :: rtext
  exe :: rtext
  cwd :: rtext
  argv :: "rtext list"

definition subject_default :: subject where
  "subject_default = \<lparr>box_name = [], exe = [], cwd = [], argv = []\<rparr>"

definition subject_match :: "subject \<Rightarrow> rmatch \<Rightarrow> bool" where
  "subject_match s m =
     (if kind m = str ''box'' then glob_match (pattern m) (box_name s)
      else if kind m = str ''exe'' then path_match (pattern m) (exe s)
      else if kind m = str ''cwd'' then path_match (pattern m) (cwd s)
      else if kind m = str ''arg'' then list_ex (\<lambda>a. glob_match (pattern m) a) (argv s)
      else False)"

definition ids_of :: "rtext \<Rightarrow> int list" where
  "ids_of pat = List.map_filter (\<lambda>t. parse_i64 (trim t)) (split_at (ch CHR '','') pat)"

record path_target =
  pt_rel :: rtext
  pt_subject :: subject
  pt_ids :: "int list"

definition path_match_one :: "path_target \<Rightarrow> rmatch \<Rightarrow> bool" where
  "path_match_one tgt m =
     (if kind m = str ''path'' then path_match (pattern m) (pt_rel tgt)
      else if kind m = str ''ids'' then
        let want = ids_of (pattern m) in list_ex (\<lambda>i. i \<in> set want) (pt_ids tgt)
      else subject_match (pt_subject tgt) m)"

record proc_filter_target =
  pf_row_id :: int
  pf_subject :: subject
  pf_err :: bool

definition proc_match_one :: "proc_filter_target \<Rightarrow> rmatch \<Rightarrow> bool" where
  "proc_match_one tgt m =
     (if kind m = str ''ids'' then pf_row_id tgt \<in> set (ids_of (pattern m))
      else if kind m = str ''err'' then pf_err tgt
      else subject_match (pf_subject tgt) m)"

record pipeline_filter_target =
  pl_row_id :: int
  pl_cmd :: rtext
  pl_err :: bool

definition pipeline_match_one :: "pipeline_filter_target \<Rightarrow> rmatch \<Rightarrow> bool" where
  "pipeline_match_one tgt m =
     (if kind m = str ''ids'' then pl_row_id tgt \<in> set (ids_of (pattern m))
      else if kind m = str ''cmd'' then cmd_match (pattern m) (pl_cmd tgt)
      else if kind m = str ''err'' then pl_err tgt
      else False)"

record edge_filter_target =
  ef_row_id :: int
  ef_targets :: "rtext list"
  ef_cmd :: rtext
  ef_err :: bool

definition edge_match_one :: "edge_filter_target \<Rightarrow> rmatch \<Rightarrow> bool" where
  "edge_match_one tgt m =
     (if kind m = str ''ids'' then ef_row_id tgt \<in> set (ids_of (pattern m))
      else if kind m = str ''target'' then list_ex (\<lambda>t. path_match (pattern m) t) (ef_targets tgt)
      else if kind m = str ''cmd'' then cmd_match (pattern m) (ef_cmd tgt)
      else if kind m = str ''err'' then ef_err tgt
      else False)"

definition clause_fold :: "(rmatch \<Rightarrow> bool) \<Rightarrow> clause \<Rightarrow> bool option \<Rightarrow> bool option" where
  "clause_fold match_one c acc =
     (if \<not> c_enabled c then acc
      else let v = (if c_negate c then \<not> match_one (c_m c) else match_one (c_m c))
           in Some (case acc of
                None \<Rightarrow> v
              | Some a \<Rightarrow> (case c_join c of Or \<Rightarrow> a \<or> v | And \<Rightarrow> a \<and> v)))"

definition eval_clauses :: "(rmatch \<Rightarrow> bool) \<Rightarrow> clause list \<Rightarrow> bool" where
  "eval_clauses match_one clauses =
     (case fold (clause_fold match_one) clauses None of None \<Rightarrow> False | Some a \<Rightarrow> a)"

definition rule_matches :: "(rmatch \<Rightarrow> bool) \<Rightarrow> file_rule \<Rightarrow> bool" where
  "rule_matches match_one r = eval_clauses match_one (r_clauses r)"

section \<open>Printing and parsing\<close>

definition clause_words :: "nat \<Rightarrow> clause \<Rightarrow> rtext list" where
  "clause_words n c =
     (if n > 0 then [case c_join c of Or \<Rightarrow> str ''or'' | And \<Rightarrow> str ''and''] else [])
     @ (if \<not> c_enabled c then [str ''off''] else [])
     @ (if c_negate c then [str ''not''] else [])
     @ [if kind (c_m c) = str ''path'' then pattern (c_m c) else kind (c_m c) @ str '':'' @ pattern (c_m c)]"

definition to_line :: "file_rule \<Rightarrow> rtext" where
  "to_line r =
     join_with (str '' '') (as_str (r_action r) #
       map (\<lambda>(n, c). join_with (str '' '') (clause_words n c)) (enumerate 0 (r_clauses r)))"

fun take_flags :: "rtext list \<Rightarrow> bool \<Rightarrow> bool \<Rightarrow> bool \<times> bool \<times> rtext list" where
  "take_flags [] off neg = (off, neg, [])"
| "take_flags (t # ts) off neg =
     (if to_ascii_lowercase t = str ''off'' then take_flags ts True neg
      else if to_ascii_lowercase t = str ''not'' then take_flags ts off True
      else (off, neg, t # ts))"

definition split_pred :: "rtext \<Rightarrow> rtext \<times> rtext" where
  "split_pred p =
     (case split_once (ch CHR '':'') p of
        Some (k, q) \<Rightarrow>
          if to_ascii_lowercase k \<in> set FILE_KINDS \<or> to_ascii_lowercase k \<in> set NET_KINDS
          then (to_ascii_lowercase k, q) else (str ''path'', p)
      | None \<Rightarrow> (str ''path'', p))"

definition take_join :: "clause list \<Rightarrow> join \<Rightarrow> rtext list \<Rightarrow> join \<times> rtext list" where
  "take_join clauses join toks =
     (case toks of
        [] \<Rightarrow> (join, toks)
      | t # ts \<Rightarrow>
          if clauses \<noteq> [] \<and> (to_ascii_lowercase t = str ''and'' \<or> to_ascii_lowercase t = str ''or'')
          then (if to_ascii_lowercase t = str ''or'' then Or else And, ts) else (join, toks))"

lemma length_take_flags: "take_flags ts off neg = (off', neg', ts') \<Longrightarrow> length ts' \<le> length ts"
  by (induction ts off neg rule: take_flags.induct) (auto split: if_splits)

lemma length_take_join: "take_join clauses join ts = (join', ts') \<Longrightarrow> length ts' \<le> length ts"
  by (auto simp: take_join_def split: list.splits if_splits)

lemma clauses_loop_measure:
  assumes "(join1, toks1) = take_join clauses join toks" "(off, x) = take_flags toks1 False False" "(neg, pred # toks3) = x"
  shows "length toks3 < length toks"
  using length_take_join [OF assms(1) [symmetric]] length_take_flags [of toks1 False False off neg "pred # toks3"] assms
  by simp

function clauses_loop :: "rtext list \<Rightarrow> join \<Rightarrow> clause list \<Rightarrow> clause list" where
  "clauses_loop toks join clauses =
     (if toks = [] then clauses
      else case take_join clauses join toks of (join1, toks1) \<Rightarrow>
        case take_flags toks1 False False of (off, neg, toks2) \<Rightarrow>
          case toks2 of
            [] \<Rightarrow> clauses
          | pred # toks3 \<Rightarrow>
              case split_pred pred of (k, pat) \<Rightarrow>
                if pat = [] then clauses_loop toks3 join1 clauses
                else clauses_loop toks3 And (clauses @
                  [\<lparr>c_m = \<lparr>kind = k, pattern = pat\<rparr>, c_join = (if clauses = [] then And else join1),
                    c_negate = neg, c_enabled = \<not> off\<rparr>]))"
  by pat_completeness auto
termination
  by (relation "measure (\<lambda>(toks, _, _). length toks)")
    (simp_all only: wf_measure in_measure prod.case, (blast intro: clauses_loop_measure)+)

declare clauses_loop.simps [simp del]

definition parse_clauses :: "rtext \<Rightarrow> clause list" where
  "parse_clauses s = clauses_loop (split_whitespace s) And []"

definition rule_parse :: "rtext \<Rightarrow> file_rule option" where
  "rule_parse line =
     (let s = trim line in
      if s = [] \<or> hd s = ch CHR ''#'' then None
      else let (verb, rest) = (case split_once (ch CHR '' '') s of Some (v, r) \<Rightarrow> (v, r) | None \<Rightarrow> (s, []))
           in case action_parse (to_ascii_lowercase verb) of
                None \<Rightarrow> None
              | Some act \<Rightarrow>
                  let clauses = parse_clauses (trim rest)
                  in if clauses = [] then None else Some \<lparr>r_action = act, r_clauses = clauses\<rparr>)"

definition path_only :: "file_rule \<Rightarrow> bool" where
  "path_only r = list_all (\<lambda>c. kind (c_m c) = str ''path'') (r_clauses r)"

section \<open>Rule files\<close>

definition rules_parse :: "rtext \<Rightarrow> file_rule list" where
  "rules_parse text = List.map_filter rule_parse (lines text)"

text \<open>\<open>load\<close> with what reading the file gave; a file that cannot be read is empty.\<close>

definition rules_load :: "rtext option \<Rightarrow> file_rule list" where
  "rules_load contents = rules_parse (case contents of None \<Rightarrow> [] | Some text \<Rightarrow> text)"

definition decide :: "file_rule list \<Rightarrow> rtext \<Rightarrow> subject \<Rightarrow> action option" where
  "decide rules rel subj =
     (let target = \<lparr>pt_rel = rel, pt_subject = subj, pt_ids = []\<rparr>
      in map_option r_action (List.find (\<lambda>r. rule_matches (path_match_one target) r) rules))"

fun passthrough_loop :: "path_target \<Rightarrow> file_rule list \<Rightarrow> bool" where
  "passthrough_loop target [] = False"
| "passthrough_loop target (r # rs) =
     (if \<not> path_only r then passthrough_loop target rs
      else if rule_matches (path_match_one target) r then r_action r = Passthrough
      else passthrough_loop target rs)"

definition passthrough_path_only :: "file_rule list \<Rightarrow> rtext \<Rightarrow> bool" where
  "passthrough_path_only rules rel =
     passthrough_loop \<lparr>pt_rel = rel, pt_subject = subject_default, pt_ids = []\<rparr> rules"

definition needs_proc :: "file_rule list \<Rightarrow> bool" where
  "needs_proc rules =
     list_ex (\<lambda>c. kind (c_m c) \<in> {str ''exe'', str ''cwd'', str ''arg''}) (concat (map r_clauses rules))"

definition needs_box :: "file_rule list \<Rightarrow> bool" where
  "needs_box rules = list_ex (\<lambda>c. kind (c_m c) = str ''box'') (concat (map r_clauses rules))"

end
