(* ===== verification/Rules_Laws.thy ===== *)
theory Rules_Laws
  imports Rules
begin

text \<open>
  What the rule file promises: parsed rules are well formed, a printed rule with bare path patterns parses back,
  a decision depends on a subject only as far as the rules ask, the kernel passthrough gate sees only path rules,
  and a bare command pattern without parenthesis or backslash is a substring search.
\<close>

section \<open>Words of a line\<close>

definition word_ok :: "rtext \<Rightarrow> bool" where
  "word_ok w \<longleftrightarrow> w \<noteq> [] \<and> (\<forall>c \<in> set w. \<not> is_whitespace c)"

lemma words_go_word: "\<forall>c \<in> set w. \<not> is_whitespace c \<Longrightarrow> words_go cur (w @ rest) = words_go (cur @ w) rest"
  by (induction w arbitrary: cur) auto

lemma is_whitespace_space [simp]: "is_whitespace 32"
  by (simp add: is_whitespace_def)

lemma join_with_Cons: "ws \<noteq> [] \<Longrightarrow> join_with sep (w # ws) = w @ sep @ join_with sep ws"
  by (cases ws) (simp_all add: join_with_def)

lemma split_whitespace_join: "\<forall>w \<in> set ws. word_ok w \<Longrightarrow> split_whitespace (join_with [32] ws) = ws"
proof (induction ws)
  case (Cons w ws)
  then show ?case
  proof (cases "ws = []")
    case True
    then show ?thesis using Cons.prems words_go_word [of w "[]" "[]"]
      by (simp add: split_whitespace_def join_with_def word_ok_def)
  next
    case False
    then show ?thesis using Cons words_go_word [of w "[]" "32 # join_with [32] ws"]
      by (simp add: join_with_Cons split_whitespace_def word_ok_def)
  qed
qed (simp add: join_with_def split_whitespace_def)

lemma words_go_ok: "\<forall>c \<in> set cur. \<not> is_whitespace c \<Longrightarrow> w \<in> set (words_go cur s) \<Longrightarrow> word_ok w"
proof (induction s arbitrary: cur)
  case (Cons x s)
  show ?case
    using Cons.IH [of "[]"] Cons.IH [of "cur @ [x]"] Cons.prems by (auto simp: word_ok_def split: if_splits)
qed (auto simp: word_ok_def split: if_splits)

lemma split_whitespace_ok: "w \<in> set (split_whitespace s) \<Longrightarrow> word_ok w"
  using words_go_ok [of "[]"] by (simp add: split_whitespace_def)

lemma trim_id:
  assumes "s = [] \<or> \<not> is_whitespace (hd s) \<and> \<not> is_whitespace (last s)"
  shows "trim s = s"
proof (cases "s = []")
  case False
  have d: "dropWhile is_whitespace xs = xs" if "xs \<noteq> []" "\<not> is_whitespace (hd xs)" for xs
    using that by (cases xs) auto
  show ?thesis using False assms d [of s] d [of "rev s"] by (simp add: trim_def trim_start_def hd_rev)
qed (simp add: trim_def trim_start_def)

lemma hd_last_join:
  assumes "ws \<noteq> []" "\<forall>w \<in> set ws. word_ok w"
  shows "join_with [32] ws \<noteq> [] \<and> hd (join_with [32] ws) = hd (hd ws) \<and> last (join_with [32] ws) = last (last ws)"
  using assms
proof (induction ws)
  case (Cons w ws)
  then show ?case by (cases "ws = []") (auto simp: join_with_Cons word_ok_def, simp_all add: join_with_def)
qed simp

lemma trim_join:
  assumes "\<forall>w \<in> set ws. word_ok w"
  shows "trim (join_with [32] ws) = join_with [32] ws"
proof (cases "ws = []")
  case False
  have "word_ok (hd ws)" "word_ok (last ws)" using assms False by auto
  then have "\<not> is_whitespace (hd (hd ws))" "\<not> is_whitespace (last (last ws))" by (auto simp: word_ok_def)
  then show ?thesis using hd_last_join [OF False assms] by (intro trim_id) simp
qed (simp add: join_with_def trim_id)

lemma split_once_word: "c \<notin> set w \<Longrightarrow> split_once c (w @ c # rest) = Some (w, rest)"
  by (induction w) auto

lemma join_with_concat:
  assumes "\<forall>ws \<in> set wss. ws \<noteq> []"
  shows "join_with sep (map (join_with sep) wss) = join_with sep (concat wss)"
proof -
  have app: "join_with sep (us @ vs) = join_with sep us @ sep @ join_with sep vs" if "us \<noteq> []" "vs \<noteq> []" for us vs
    using that by (induction us) (auto simp: join_with_Cons join_with_def split: list.splits)
  show ?thesis
    using assms
  proof (induction wss)
    case (Cons ws wss)
    then show ?case
    proof (cases "wss = []")
      case False
      then have "concat wss \<noteq> []" using Cons.prems by (cases wss) auto
      then show ?thesis using Cons False app [of ws "concat wss"] by (simp add: join_with_Cons)
    qed (simp add: join_with_def)
  qed (simp add: join_with_def)
qed

section \<open>Clauses\<close>

definition kinds :: "rtext set" where
  "kinds = set FILE_KINDS \<union> set NET_KINDS"

definition bare :: "rtext \<Rightarrow> bool" where
  "bare p \<longleftrightarrow> to_ascii_lowercase p \<notin> {str ''off'', str ''not''} \<and> split_pred p = (str ''path'', p)"

definition clause_typed :: "clause \<Rightarrow> bool" where
  "clause_typed c \<longleftrightarrow> kind (c_m c) \<in> kinds \<and> word_ok (pattern (c_m c))"

definition rule_typed :: "file_rule \<Rightarrow> bool" where
  "rule_typed r \<longleftrightarrow> r_clauses r \<noteq> [] \<and> c_join (hd (r_clauses r)) = And \<and> (\<forall>c \<in> set (r_clauses r). clause_typed c)"

definition bare_paths :: "file_rule \<Rightarrow> bool" where
  "bare_paths r \<longleftrightarrow> (\<forall>c \<in> set (r_clauses r). kind (c_m c) = str ''path'' \<longrightarrow> bare (pattern (c_m c)))"

definition pred_word :: "clause \<Rightarrow> rtext" where
  "pred_word c = (if kind (c_m c) = str ''path'' then pattern (c_m c) else kind (c_m c) @ str '':'' @ pattern (c_m c))"

lemma kinds_words: "k \<in> kinds \<Longrightarrow> word_ok k \<and> ch CHR '':'' \<notin> set k \<and> to_ascii_lowercase k = k"
  unfolding kinds_def FILE_KINDS_def NET_KINDS_def
  by (auto simp: word_ok_def is_whitespace_def to_ascii_lowercase_def ascii_lower_char_def)

lemma split_pred_word:
  assumes "clause_typed c" "kind (c_m c) = str ''path'' \<Longrightarrow> bare (pattern (c_m c))"
  shows "split_pred (pred_word c) = (kind (c_m c), pattern (c_m c))"
    "to_ascii_lowercase (pred_word c) \<notin> {str ''off'', str ''not''}" "word_ok (pred_word c)"
proof -
  note k = kinds_words [of "kind (c_m c)"]
  have colon: "ch CHR '':'' \<in> set (to_ascii_lowercase (a @ str '':'' @ b))" for a b
    by (auto simp: to_ascii_lowercase_def ascii_lower_char_def)
  have "split_pred (pred_word c) = (kind (c_m c), pattern (c_m c)) \<and>
    to_ascii_lowercase (pred_word c) \<notin> {str ''off'', str ''not''} \<and> word_ok (pred_word c)"
  proof (cases "kind (c_m c) = str ''path''")
    case True
    then show ?thesis using assms by (simp add: pred_word_def bare_def clause_typed_def)
  next
    case False
    have "split_pred (pred_word c) = (kind (c_m c), pattern (c_m c))"
      using assms(1) False k split_once_word [of "ch CHR '':''" "kind (c_m c)" "pattern (c_m c)"]
      by (simp add: pred_word_def split_pred_def clause_typed_def kinds_def)
    moreover have "to_ascii_lowercase (pred_word c) \<notin> {str ''off'', str ''not''}"
      using colon [of "kind (c_m c)" "pattern (c_m c)"] False by (auto simp: pred_word_def)
    moreover have "word_ok (pred_word c)"
      using assms(1) False k by (auto simp: pred_word_def clause_typed_def word_ok_def is_whitespace_def)
    ultimately show ?thesis by simp
  qed
  then show "split_pred (pred_word c) = (kind (c_m c), pattern (c_m c))"
    "to_ascii_lowercase (pred_word c) \<notin> {str ''off'', str ''not''}" "word_ok (pred_word c)" by simp_all
qed

lemma take_flags_words:
  assumes "to_ascii_lowercase w \<notin> {str ''off'', str ''not''}"
  shows "take_flags ((if \<not> en then [str ''off''] else []) @ (if ng then [str ''not''] else []) @ w # rest) False False
    = (\<not> en, ng, w # rest)"
  using assms by (cases en; cases ng) (simp_all add: to_ascii_lowercase_def ascii_lower_char_def)

lemma clauses_loop_step:
  assumes "clause_typed c" "kind (c_m c) = str ''path'' \<Longrightarrow> bare (pattern (c_m c))"
    and "if acc = [] then n = 0 \<and> c_join c = And \<and> j = And else n > 0"
  shows "clauses_loop (clause_words n c @ rest) j acc = clauses_loop rest And (acc @ [c])"
proof -
  note p = split_pred_word [OF assms(1,2)]
  let ?tail = "(if \<not> c_enabled c then [str ''off''] else []) @ (if c_negate c then [str ''not''] else []) @ pred_word c # rest"
  have w: "clause_words n c @ rest = (if n > 0 then [case c_join c of Or \<Rightarrow> str ''or'' | And \<Rightarrow> str ''and''] else []) @ ?tail"
    by (simp add: clause_words_def pred_word_def)
  have j1: "(if acc = [] then And else c_join c) = c_join c" using assms(3) by simp
  have tj: "take_join acc j (clause_words n c @ rest) = (c_join c, ?tail)"
    using assms(3) unfolding w
    by (cases "acc = []"; cases "c_join c")
      (auto simp: take_join_def to_ascii_lowercase_def ascii_lower_char_def split: list.split)
  have tf: "take_flags ?tail False False = (\<not> c_enabled c, c_negate c, pred_word c # rest)"
    by (rule take_flags_words [OF p(2)])
  have self: "\<lparr>c_m = \<lparr>kind = kind (c_m c), pattern = pattern (c_m c)\<rparr>, c_join = c_join c,
      c_negate = c_negate c, c_enabled = c_enabled c\<rparr> = c" by simp
  have ne: "clause_words n c @ rest \<noteq> []" "pattern (c_m c) \<noteq> []"
    using assms(1) by (auto simp: clause_words_def clause_typed_def word_ok_def)
  show ?thesis
    by (simp only: clauses_loop.simps [of "clause_words n c @ rest"] tj tf prod.case list.case p(1) j1 self ne if_False not_not)
qed

lemma clauses_loop_words:
  assumes "\<forall>c \<in> set cs. clause_typed c \<and> (kind (c_m c) = str ''path'' \<longrightarrow> bare (pattern (c_m c)))" "0 < n" "acc \<noteq> []"
  shows "clauses_loop (concat (map (\<lambda>(n, c). clause_words n c) (enumerate n cs))) And acc = acc @ cs"
  using assms
proof (induction cs arbitrary: n acc)
  case (Cons c cs)
  have "clauses_loop (clause_words n c @ concat (map (\<lambda>(n, c). clause_words n c) (enumerate (Suc n) cs))) And acc =
      clauses_loop (concat (map (\<lambda>(n, c). clause_words n c) (enumerate (Suc n) cs))) And (acc @ [c])"
    using Cons.prems by (intro clauses_loop_step) auto
  also have "\<dots> = (acc @ [c]) @ cs" by (rule Cons.IH) (use Cons.prems in auto)
  finally show ?case by simp
qed (simp add: clauses_loop.simps)

lemma flag_words: "word_ok (str ''or'')" "word_ok (str ''and'')" "word_ok (str ''off'')" "word_ok (str ''not'')"
  by (simp_all add: word_ok_def is_whitespace_def)

lemma clause_words_ok:
  assumes "clause_typed c" "kind (c_m c) = str ''path'' \<Longrightarrow> bare (pattern (c_m c))" "w \<in> set (clause_words n c)"
  shows "word_ok w"
proof -
  have "\<forall>w \<in> set (clause_words n c). word_ok w"
    unfolding clause_words_def pred_word_def [symmetric]
    using split_pred_word(3) [OF assms(1,2)] flag_words
    by (cases "c_join c") (simp_all only: set_append ball_Un list.set ball_simps if_split join.case simp_thms Un_iff split: if_split)
  then show ?thesis using assms(3) by blast
qed

lemma as_str_word: "word_ok (as_str a) \<and> 32 \<notin> set (as_str a) \<and> hd (as_str a) \<noteq> ch CHR ''#''
    \<and> action_parse (to_ascii_lowercase (as_str a)) = Some a"
  by (cases a) (simp_all add: word_ok_def is_whitespace_def to_ascii_lowercase_def ascii_lower_char_def action_parse_def)

text \<open>C19: A printed rule parses back, under two conditions on the rule. It has clauses, of known kinds and
  with one-word patterns, the first joined by \<open>and\<close>; and every path pattern is bare: it is not the
  word \<open>off\<close> or \<open>not\<close> in any case and does not read as \<open>kind:pattern\<close>. For such a rule the parser
  applied to \<open>to_line\<close> returns the very rule: action, kinds, patterns, joins, negations and disabled clauses.\<close>

theorem rule_print_parse:
  assumes "rule_typed r" "bare_paths r"
  shows "rule_parse (to_line r) = Some r"
proof -
  let ?css = "map (\<lambda>(n, c). clause_words n c) (enumerate 0 (r_clauses r))"
  let ?words = "as_str (r_action r) # concat ?css"
  have typed: "\<forall>c \<in> set (r_clauses r). clause_typed c \<and> (kind (c_m c) = str ''path'' \<longrightarrow> bare (pattern (c_m c)))"
    using assms by (auto simp: rule_typed_def bare_paths_def)
  obtain c cs where cs: "r_clauses r = c # cs" using assms(1) by (cases "r_clauses r") (auto simp: rule_typed_def)
  have ok: "\<forall>w \<in> set (concat ?css). word_ok w"
    using typed clause_words_ok by (fastforce simp: in_set_enumerate_eq)
  have ne: "\<forall>ws \<in> set ?css. ws \<noteq> []" by (auto simp: clause_words_def)
  have line: "to_line r = as_str (r_action r) @ 32 # join_with [32] (concat ?css)"
  proof -
    have "to_line r = join_with [32] (map (join_with [32]) ([as_str (r_action r)] # ?css))"
      by (simp add: to_line_def comp_def case_prod_unfold, simp add: join_with_def)
    also have "\<dots> = join_with [32] (concat ([as_str (r_action r)] # ?css))"
      by (rule join_with_concat) (use ne in simp)
    finally show ?thesis by (simp add: join_with_Cons cs clause_words_def)
  qed
  have "to_line r = join_with [32] ?words" using line by (simp add: join_with_Cons cs clause_words_def)
  then have t: "trim (to_line r) = to_line r" using trim_join [of ?words] ok as_str_word by simp
  have "clauses_loop (concat ?css) And [] = r_clauses r"
    using typed assms(1) clauses_loop_step [of c "[]" 0 And "concat (map (\<lambda>(n, c). clause_words n c) (enumerate 1 cs))"]
      clauses_loop_words [of cs 1 "[c]"]
    by (simp add: cs rule_typed_def)
  then have "parse_clauses (trim (join_with [32] (concat ?css))) = r_clauses r"
    by (simp only: parse_clauses_def trim_join [OF ok] split_whitespace_join [OF ok])
  moreover have "hd (to_line r) = hd (as_str (r_action r))" using as_str_word [of "r_action r"]
    by (simp add: line word_ok_def)
  ultimately show ?thesis
    using as_str_word [of "r_action r"] split_once_word [of 32 "as_str (r_action r)" "join_with [32] (concat ?css)"]
    by (simp add: rule_parse_def t, simp add: line cs)
qed

definition sample_rule :: file_rule where
  "sample_rule = \<lparr>r_action = Passthrough, r_clauses =
     [\<lparr>c_m = \<lparr>kind = str ''path'', pattern = str ''/a/*''\<rparr>, c_join = And, c_negate = True, c_enabled = True\<rparr>,
      \<lparr>c_m = \<lparr>kind = str ''host'', pattern = str ''b.c''\<rparr>, c_join = Or, c_negate = False, c_enabled = False\<rparr>]\<rparr>"

lemma sample_rule_ok: "rule_typed sample_rule" "bare_paths sample_rule"
  by (simp_all add: sample_rule_def rule_typed_def bare_paths_def clause_typed_def kinds_def FILE_KINDS_def NET_KINDS_def
      word_ok_def is_whitespace_def bare_def to_ascii_lowercase_def ascii_lower_char_def split_pred_def)

theorem rule_print_parse_witness: "rule_parse (to_line sample_rule) = Some sample_rule"
  by (rule rule_print_parse [OF sample_rule_ok])

section \<open>Parsed rules\<close>

lemma set_take_flags: "take_flags ts off neg = (off', neg', ts') \<Longrightarrow> set ts' \<subseteq> set ts"
  by (induction ts off neg rule: take_flags.induct) (auto split: if_splits)

lemma set_take_join: "take_join clauses join ts = (join', ts') \<Longrightarrow> set ts' \<subseteq> set ts"
  by (auto simp: take_join_def split: list.splits if_splits)

lemma set_split_once: "split_once c s = Some (a, b) \<Longrightarrow> set b \<subseteq> set s"
  by (induction s arbitrary: a b) (auto split: if_splits)

lemma split_pred_typed:
  assumes "split_pred p = (k, pat)" "word_ok p" "pat \<noteq> []"
  shows "k \<in> kinds \<and> word_ok pat"
proof (cases "split_once (ch CHR '':'') p")
  case None
  then show ?thesis using assms by (auto simp: split_pred_def kinds_def FILE_KINDS_def)
next
  case (Some x)
  obtain a b where x: "x = (a, b)" by (cases x)
  have "set b \<subseteq> set p" using set_split_once Some x by blast
  moreover have "str ''path'' \<in> kinds" by (simp add: kinds_def FILE_KINDS_def)
  ultimately show ?thesis
    using assms Some x by (auto simp: split_pred_def kinds_def word_ok_def simp del: list.map split: if_splits)
qed

definition clauses_typed :: "clause list \<Rightarrow> bool" where
  "clauses_typed cs \<longleftrightarrow> (cs \<noteq> [] \<longrightarrow> c_join (hd cs) = And) \<and> (\<forall>c \<in> set cs. clause_typed c)"

lemma clauses_loop_typed:
  "\<forall>w \<in> set toks. word_ok w \<Longrightarrow> clauses_typed acc \<Longrightarrow> clauses_typed (clauses_loop toks join acc)"
proof (induction toks join acc rule: clauses_loop.induct)
  case (1 toks join acc)
  obtain j1 t1 where tj: "take_join acc join toks = (j1, t1)" by fastforce
  obtain off neg t2 where tf: "take_flags t1 False False = (off, neg, t2)" using prod_cases3 by blast
  show ?case
  proof (cases "toks = [] \<or> t2 = []")
    case True
    then show ?thesis using 1 by (subst clauses_loop.simps) (auto simp: tj tf)
  next
    case False
    then obtain w t3 where t2: "t2 = w # t3" by (cases t2) auto
    obtain k pat where sp: "split_pred w = (k, pat)" by fastforce
    have sub: "set t2 \<subseteq> set toks" using set_take_join [OF tj] set_take_flags [OF tf] by blast
    let ?c = "\<lparr>c_m = \<lparr>kind = k, pattern = pat\<rparr>, c_join = (if acc = [] then And else j1), c_negate = neg, c_enabled = \<not> off\<rparr>"
    have e: "clauses_loop toks join acc = (if pat = [] then clauses_loop t3 j1 acc else clauses_loop t3 And (acc @ [?c]))"
      using False by (subst clauses_loop.simps) (simp add: tj tf t2 sp)
    have w: "word_ok w" "\<forall>w \<in> set t3. word_ok w" using 1(3) sub t2 by auto
    show ?thesis
    proof (cases "pat = []")
      case True
      then show ?thesis unfolding e
        using 1(1) [OF _ tj [symmetric] tf [symmetric] refl t2 sp [symmetric]] False w 1(4) by simp
    next
      case pat: False
      have "clause_typed ?c" using split_pred_typed [OF sp w(1) pat] by (simp add: clause_typed_def)
      then have "clauses_typed (acc @ [?c])" using 1(4) by (cases acc) (simp_all add: clauses_typed_def)
      then show ?thesis unfolding e
        using 1(2) [OF _ tj [symmetric] tf [symmetric] refl t2 sp [symmetric]] False pat w by simp
    qed
  qed
qed

text \<open>C31: Parsed rules are well typed. Whatever the line, a rule the parser returns has at least one
  clause, its first clause joins by \<open>and\<close>, and every clause has a known kind and a pattern that is
  one nonempty word.\<close>

theorem rule_parse_typed:
  assumes "rule_parse line = Some r"
  shows "rule_typed r"
proof -
  obtain rest where "r_clauses r = parse_clauses rest" "r_clauses r \<noteq> []"
    using assms by (auto simp: rule_parse_def Let_def split: if_splits prod.splits option.splits)
  moreover have "clauses_typed (parse_clauses rest)"
    unfolding parse_clauses_def
    by (rule clauses_loop_typed) (auto simp: clauses_typed_def dest: split_whitespace_ok)
  ultimately show ?thesis by (simp add: rule_typed_def clauses_typed_def)
qed

lemmas parse_defs = rule_parse_def parse_clauses_def trim_def trim_start_def is_whitespace_def action_parse_def
  to_ascii_lowercase_def ascii_lower_char_def split_whitespace_def take_join_def split_pred_def FILE_KINDS_def NET_KINDS_def
  clauses_loop.simps

definition path_host :: file_rule where
  "path_host = \<lparr>r_action = Discard, r_clauses =
     [\<lparr>c_m = \<lparr>kind = str ''path'', pattern = str ''host:x''\<rparr>, c_join = And, c_negate = False, c_enabled = True\<rparr>]\<rparr>"

lemma path_host_parsed: "rule_parse (str ''discard path:host:x'') = Some path_host"
  by (simp add: parse_defs path_host_def)

theorem rule_parse_typed_witness: "rule_parse (str ''discard path:host:x'') = Some path_host \<and> rule_typed path_host"
  using rule_parse_typed [OF path_host_parsed] path_host_parsed by simp

text \<open>A path pattern that reads as another kind is printed bare and comes back as that kind: the rule about
  the path \<open>host:x\<close> turns into a rule about the host \<open>x\<close>.\<close>

lemma path_kind_lost:
  "map_option (\<lambda>r. map (\<lambda>c. kind (c_m c)) (r_clauses r)) (rule_parse (to_line path_host)) = Some [str ''host'']"
  by (simp add: parse_defs path_host_def to_line_def clause_words_def join_with_def)

section \<open>Decisions\<close>

lemma eval_clauses_cong:
  "\<forall>c \<in> set cs. f (c_m c) = g (c_m c) \<Longrightarrow> eval_clauses f cs = eval_clauses g cs"
proof -
  assume "\<forall>c \<in> set cs. f (c_m c) = g (c_m c)"
  then have "fold (clause_fold f) cs acc = fold (clause_fold g) cs acc" for acc
    by (induction cs arbitrary: acc) (auto simp: clause_fold_def)
  then show ?thesis by (simp add: eval_clauses_def)
qed

lemma find_cong: "\<forall>r \<in> set rs. P r = Q r \<Longrightarrow> List.find P rs = List.find Q rs"
  by (induction rs) auto

lemma decide_cong:
  assumes "\<forall>r \<in> set rules. \<forall>c \<in> set (r_clauses r). path_match_one \<lparr>pt_rel = rel, pt_subject = s, pt_ids = []\<rparr> (c_m c)
      = path_match_one \<lparr>pt_rel = rel, pt_subject = s', pt_ids = []\<rparr> (c_m c)"
  shows "decide rules rel s = decide rules rel s'"
proof -
  let ?m = "\<lambda>s. path_match_one \<lparr>pt_rel = rel, pt_subject = s, pt_ids = []\<rparr>"
  have "\<forall>r \<in> set rules. rule_matches (?m s) r = rule_matches (?m s') r"
    using assms eval_clauses_cong [of _ "?m s" "?m s'"] by (simp add: rule_matches_def)
  from find_cong [OF this] show ?thesis by (simp add: decide_def)
qed

text \<open>C28: A decision depends on its subject only as far as the rules ask. When the rules test no process
  facet unless both subjects have the same executable, directory and arguments, and test no box unless
  both have the same box name, the decision is the same for both: what \<open>needs_proc\<close> and
  \<open>needs_box\<close> allow a caller to leave unresolved cannot change it.\<close>

theorem decide_needs:
  assumes "needs_proc rules \<longrightarrow> exe s = exe s' \<and> cwd s = cwd s' \<and> argv s = argv s'"
    and "needs_box rules \<longrightarrow> box_name s = box_name s'"
  shows "decide rules rel s = decide rules rel s'"
proof (rule decide_cong, intro ballI)
  fix r c
  assume rc: "r \<in> set rules" "c \<in> set (r_clauses r)"
  have "kind (c_m c) \<in> {str ''exe'', str ''cwd'', str ''arg''} \<Longrightarrow> needs_proc rules"
    using rc by (auto simp: needs_proc_def list_ex_iff simp del: list.map)
  moreover have "kind (c_m c) = str ''box'' \<Longrightarrow> needs_box rules"
    using rc by (auto simp: needs_box_def list_ex_iff simp del: list.map)
  ultimately show "path_match_one \<lparr>pt_rel = rel, pt_subject = s, pt_ids = []\<rparr> (c_m c)
      = path_match_one \<lparr>pt_rel = rel, pt_subject = s', pt_ids = []\<rparr> (c_m c)"
    using assms by (simp add: path_match_one_def subject_match_def del: list.map)
qed

theorem decide_needs_witness:
  "decide [path_host] (str ''a'') \<lparr>box_name = str ''b'', exe = [], cwd = [], argv = []\<rparr>
   = decide [path_host] (str ''a'') \<lparr>box_name = [], exe = str ''e'', cwd = [], argv = [[]]\<rparr>"
  by (rule decide_needs) (simp_all add: needs_proc_def needs_box_def path_host_def)

text \<open>C20: The passthrough gate sees only path rules. \<open>passthrough_path_only\<close> holds exactly when the rules
  all of whose clauses are path clauses, taken alone and in order, decide \<open>Passthrough\<close>, whoever the
  subject is: no rule scoped to a box or a process opens the gate or shadows a path rule in it.\<close>

theorem passthrough_is_path_decision:
  "passthrough_path_only rules rel \<longleftrightarrow> decide (filter path_only rules) rel subj = Some Passthrough"
proof -
  have d: "decide (filter path_only rules) rel subj = decide (filter path_only rules) rel subject_default"
    by (rule decide_cong) (auto simp: path_only_def list_all_iff path_match_one_def simp del: list.map)
  have "passthrough_loop tgt rs \<longleftrightarrow>
      map_option r_action (List.find (\<lambda>r. rule_matches (path_match_one tgt) r) (filter path_only rs)) = Some Passthrough" for tgt rs
    by (induction rs) auto
  then show ?thesis unfolding d by (simp add: passthrough_path_only_def decide_def)
qed

section \<open>Bare command patterns\<close>

lemma trim_trim: "trim (trim s) = trim s"
proof (cases "trim s = []")
  case False
  define v where "v = dropWhile is_whitespace s"
  have u: "trim s = rev (dropWhile is_whitespace (rev v))" by (simp add: trim_def trim_start_def v_def)
  have "rev v = takeWhile is_whitespace (rev v) @ rev (trim s)" by (simp add: u)
  then have v: "v = trim s @ rev (takeWhile is_whitespace (rev v))" by (metis rev_append rev_rev_ident)
  have "hd v = hd (trim s)" "v \<noteq> []" using False by (subst v, simp, subst v, simp)
  then have "\<not> is_whitespace (hd (trim s))" using hd_dropWhile [of is_whitespace s] by (simp add: v_def)
  moreover have "\<not> is_whitespace (last (trim s))"
    using False hd_dropWhile [of is_whitespace "rev v"] by (simp add: u last_rev)
  ultimately show ?thesis by (simp add: trim_id)
qed (simp add: trim_id [of "[]"])

lemma expand_braces_none: "ch CHR ''{'' \<notin> set p \<Longrightarrow> expand_braces p = [p]"
proof -
  assume a: "ch CHR ''{'' \<notin> set p"
  have "find_group p i = None" for i
    using a
  proof (induction p i rule: find_group.induct)
    case (1 p i)
    have "i < length p \<Longrightarrow> p ! i \<noteq> ch CHR ''{''" using 1(5) by (metis nth_mem)
    then show ?case using 1 by (subst find_group.simps) simp
  qed
  then show ?thesis by (simp add: expand_braces.simps)
qed

text \<open>Text without any character the matcher treats specially.\<close>

definition plain :: "rtext \<Rightarrow> bool" where
  "plain q \<longleftrightarrow> set q \<inter> set (str ''*?[{(/'') = {} \<and> ch CHR 0x5C \<notin> set q"

lemma star_tokens:
  assumes "plain q" "q \<noteq> []"
  defines "p \<equiv> str ''*'' @ q @ str ''*''"
  shows "next_tok p 0 = (Star, 1)" "i < length q \<Longrightarrow> next_tok p (Suc i) = (Lit (q ! i), Suc (Suc i))"
    "next_tok p (Suc (length q)) = (Star, Suc (Suc (length q)))"
proof -
  have q: "c \<in> set q \<Longrightarrow> c \<notin> {ch CHR ''*'', ch CHR ''?'', ch CHR ''['', ch CHR ''('', ch CHR 0x5C}" for c
    using assms(1) by (auto simp: plain_def)
  have nth: "p ! Suc i = (if i < length q then q ! i else ch CHR ''*'')" if "i \<le> length q" for i
    using that by (auto simp: p_def nth_append)
  have noparen: "p ! Suc i \<noteq> ch CHR ''(''" if "i \<le> length q" for i
    using nth [OF that] q [of "q ! i"] by (auto split: if_splits)
  have len: "length p = Suc (Suc (length q))" by (simp add: p_def)
  have eg: "ext_group p i = None" if "i \<le> Suc (length q)" for i
    using that noparen [of i] len by (auto simp: ext_group_def)
  have "p ! 1 \<noteq> ch CHR ''*''" using nth [of 0] q [of "q ! 0"] assms(2) by auto
  then show "next_tok p 0 = (Star, 1)" using eg [of 0] by (simp add: next_tok_def p_def)
  show "next_tok p (Suc i) = (Lit (q ! i), Suc (Suc i))" if "i < length q"
    using eg [of "Suc i"] nth [of i] q [of "q ! i"] that by (simp add: next_tok_def)
  show "next_tok p (Suc (length q)) = (Star, Suc (Suc (length q)))"
    using eg [of "Suc (length q)"] nth [of "length q"] len by (simp add: next_tok_def)
qed

lemma star_lang:
  assumes "plain q" "q \<noteq> []" "ch CHR ''/'' \<notin> set t"
  shows "glob_lang (str ''*'' @ q @ str ''*'') 0 t \<longleftrightarrow> sublist q t"
proof -
  let ?p = "str ''*'' @ q @ str ''*''"
  note tok = star_tokens [OF assms(1,2)]
  have len: "length ?p = Suc (Suc (length q))" by simp
  have last: "glob_lang ?p (Suc (length q)) v \<longleftrightarrow> ch CHR ''/'' \<notin> set v" for v
    by (subst glob_lang.simps) (simp only: len tok(3) prod.case, simp add: glob_lang.simps [of _ "Suc (Suc _)"])
  have mid: "glob_lang ?p (Suc i) v \<longleftrightarrow> (\<exists>w. v = drop i q @ w \<and> ch CHR ''/'' \<notin> set w)" if "i \<le> length q" for i v
    using that
  proof (induction "length q - i" arbitrary: i v)
    case 0
    then show ?case using last by simp
  next
    case (Suc n)
    then have i: "i < length q" by simp
    have "glob_lang ?p (Suc i) v \<longleftrightarrow> (\<exists>w. v = q ! i # w \<and> glob_lang ?p (Suc (Suc i)) w)"
      by (subst glob_lang.simps) (simp only: len tok(2) [OF i] prod.case, use i in auto)
    also have "\<dots> \<longleftrightarrow> (\<exists>w. v = q ! i # drop (Suc i) q @ w \<and> ch CHR ''/'' \<notin> set w)"
      using Suc.hyps(1) [of "Suc i"] Suc.hyps(2) i by auto
    finally show ?case using i by (simp add: Cons_nth_drop_Suc [symmetric])
  qed
  have "glob_lang ?p 0 t \<longleftrightarrow> (\<exists>u v. t = u @ v \<and> ch CHR ''/'' \<notin> set u \<and> glob_lang ?p (Suc 0) v)"
    by (subst glob_lang.simps) (simp only: len tok(1) prod.case, simp)
  also have "\<dots> \<longleftrightarrow> (\<exists>u w. t = u @ q @ w)"
    unfolding mid [OF le0] drop_0
  proof (intro iffI; elim exE conjE)
    show "\<exists>u v. t = u @ v \<and> ch CHR ''/'' \<notin> set u \<and> (\<exists>w. v = q @ w \<and> ch CHR ''/'' \<notin> set w)" if "t = u @ q @ w" for u w
      using assms(3) that by (intro exI [of _ u] exI [of _ "q @ w"]) auto
  qed blast
  finally show ?thesis by (auto simp: sublist_def)
qed

lemma sublist_replace_slash:
  assumes "SENTINEL \<notin> set q" "SENTINEL \<notin> set s"
  shows "sublist (replace_slash q) (replace_slash s) \<longleftrightarrow> sublist q s"
proof
  let ?undo = "map (\<lambda>c. if c = SENTINEL then ch CHR ''/'' else c)"
  have undo: "?undo (replace_slash x) = x" if "SENTINEL \<notin> set x" for x
    using that by (induction x) (auto simp: replace_slash_def SENTINEL_def)
  assume "sublist (replace_slash q) (replace_slash s)"
  then have "sublist (?undo (replace_slash q)) (?undo (replace_slash s))" by (rule map_mono_sublist)
  then show "sublist q s" by (simp only: undo assms not_False_eq_True)
qed (simp add: replace_slash_def map_mono_sublist)

lemma cmd_match_bare:
  assumes "\<not> has_glob_meta (trim pat)" and "trim pat \<noteq> []"
  shows "cmd_match pat s \<longleftrightarrow> glob_lang (str ''*'' @ replace_slash (trim pat) @ str ''*'') 0 (replace_slash s)"
proof -
  let ?q = "replace_slash (trim pat)"
  have w: "wrap_bare_as_substring (trim pat) = str ''*'' @ trim pat @ str ''*''"
    using assms by (simp add: wrap_bare_as_substring_def trim_trim)
  have r: "replace_slash (str ''*'' @ trim pat @ str ''*'') = str ''*'' @ ?q @ str ''*''"
    by (simp add: replace_slash_def)
  have "ch CHR ''{'' \<notin> set (str ''*'' @ ?q @ str ''*'')"
    using assms(1) by (auto simp: has_glob_meta_def replace_slash_def SENTINEL_def)
  from expand_braces_none [OF this] show ?thesis
    using assms(2) glob_m_lang [of 0 "replace_slash s"]
    by (simp only: cmd_match_def Let_def if_False textmatch_def w r globmatch_def match_pattern_def list_ex_iff list.set bex_simps simp_thms drop_0 le0)
qed

lemma paren_lang: "ch CHR ''/'' \<notin> set t \<Longrightarrow> glob_lang [42, 40, 120, 41, 42] 0 t"
proof -
  assume t: "ch CHR ''/'' \<notin> set t"
  let ?p = "[42, 40, 120, 41, 42] :: rtext"
  have "next_tok ?p 0 = (Ext 42 [[120]], 4)" "next_tok ?p 4 = (Star, 5)" by code_simp+
  moreover have "glob_lang ?p 4 t" using t calculation(2) by (simp add: glob_lang.simps [of _ 4] glob_lang.simps [of _ 5])
  ultimately show ?thesis
    by (subst glob_lang.simps) (simp add: ext_lang_def, rule exI [of _ "[]"], simp, rule exI [of _ "[]"], simp)
qed

text \<open>C38: A bare command pattern is a substring search, unless it contains a parenthesis or a backslash.
  When the trimmed pattern is nonempty and \<open>has_glob_meta\<close> is false of it (no star, question mark,
  bracket or brace), and it also has no opening parenthesis and no backslash, \<open>cmd_match\<close> accepts a
  command exactly when the trimmed pattern occurs in it, slashes included, as long as neither contains
  the reserved character the slash is exchanged for. The parenthesis is a real exception:
  \<open>has_glob_meta\<close> is false of \<open>(x)\<close> too, but the star put in front turns it into an extended group,
  and the pattern accepts every command.\<close>

theorem cmd_match_substring:
  "(\<not> has_glob_meta (trim pat) \<and> trim pat \<noteq> [] \<and> ch CHR ''('' \<notin> set (trim pat) \<and> ch CHR 0x5C \<notin> set (trim pat)
      \<and> SENTINEL \<notin> set (trim pat) \<and> SENTINEL \<notin> set s
      \<longrightarrow> (cmd_match pat s \<longleftrightarrow> sublist (trim pat) s))
    \<and> \<not> has_glob_meta (str ''(x)'') \<and> cmd_match (str ''(x)'') s"
proof -
  have slash: "ch CHR ''/'' \<notin> set (replace_slash s)" by (auto simp: replace_slash_def SENTINEL_def)
  have "cmd_match pat s \<longleftrightarrow> sublist (trim pat) s"
    if "\<not> has_glob_meta (trim pat)" "trim pat \<noteq> []" "ch CHR ''('' \<notin> set (trim pat)" "ch CHR 0x5C \<notin> set (trim pat)"
      "SENTINEL \<notin> set (trim pat)" "SENTINEL \<notin> set s"
  proof -
    have "plain (replace_slash (trim pat))" "replace_slash (trim pat) \<noteq> []"
      using that(1-4) by (auto simp: plain_def has_glob_meta_def replace_slash_def SENTINEL_def)
    from star_lang [OF this slash] show ?thesis
      using cmd_match_bare [OF that(1,2)] sublist_replace_slash [OF that(5,6)] by simp
  qed
  moreover have x: "trim (str ''(x)'') = str ''(x)''" by (simp add: trim_def trim_start_def is_whitespace_def)
  moreover have bare: "\<not> has_glob_meta (str ''(x)'')" by (simp add: has_glob_meta_def)
  moreover have "cmd_match (str ''(x)'') s"
    using cmd_match_bare [of "str ''(x)''" s, unfolded x, OF bare] paren_lang [OF slash] by (simp add: replace_slash_def)
  ultimately show ?thesis by blast
qed

theorem cmd_match_substring_witness:
  "cmd_match (str '' bin/ls '') (str ''PATH=/bin/ls x'') \<longleftrightarrow> sublist (str ''bin/ls'') (str ''PATH=/bin/ls x'')"
proof -
  have t: "trim (str '' bin/ls '') = str ''bin/ls''" by (simp add: trim_def trim_start_def is_whitespace_def)
  show ?thesis
    using cmd_match_substring [of "str '' bin/ls ''" "str ''PATH=/bin/ls x''", unfolded t]
    by (simp add: SENTINEL_def has_glob_meta_def)
qed

end
