(* ===== verification/Depot_Walk.thy ===== *)
theory Depot_Walk
  imports Stream_Bounds
begin

unbundle bit_operations_syntax

text \<open>
  The public forward cursor of \<open>chupa/depot/src/walk.rs\<close>: a buffer and a position, with slices borrowed
  from the buffer. The cursor a failed call leaves behind is not modelled; its callers give up. The
  nesting bound of \<open>walk_skip\<close> is one more than the rest of the input, as in the streaming algebra.
\<close>

record wnode =
  w_tombstone :: bool
  w_backdrop :: bool
  w_opaque :: bool
  w_blob :: "bytes option"
  w_child_count :: u64

record wcursor =
  w_buf :: bytes
  w_pos :: nat

definition walk_new :: "bytes \<Rightarrow> wcursor" where
  "walk_new b = \<lparr>w_buf = b, w_pos = 0\<rparr>"

definition walk_byte :: "wcursor \<Rightarrow> stream_stop + (u8 \<times> wcursor)" where
  "walk_byte c =
     (if w_pos c < length (w_buf c) then Inr (w_buf c ! w_pos c, c\<lparr>w_pos := w_pos c + 1\<rparr>) else Inl (Bad DTruncated))"

fun walk_varint_loop :: "nat list \<Rightarrow> u64 \<Rightarrow> wcursor \<Rightarrow> stream_stop + (u64 \<times> wcursor)" where
  "walk_varint_loop [] v c = Inl (Bad BadVarint)"
| "walk_varint_loop (shift # shifts) v c =
     res_bind (walk_byte c) (\<lambda>(b, c').
       let low = ucast (b AND 0x7f) in
       if shift = 63 \<and> low > 1 then Inl (Bad BadVarint)
       else
         let v' = v OR push_bit shift low in
         if b AND 0x80 = 0 then Inr (v', c') else walk_varint_loop shifts v' c')"

definition walk_varint :: "wcursor \<Rightarrow> stream_stop + (u64 \<times> wcursor)" where
  "walk_varint c = walk_varint_loop (map (\<lambda>i. 7 * i) [0..<10]) 0 c"

definition walk_take :: "u64 \<Rightarrow> wcursor \<Rightarrow> stream_stop + (bytes \<times> wcursor)" where
  "walk_take n c =
     (if unat n > length (w_buf c) - w_pos c then Inl (Bad (BadLength n))
      else Inr (take (unat n) (drop (w_pos c) (w_buf c)), c\<lparr>w_pos := w_pos c + unat n\<rparr>))"

definition walk_slice :: "wcursor \<Rightarrow> stream_stop + (bytes \<times> wcursor)" where
  "walk_slice c = res_bind (walk_varint c) (\<lambda>(n, c'). walk_take n c')"

fun walk_attrs :: "nat \<Rightarrow> wcursor \<Rightarrow> stream_stop + wcursor" where
  "walk_attrs 0 c = Inr c"
| "walk_attrs (Suc n) c =
     res_bind (walk_slice c) (\<lambda>(_, c1). res_bind (walk_slice c1) (\<lambda>(_, c2). walk_attrs n c2))"

definition walk_blob :: "u8 \<Rightarrow> wcursor \<Rightarrow> stream_stop + (bytes option \<times> wcursor)" where
  "walk_blob flags c =
     (let op = flags AND BLOB_MASK in
      if op = BLOB_KEEP then Inr (None, c)
      else if op = BLOB_SET then res_bind (walk_slice c) (\<lambda>(bs, c'). Inr (Some bs, c'))
      else if op = BLOB_REMOVE then Inr (None, c)
      else Inl (Bad (BadFlags flags)))"

definition walk_head_attrs :: "u8 \<Rightarrow> wcursor \<Rightarrow> stream_stop + wcursor" where
  "walk_head_attrs flags c =
     (if flags AND FLAG_ATTRS \<noteq> 0
      then res_bind (walk_varint c) (\<lambda>(count, c'). walk_attrs (unat count) c') else Inr c)"

definition walk_node :: "wcursor \<Rightarrow> stream_stop + (wnode \<times> wcursor)" where
  "walk_node c =
     res_bind (walk_byte c) (\<lambda>(flags, c1).
       if flags AND NOT KNOWN_FLAGS \<noteq> 0 then Inl (Bad (BadFlags flags))
       else if flags AND FLAG_TOMBSTONE \<noteq> 0
       then if flags \<noteq> FLAG_TOMBSTONE then Inl (Bad (BadFlags flags))
            else Inr (\<lparr>w_tombstone = True, w_backdrop = False, w_opaque = False, w_blob = None, w_child_count = 0\<rparr>, c1)
       else
         res_bind (walk_blob flags c1) (\<lambda>(blob, c2).
         res_bind (walk_head_attrs flags c2) (\<lambda>c3.
         res_bind (walk_varint c3) (\<lambda>(child_count, c4).
           Inr (\<lparr>w_tombstone = False, w_backdrop = flags AND FLAG_BACKDROP \<noteq> 0,
                 w_opaque = flags AND FLAG_OPAQUE \<noteq> 0, w_blob = blob, w_child_count = child_count\<rparr>, c4)))))"

definition walk_name :: "wcursor \<Rightarrow> stream_stop + (bytes \<times> wcursor)" where
  "walk_name c = walk_slice c"

fun walk_kids :: "(wcursor \<Rightarrow> stream_stop + wcursor) \<Rightarrow> nat \<Rightarrow> wcursor \<Rightarrow> stream_stop + wcursor" where
  "walk_kids skip 0 c = Inr c"
| "walk_kids skip (Suc n) c =
     res_bind (walk_name c) (\<lambda>(_, c1). res_bind (skip c1) (\<lambda>c2. walk_kids skip n c2))"

primrec walk_skip_go :: "nat \<Rightarrow> wcursor \<Rightarrow> stream_stop + wcursor" where
  "walk_skip_go 0 c = Inl SOutOfFuel"
| "walk_skip_go (Suc fuel) c =
     res_bind (walk_node c) (\<lambda>(n, c1). walk_kids (walk_skip_go fuel) (unat (w_child_count n)) c1)"

definition walk_skip :: "wcursor \<Rightarrow> stream_stop + wcursor" where
  "walk_skip c = walk_skip_go (Suc (length (w_buf c) - w_pos c)) c"

section \<open>Simulation by the streaming cursor\<close>

text \<open>A result of the walk against a result of the stream cursor over the same buffer: the same error, or
  related values and a position whose rest is the stream's rest.\<close>

definition sim :: "('b \<Rightarrow> 'a) \<Rightarrow> bytes \<Rightarrow> stream_stop + ('a \<times> wcursor) \<Rightarrow> stream_stop + ('b \<times> bytes) \<Rightarrow> bool" where
  "sim f buf x y \<longleftrightarrow> (case y of
     Inl e \<Rightarrow> x = Inl e
   | Inr (b, r) \<Rightarrow> \<exists>k \<le> length buf. r = drop k buf \<and> x = Inr (f b, \<lparr>w_buf = buf, w_pos = k\<rparr>))"

definition sim_pos :: "bytes \<Rightarrow> stream_stop + wcursor \<Rightarrow> stream_stop + bytes \<Rightarrow> bool" where
  "sim_pos buf x y \<longleftrightarrow> (case y of
     Inl e \<Rightarrow> x = Inl e
   | Inr r \<Rightarrow> \<exists>k \<le> length buf. r = drop k buf \<and> x = Inr \<lparr>w_buf = buf, w_pos = k\<rparr>)"

abbreviation at_pos :: "bytes \<Rightarrow> nat \<Rightarrow> wcursor" where
  "at_pos buf k \<equiv> \<lparr>w_buf = buf, w_pos = k\<rparr>"

lemma sim_Inl [simp]: "sim f buf (Inl e) (Inl e')  \<longleftrightarrow> e = e'"
  by (simp add: sim_def)

lemma sim_pos_Inl [simp]: "sim_pos buf (Inl e) (Inl e') \<longleftrightarrow> e = e'"
  by (simp add: sim_pos_def)

lemma sim_Inr: "k \<le> length buf \<Longrightarrow> f b = a \<Longrightarrow> sim f buf (Inr (a, at_pos buf k)) (Inr (b, drop k buf))"
  by (auto simp: sim_def)

lemma sim_cases:
  "sim f buf x y \<Longrightarrow> (\<exists>e. x = Inl e \<and> y = Inl e) \<or>
    (\<exists>b k. k \<le> length buf \<and> x = Inr (f b, at_pos buf k) \<and> y = Inr (b, drop k buf))"
  by (auto simp: sim_def split: sum.splits)

lemma sim_pos_cases:
  "sim_pos buf x y \<Longrightarrow> (\<exists>e. x = Inl e \<and> y = Inl e) \<or>
    (\<exists>k. k \<le> length buf \<and> x = Inr (at_pos buf k) \<and> y = Inr (drop k buf))"
  by (auto simp: sim_pos_def split: sum.splits)

lemma sim_if:
  "(P \<Longrightarrow> sim f buf x y) \<Longrightarrow> (\<not> P \<Longrightarrow> sim f buf x' y') \<Longrightarrow> sim f buf (if P then x else x') (if P then y else y')"
  by simp

lemma sim_bind:
  assumes "sim f buf x y" and "\<And>b k. k \<le> length buf \<Longrightarrow> sim g buf (F (f b, at_pos buf k)) (G (b, drop k buf))"
  shows "sim g buf (res_bind x F) (res_bind y G)"
  using sim_cases [OF assms(1)] assms(2) by auto

lemma sim_pos_bind:
  assumes "sim f buf x y" and "\<And>b k. k \<le> length buf \<Longrightarrow> sim_pos buf (F (f b, at_pos buf k)) (G (b, drop k buf))"
  shows "sim_pos buf (res_bind x F) (res_bind y G)"
  using sim_cases [OF assms(1)] assms(2) by auto

lemma sim_bind_pos:
  assumes "sim_pos buf x y" and "\<And>k. k \<le> length buf \<Longrightarrow> sim g buf (F (at_pos buf k)) (G (drop k buf))"
  shows "sim g buf (res_bind x F) (res_bind y G)"
  using sim_pos_cases [OF assms(1)] assms(2) by auto

lemma sim_pos_bind_pos:
  assumes "sim_pos buf x y" and "\<And>k. k \<le> length buf \<Longrightarrow> sim_pos buf (F (at_pos buf k)) (G (drop k buf))"
  shows "sim_pos buf (res_bind x F) (res_bind y G)"
  using sim_pos_cases [OF assms(1)] assms(2) by auto

lemma sim_byte: "k \<le> length buf \<Longrightarrow> sim (\<lambda>a. a) buf (walk_byte (at_pos buf k)) (cur_u8 (drop k buf))"
proof (cases "k < length buf")
  case True
  then have "drop k buf = buf ! k # drop (Suc k) buf" by (rule Cons_nth_drop_Suc [symmetric])
  then show ?thesis using True by (auto simp: walk_byte_def cur_u8_def sim_def)
qed (auto simp: walk_byte_def cur_u8_def sim_def)

lemma sim_varint_loop:
  "k \<le> length buf \<Longrightarrow> sim (\<lambda>a. a) buf (walk_varint_loop shifts v (at_pos buf k)) (cur_varint_loop shifts v (drop k buf))"
proof (induction shifts arbitrary: v k)
  case (Cons shift shifts)
  show ?case
    unfolding walk_varint_loop.simps cur_varint_loop.simps
    by (rule sim_bind [OF sim_byte [OF Cons.prems]]) (simp add: Let_def sim_Inr Cons.IH)
qed simp

lemma sim_varint: "k \<le> length buf \<Longrightarrow> sim (\<lambda>a. a) buf (walk_varint (at_pos buf k)) (cur_varint (drop k buf))"
  unfolding walk_varint_def cur_varint_def by (rule sim_varint_loop)

lemma sim_take: "k \<le> length buf \<Longrightarrow> sim (\<lambda>a. a) buf (walk_take n (at_pos buf k)) (cur_take n (drop k buf))"
  by (auto simp: walk_take_def cur_take_def sim_def add.commute intro!: exI [of _ "k + unat n"])

lemma sim_slice: "k \<le> length buf \<Longrightarrow> sim (\<lambda>a. a) buf (walk_slice (at_pos buf k)) (cur_slice (drop k buf))"
  unfolding walk_slice_def cur_slice_def by (rule sim_bind [OF sim_varint]) (simp_all add: sim_take)

lemma sim_pos_Inr [simp]: "k \<le> length buf \<Longrightarrow> sim_pos buf (Inr (at_pos buf k)) (Inr (drop k buf))"
  by (auto simp: sim_pos_def)

lemma sim_attrs: "k \<le> length buf \<Longrightarrow> sim_pos buf (walk_attrs n (at_pos buf k)) (skip_attrs n (drop k buf))"
proof (induction n arbitrary: k)
  case (Suc n)
  show ?case unfolding walk_attrs.simps skip_attrs.simps
    by (rule sim_pos_bind [OF sim_slice [OF Suc.prems]], simp,
        rule sim_pos_bind [OF sim_slice]) (simp_all add: Suc.IH)
qed simp

text \<open>What the walk shows of a head.\<close>

fun set_bytes :: "blob_op \<Rightarrow> bytes option" where
  "set_bytes (Set bs) = Some bs"
| "set_bytes _ = None"

definition node_of :: "head \<Rightarrow> wnode" where
  "node_of h = \<lparr>w_tombstone = h_tombstone h, w_backdrop = h_backdrop h, w_opaque = h_opaque h,
     w_blob = set_bytes (h_blob h), w_child_count = h_count h\<rparr>"

lemma sim_blob: "k \<le> length buf \<Longrightarrow> sim set_bytes buf (walk_blob flags (at_pos buf k)) (head_blob flags (drop k buf))"
  by (auto simp: walk_blob_def head_blob_def Let_def sim_Inr intro!: sim_bind [OF sim_slice])

lemma sim_head_attrs:
  assumes "k \<le> length buf"
  shows "sim_pos buf (walk_head_attrs flags (at_pos buf k)) (map_sum id snd (head_attrs flags (drop k buf)))"
proof -
  have m: "map_sum id snd (res_bind x G) = res_bind x (\<lambda>b. map_sum id snd (G b))"
    for x :: "stream_stop + 'x" and G :: "'x \<Rightarrow> stream_stop + (bytes option \<times> bytes)"
    by (cases x) simp_all
  have r: "res_bind x Inr = x" for x :: "stream_stop + bytes" by (cases x) simp_all
  show ?thesis
    using assms by (auto simp: walk_head_attrs_def head_attrs_def m r intro!: sim_pos_bind [OF sim_varint] sim_attrs)
qed

lemma res_bind_snd: "res_bind y (\<lambda>(a, r). H r) = res_bind (map_sum id snd y) H"
  by (cases y) auto

lemma sim_node:
  assumes "k \<le> length buf"
  shows "sim node_of buf (walk_node (at_pos buf k)) (read_head (drop k buf))"
proof -
  have tail: "sim node_of buf
      (res_bind (walk_head_attrs flags (at_pos buf j)) (\<lambda>c3.
        res_bind (walk_varint c3) (\<lambda>(child_count, c4).
          Inr (\<lparr>w_tombstone = False, w_backdrop = flags AND FLAG_BACKDROP \<noteq> 0,
                w_opaque = flags AND FLAG_OPAQUE \<noteq> 0, w_blob = set_bytes blob, w_child_count = child_count\<rparr>, c4))))
      (res_bind (head_attrs flags (drop j buf)) (\<lambda>(attrs, r3).
        res_bind (cur_varint r3) (\<lambda>(child_count, r4).
          Inr (\<lparr>h_tombstone = False, h_blob = blob, h_opaque = flags AND FLAG_OPAQUE \<noteq> 0,
                h_backdrop = flags AND FLAG_BACKDROP \<noteq> 0, h_attrs = attrs, h_count = child_count\<rparr>, r4))))"
    if j: "j \<le> length buf" for j flags blob
  proof (cases "head_attrs flags (drop j buf)")
    case (Inl e)
    then show ?thesis using sim_pos_cases [OF sim_head_attrs [OF j, of flags]] by auto
  next
    case (Inr ar)
    obtain a r where ar: "ar = (a, r)" by (cases ar)
    from Inr ar sim_pos_cases [OF sim_head_attrs [OF j, of flags]] obtain i where
      "i \<le> length buf" "r = drop i buf" "walk_head_attrs flags (at_pos buf j) = Inr (at_pos buf i)"
      by auto
    then show ?thesis
      unfolding Inr ar by (simp only: res_bind_Inr prod.case)
        (auto intro!: sim_bind [OF sim_varint] sim_Inr simp: node_of_def)
  qed
  show ?thesis
    unfolding walk_node_def read_head_def
  proof (rule sim_bind [OF sim_byte [OF assms]], goal_cases)
    case (1 flags j)
    have live: "sim node_of buf (res_bind (walk_blob flags (at_pos buf j)) W) (res_bind (head_blob flags (drop j buf)) H)"
      if "\<And>blob i. i \<le> length buf \<Longrightarrow> sim node_of buf (W (set_bytes blob, at_pos buf i)) (H (blob, drop i buf))" for W H
      by (rule sim_bind [OF sim_blob [OF 1]]) (rule that)
    show ?case
      unfolding prod.case
      by (intro sim_if live; (unfold prod.case)?; (rule sim_Inl [THEN iffD2] | rule tail | rule sim_Inr); simp add: node_of_def 1)
  qed
qed

lemma sim_skip: "k \<le> length buf \<Longrightarrow> sim_pos buf (walk_skip_go fuel (at_pos buf k)) (skip_go fuel (drop k buf))"
proof (induction fuel arbitrary: k)
  case (Suc fuel)
  note fuelIH = Suc.IH
  have kids: "j \<le> length buf \<Longrightarrow> sim_pos buf (walk_kids (walk_skip_go fuel) n (at_pos buf j)) (skip_kids (skip_go fuel) n (drop j buf))" for n j
  proof (induction n arbitrary: j)
    case (Suc n)
    show ?case unfolding walk_kids.simps skip_kids.simps walk_name_def
      by (rule sim_pos_bind [OF sim_slice [OF Suc.prems]], simp, rule sim_pos_bind_pos [OF fuelIH]) (simp_all add: Suc.IH)
  qed simp
  show ?case
    unfolding walk_skip_go.simps skip_go.simps
    by (rule sim_pos_bind [OF sim_node [OF Suc.prems]]) (simp add: node_of_def kids)
qed simp

section \<open>Bounds\<close>

definition moved :: "wcursor \<Rightarrow> wcursor \<Rightarrow> bool" where
  "moved c c' \<longleftrightarrow> w_buf c' = w_buf c \<and> w_pos c < w_pos c' \<and> w_pos c' \<le> length (w_buf c)"

definition borrowed :: "wcursor \<Rightarrow> wcursor \<Rightarrow> bytes \<Rightarrow> bool" where
  "borrowed c c' s \<longleftrightarrow> (\<exists>a. w_pos c \<le> a \<and> a + length s \<le> w_pos c' \<and> s = take (length s) (drop a (w_buf c)))"

lemma moved_trans: "moved c c1 \<Longrightarrow> moved c1 c2 \<Longrightarrow> moved c c2"
  by (simp add: moved_def)

lemma borrowed_later: "moved c c1 \<Longrightarrow> moved c2 c3 \<Longrightarrow> borrowed c1 c2 s \<Longrightarrow> borrowed c c3 s"
  unfolding borrowed_def by (erule exE, rule_tac x = a in exI) (simp add: moved_def)

lemma walk_byte_moved: "walk_byte c = Inr (b, c') \<Longrightarrow> moved c c'"
  by (auto simp: walk_byte_def moved_def split: if_splits)

lemma walk_varint_moved: "walk_varint c = Inr (v, c') \<Longrightarrow> moved c c'"
proof -
  have "walk_varint_loop shifts v c = Inr (w, c') \<Longrightarrow> moved c c'" for shifts v c w c'
  proof (induction shifts v c rule: walk_varint_loop.induct)
    case (2 shift shifts v c)
    then obtain b c1 where "walk_byte c = Inr (b, c1)" by (auto simp: res_bind_eq_Inr)
    with 2 walk_byte_moved [OF this] show ?case by (fastforce simp: Let_def intro: moved_trans split: if_splits)
  qed simp
  then show "walk_varint c = Inr (v, c') \<Longrightarrow> moved c c'" by (auto simp: walk_varint_def)
qed

lemma walk_slice_moved:
  assumes "walk_slice c = Inr (s, c')"
  shows "moved c c' \<and> borrowed c c' s"
proof -
  obtain n c1 where c1: "walk_varint c = Inr (n, c1)" "walk_take n c1 = Inr (s, c')"
    using assms by (auto simp: walk_slice_def res_bind_eq_Inr)
  have m: "moved c c1" by (rule walk_varint_moved [OF c1(1)])
  have t: "s = take (unat n) (drop (w_pos c1) (w_buf c1))" "c' = c1\<lparr>w_pos := w_pos c1 + unat n\<rparr>"
    "unat n \<le> length (w_buf c1) - w_pos c1"
    using c1(2) by (auto simp: walk_take_def split: if_splits)
  have "length s = unat n" using t by simp
  then show ?thesis using m t by (auto simp: moved_def borrowed_def intro!: exI [of _ "w_pos c1"])
qed

lemma walk_attrs_moved: "walk_attrs n c = Inr c' \<Longrightarrow> c' = c \<or> moved c c'"
proof (induction n arbitrary: c)
  case (Suc n)
  then obtain s1 c1 s2 c2 where c: "walk_slice c = Inr (s1, c1)" "walk_slice c1 = Inr (s2, c2)" "walk_attrs n c2 = Inr c'"
    by (auto simp: res_bind_eq_Inr)
  have "moved c c2" using walk_slice_moved [OF c(1)] walk_slice_moved [OF c(2)] moved_trans by blast
  then show ?case using Suc.IH [OF c(3)] moved_trans by blast
qed simp

lemma walk_blob_moved:
  "walk_blob flags c = Inr (blob, c') \<Longrightarrow> blob = None \<and> c' = c \<or> moved c c' \<and> (\<exists>s. blob = Some s \<and> borrowed c c' s)"
  by (auto simp: walk_blob_def Let_def res_bind_eq_Inr dest: walk_slice_moved split: if_splits)

lemma walk_head_attrs_moved:
  assumes "walk_head_attrs flags c = Inr c'"
  shows "c' = c \<or> moved c c'"
proof (cases "flags AND FLAG_ATTRS = 0")
  case False
  then obtain n c1 where c: "walk_varint c = Inr (n, c1)" "walk_attrs (unat n) c1 = Inr c'"
    using assms by (auto simp: walk_head_attrs_def res_bind_eq_Inr)
  show ?thesis using walk_attrs_moved [OF c(2)] walk_varint_moved [OF c(1)] moved_trans [of c c1 c'] by blast
qed (use assms in \<open>simp add: walk_head_attrs_def\<close>)

lemma walk_node_moved:
  assumes "walk_node c = Inr (n, c')"
  shows "moved c c' \<and> (case w_blob n of None \<Rightarrow> True | Some s \<Rightarrow> borrowed c c' s)"
proof -
  obtain flags c1 where c1: "walk_byte c = Inr (flags, c1)" using assms by (auto simp: walk_node_def res_bind_eq_Inr)
  note m1 = walk_byte_moved [OF c1]
  show ?thesis
  proof (cases "w_blob n = None \<and> c' = c1")
    case True
    then show ?thesis using m1 by simp
  next
    case False
    obtain blob c2 c3 v where c: "walk_blob flags c1 = Inr (blob, c2)" "walk_head_attrs flags c2 = Inr c3" "walk_varint c3 = Inr (v, c')"
      "w_blob n = blob"
      using assms False c1 by (auto simp: walk_node_def res_bind_eq_Inr split: if_splits)
    have m: "moved c2 c'"
      using walk_head_attrs_moved [OF c(2)] walk_varint_moved [OF c(3)] moved_trans [of c2 c3 c'] by blast
    from walk_blob_moved [OF c(1)] show ?thesis
    proof
      assume "blob = None \<and> c2 = c1"
      then show ?thesis using m moved_trans [OF m1, of c'] c(4) by simp
    next
      assume b: "moved c1 c2 \<and> (\<exists>s. blob = Some s \<and> borrowed c1 c2 s)"
      then show ?thesis using moved_trans [OF moved_trans [OF m1, of c2] m] borrowed_later [OF m1 m] c(4) by auto
    qed
  qed
qed

lemma walk_kids_moved:
  assumes "\<And>c c'. skip c = Inr c' \<Longrightarrow> moved c c'"
  shows "walk_kids skip n c = Inr c' \<Longrightarrow> c' = c \<or> moved c c'"
proof (induction n arbitrary: c)
  case (Suc n)
  then obtain s c1 c2 where c: "walk_slice c = Inr (s, c1)" "skip c1 = Inr c2" "walk_kids skip n c2 = Inr c'"
    by (auto simp: res_bind_eq_Inr walk_name_def)
  have "moved c c2" using walk_slice_moved [OF c(1)] assms [OF c(2)] moved_trans by blast
  then show ?case using Suc.IH [OF c(3)] moved_trans by blast
qed simp

lemma walk_skip_moved: "walk_skip_go fuel c = Inr c' \<Longrightarrow> moved c c'"
proof (induction fuel arbitrary: c c')
  case (Suc fuel)
  then obtain n c1 where "walk_node c = Inr (n, c1)" "walk_kids (walk_skip_go fuel) (unat (w_child_count n)) c1 = Inr c'"
    by (auto simp: res_bind_eq_Inr)
  then show ?case using walk_node_moved walk_kids_moved [OF Suc.IH] moved_trans by blast
qed simp

section \<open>Properties\<close>

text \<open>C26: The public cursor reads what the streaming algebra reads. At any position of any buffer, \<open>node\<close>
  returns the facets of the streaming head reader and \<open>skip\<close> passes exactly the bytes the streaming
  skip passes, and both fail with the same error where it fails.\<close>

theorem walk_is_stream_cursor:
  "walk_node \<lparr>w_buf = buf, w_pos = k\<rparr> =
     map_sum id (\<lambda>(h, r). (node_of h, \<lparr>w_buf = buf, w_pos = length buf - length r\<rparr>)) (read_head (drop k buf)) \<and>
   walk_skip \<lparr>w_buf = buf, w_pos = k\<rparr> =
     map_sum id (\<lambda>r. \<lparr>w_buf = buf, w_pos = length buf - length r\<rparr>) (skip_node (drop k buf))"
proof (cases "k \<le> length buf")
  case True
  have f: "walk_skip (at_pos buf k) = walk_skip_go (Suc (length (drop k buf))) (at_pos buf k)"
    by (simp add: walk_skip_def del: walk_skip_go.simps)
  have "walk_skip (at_pos buf k) = map_sum id (\<lambda>r. at_pos buf (length buf - length r)) (skip_node (drop k buf))"
    unfolding f skip_node_def
    using sim_pos_cases [OF sim_skip [OF True, of "Suc (length (drop k buf))"]]
    by (auto simp del: walk_skip_go.simps skip_go.simps)
  then show ?thesis using sim_cases [OF sim_node [OF True]] by auto
next
  case False
  then show ?thesis
    by (simp add: walk_node_def walk_skip_def walk_byte_def read_head_def skip_node_def cur_u8_def)
qed

text \<open>C27: The cursor stays inside its buffer. On any bytes, a call that returns leaves the cursor in the
  same buffer, strictly further and not past the end, and a name or a blob it hands out is a run of
  the buffer's bytes between the old position and the new one.\<close>

theorem walk_in_bounds:
  "(case walk_name c of Inl _ \<Rightarrow> True | Inr (s, c') \<Rightarrow> moved c c' \<and> borrowed c c' s) \<and>
   (case walk_node c of Inl _ \<Rightarrow> True | Inr (n, c') \<Rightarrow>
      moved c c' \<and> (case w_blob n of None \<Rightarrow> True | Some s \<Rightarrow> borrowed c c' s)) \<and>
   (case walk_skip c of Inl _ \<Rightarrow> True | Inr c' \<Rightarrow> moved c c')"
  using walk_slice_moved [of c] walk_node_moved [of c] walk_skip_moved [of _ c]
  by (auto simp: walk_name_def walk_skip_def simp del: walk_skip_go.simps split: sum.splits)

end
