(* ===== verification/Depot_Transport.thy ===== *)
theory Depot_Transport
  imports Depot_Codec
begin

unbundle bit_operations_syntax

text \<open>
  Moving layers between depots: the transfer loop of \<open>chupa/depot/src/variant.rs\<close> over any source and
  sink, and the stream variant of \<open>chupa/depot-stream/src/lib.rs\<close>, whose storage is a sequence of
  compressed canonical encodings. The \<open>zstd\<close> library is the parameter \<open>zstd\<close>. The writer appends to a
  byte vector; the reader gets its input in the nonempty chunks that successive \<open>read\<close> calls find.
  Failing input and output calls are not modelled. The \<open>transfer\<close> loop may run for ever on a source
  that does, so it is a partial function and not returning is \<open>None\<close>.
\<close>

section \<open>Transfer\<close>

datatype ('s, 'k) transfer_error = Source 's | Sink 'k

partial_function (option) transfer_loop :: "('src \<Rightarrow> ('e + layer option) \<times> 'src) \<Rightarrow> (layer \<Rightarrow> 'dst \<Rightarrow> ('f + unit) \<times> 'dst)
    \<Rightarrow> 'src \<Rightarrow> 'dst \<Rightarrow> u64 \<Rightarrow> ((('e, 'f) transfer_error + u64) \<times> 'src \<times> 'dst) option" where
  "transfer_loop nxt put src dst moved =
     (case nxt src of (res, src1) \<Rightarrow>
        case res of
          Inl e \<Rightarrow> Some (Inl (Source e), src1, dst)
        | Inr None \<Rightarrow> Some (Inr moved, src1, dst)
        | Inr (Some layer) \<Rightarrow>
            (case put layer dst of (res2, dst1) \<Rightarrow>
               case res2 of
                 Inl e \<Rightarrow> Some (Inl (Sink e), src1, dst1)
               | Inr _ \<Rightarrow> transfer_loop nxt put src1 dst1 (moved + 1)))"

definition transfer :: "('src \<Rightarrow> ('e + layer option) \<times> 'src) \<Rightarrow> (layer \<Rightarrow> 'dst \<Rightarrow> ('f + unit) \<times> 'dst)
    \<Rightarrow> 'src \<Rightarrow> 'dst \<Rightarrow> ((('e, 'f) transfer_error + u64) \<times> 'src \<times> 'dst) option" where
  "transfer nxt put src dst = transfer_loop nxt put src dst 0"

section \<open>The stream variant\<close>

datatype stream_error = Io string | Zstd string | Codec decode_error | FrameTruncated | BadFrame

record zstd =
  z_compress :: "bytes \<Rightarrow> bytes option \<Rightarrow> int \<Rightarrow> string + bytes"
  z_decompress :: "bytes \<Rightarrow> bytes option \<Rightarrow> nat \<Rightarrow> string + bytes"


definition decompress :: "zstd \<Rightarrow> bytes \<Rightarrow> bytes option \<Rightarrow> nat \<Rightarrow> stream_error + bytes" where
  "decompress z src prefix raw_len =
     res_bind (map_sum Zstd id (z_decompress z src prefix raw_len)) (\<lambda>out.
       if length out \<noteq> raw_len then Inl BadFrame else Inr out)"

definition u32_to_le :: "u32 \<Rightarrow> bytes" where
  "u32_to_le w = [ucast w, ucast (drop_bit 8 w), ucast (drop_bit 16 w), ucast (drop_bit 24 w)]"

definition u32_from_le :: "bytes \<Rightarrow> u32" where
  "u32_from_le bs = ucast (bs ! 0) OR push_bit 8 (ucast (bs ! 1)) OR push_bit 16 (ucast (bs ! 2)) OR push_bit 24 (ucast (bs ! 3))"

record stream_writer =
  sw_out :: bytes
  sw_prev :: "bytes option"
  sw_level :: int
  sw_written :: u64


definition bytes_written :: "stream_writer \<Rightarrow> u64" where
  "bytes_written w = sw_written w"



record stream_reader =
  sr_input :: "bytes list"
  sr_prev :: "bytes option"


text \<open>One \<open>read\<close> call into a buffer of \<open>n\<close> bytes: the next chunk, or as much of it as fits; nothing at the
  end of the input.\<close>

fun read_some :: "nat \<Rightarrow> bytes list \<Rightarrow> bytes \<times> bytes list" where
  "read_some n [] = ([], [])"
| "read_some n (c # cs) = (if length c \<le> n then (c, cs) else (take n c, drop n c # cs))"


function read_exact_opt :: "nat \<Rightarrow> bytes \<Rightarrow> bool \<Rightarrow> bytes list \<Rightarrow> (stream_error + bytes option) \<times> bytes list" where
  "read_exact_opt n filled at_boundary input =
     (if length filled < n then
        case read_some (n - length filled) input of (got, input') \<Rightarrow>
          if got = [] then
            (if filled = [] \<and> at_boundary then (Inr None, input') else (Inl FrameTruncated, input'))
          else read_exact_opt n (filled @ got) at_boundary input'
      else (Inr (Some filled), input))"
  by pat_completeness auto
termination
  by (relation "measure (\<lambda>(n, filled, _, _). n - length filled)") (auto simp flip: length_greater_0_conv)

declare read_exact_opt.simps [simp del]

definition next_layer :: "zstd \<Rightarrow> stream_reader \<Rightarrow> (stream_error + layer option) \<times> stream_reader" where
  "next_layer z r =
     (case read_exact_opt 8 [] True (sr_input r) of
        (Inl e, input) \<Rightarrow> (Inl e, r\<lparr>sr_input := input\<rparr>)
      | (Inr None, input) \<Rightarrow> (Inr None, r\<lparr>sr_input := input\<rparr>)
      | (Inr (Some head), input) \<Rightarrow>
          let raw_len = unat (u32_from_le (take 4 head)); zlen = unat (u32_from_le (drop 4 head)) in
          case read_exact_opt zlen [] False input of
            (Inl e, input2) \<Rightarrow> (Inl e, r\<lparr>sr_input := input2\<rparr>)
          | (Inr None, input2) \<Rightarrow> (Inl FrameTruncated, r\<lparr>sr_input := input2\<rparr>)
          | (Inr (Some frame), input2) \<Rightarrow>
              (case decompress z frame (sr_prev r) raw_len of
                 Inl e \<Rightarrow> (Inl e, r\<lparr>sr_input := input2\<rparr>)
               | Inr rec \<Rightarrow>
                   (case decode_layer rec of
                      Inl e \<Rightarrow> (Inl (Codec e), r\<lparr>sr_input := input2\<rparr>)
                    | Inr layer \<Rightarrow> (Inr (Some layer), r\<lparr>sr_input := input2, sr_prev := Some rec\<rparr>))))"

section \<open>Transfer from a source that ends\<close>

locale layer_source =
  fixes nxt :: "'src \<Rightarrow> ('e + layer option) \<times> 'src" and left :: "'src \<Rightarrow> nat"
  assumes progress: "nxt src = (Inr (Some layer), src') \<Longrightarrow> left src' < left src"
begin

lemma transfer_loop_returns: "\<exists>r. transfer_loop nxt put src dst moved = Some r"
proof (induction "left src" arbitrary: src dst moved rule: less_induct)
  case less
  have "\<exists>r. transfer_loop nxt put src1 dst1 moved1 = Some r" if "nxt src = (Inr (Some layer), src1)" for layer src1 dst1 moved1
    by (rule less [OF progress [OF that]])
  then show ?case
    by (subst transfer_loop.simps) (simp split: prod.split sum.split option.split)
qed

lemma transfer_returns: "\<exists>r. transfer nxt put src dst = Some r"
  unfolding transfer_def by (rule transfer_loop_returns)

end

section \<open>Reading in chunks\<close>




text \<open>Whatever the chunks, a successful read takes what it returns from the input.\<close>

lemma read_exact_opt_takes:
  "read_exact_opt n filled b input = (Inr (Some bs), input') \<Longrightarrow>
   length (concat input') + length bs = length (concat input) + length filled \<and> n \<le> length bs"
proof (induction n filled b input rule: read_exact_opt.induct)
  case (1 n filled b input)
  show ?case
  proof (cases "length filled < n")
    case True
    obtain got input1 where g: "read_some (n - length filled) input = (got, input1)" by fastforce
    have "length (concat input) = length got + length (concat input1)"
      using g by (cases input) (auto split: if_splits)
    moreover have "read_exact_opt n filled b input = (if got = [] then
        (if filled = [] \<and> b then (Inr None, input1) else (Inl FrameTruncated, input1))
        else read_exact_opt n (filled @ got) b input1)"
      using True by (subst read_exact_opt.simps) (simp add: g)
    ultimately show ?thesis using 1(1) [OF True g [symmetric]] 1(2) by (simp split: if_splits)
  next
    case False
    then show ?thesis using 1(2) by (subst (asm) read_exact_opt.simps) auto
  qed
qed

lemma next_layer_progress:
  assumes "next_layer z r = (Inr (Some layer), r')"
  shows "length (concat (sr_input r')) < length (concat (sr_input r))"
proof -
  obtain head input where h: "read_exact_opt 8 [] True (sr_input r) = (Inr (Some head), input)"
    using assms by (auto simp: next_layer_def split: prod.splits sum.splits option.splits)
  obtain frame input2 where f: "read_exact_opt (unat (u32_from_le (drop 4 head))) [] False input = (Inr (Some frame), input2)"
    "sr_input r' = input2"
    using assms h by (auto simp: next_layer_def Let_def split: prod.splits sum.splits option.splits)
  show ?thesis using read_exact_opt_takes [OF h] read_exact_opt_takes [OF f(1)] f(2) by simp
qed

interpretation stream_source: layer_source "next_layer z" "\<lambda>r. length (concat (sr_input r))" for z
  by unfold_locales (rule next_layer_progress)

section \<open>Writing and reading back\<close>








lemma length_u32_to_le [simp]: "length (u32_to_le w) = 4"
  by (simp add: u32_to_le_def)





section \<open>Readout\<close>

datatype readout_kind = Branch | Leaf

record readout_entry =
  re_kind :: readout_kind
  re_blob_len :: "u64 option"
  re_attrs :: attrs

datatype blob_content = Bytes bytes | File string

fun view_at :: "view \<Rightarrow> name list \<Rightarrow> view option" where
  "view_at v [] = Some v"
| "view_at v (n # ns) = (case bt_get (vchildren v) n of None \<Rightarrow> None | Some c \<Rightarrow> view_at c ns)"

definition view_entry :: "view \<Rightarrow> readout_entry" where
  "view_entry v =
     \<lparr>re_kind = (if vchildren v = [] then Leaf else Branch),
      re_blob_len = map_option (\<lambda>b. of_nat (length b)) (vblob v),
      re_attrs = vattrs v\<rparr>"

definition nest_view :: "view \<Rightarrow> name list \<Rightarrow> view" where
  "nest_view v prefix = fold (\<lambda>n v. View None [] (bt_insert n v [])) (rev prefix) v"

definition readout_nested :: "view \<Rightarrow> name list \<Rightarrow> view" where
  "readout_nested v prefix = nest_view v prefix"

definition readout_entry_at :: "view \<Rightarrow> name list \<Rightarrow> readout_entry option" where
  "readout_entry_at v at = map_option view_entry (view_at v at)"

definition readout_children :: "view \<Rightarrow> name list \<Rightarrow> name list" where
  "readout_children v at = (case view_at v at of Some w \<Rightarrow> map fst (vchildren w) | None \<Rightarrow> [])"

definition readout_blob :: "view \<Rightarrow> name list \<Rightarrow> blob_content option" where
  "readout_blob v at = (case view_at v at of None \<Rightarrow> None | Some w \<Rightarrow> map_option Bytes (vblob w))"

lemma nest_view_Cons: "nest_view v (n # ns) = View None [] [(n, nest_view v ns)]"
  by (simp add: nest_view_def)

lemma nest_view_Nil [simp]: "nest_view v [] = v"
  by (simp add: nest_view_def)

lemma view_at_nested:
  "view_at (nest_view v p) at =
     (if take (length p) at = p then view_at v (drop (length p) at)
      else if take (length at) p = at then Some (nest_view v (drop (length at) p)) else None)"
proof (induction p arbitrary: at)
  case (Cons n ns)
  then show ?case by (cases at) (auto simp: nest_view_Cons)
qed simp

section \<open>Properties\<close>




text \<open>C34: A transfer from a stream reader always returns. On any input bytes, with any compressor and into
  any sink, the loop ends: by the end of the stream, an error of the source or an error of the sink.\<close>

theorem stream_transfer_returns: "\<exists>result. transfer (next_layer z) put r dst = Some result"
  by (rule stream_source.transfer_returns)

text \<open>C35: A nested readout serves the tree under its prefix and nothing else. Below the prefix every entry,
  child list and blob is that of the tree; on the way to it stand branches without blob or attributes,
  each with one child; everywhere else there is nothing.\<close>

theorem readout_nested_serves:
  "(let r = readout_nested v p; at' = drop (length p) at in
    if take (length p) at = p
    then readout_entry_at r at = readout_entry_at v at' \<and> readout_children r at = readout_children v at' \<and>
         readout_blob r at = readout_blob v at'
    else if take (length at) p = at
    then readout_entry_at r at = Some \<lparr>re_kind = Branch, re_blob_len = None, re_attrs = []\<rparr> \<and>
         readout_children r at = [p ! length at] \<and> readout_blob r at = None
    else readout_entry_at r at = None \<and> readout_children r at = [] \<and> readout_blob r at = None)"
proof -
  have "drop (length at) p = p ! length at # drop (Suc (length at)) p" if "take (length p) at \<noteq> p" "take (length at) p = at"
    using that by (metis Cons_nth_drop_Suc linorder_not_less take_all)
  then show ?thesis
    by (auto simp: Let_def readout_nested_def readout_entry_at_def readout_children_def readout_blob_def
        view_at_nested nest_view_Cons view_entry_def)
qed

end
