(* ===== verification/Net_Names.thy ===== *)
theory Net_Names
  imports Rust_Text
begin

unbundle bit_operations_syntax

text \<open>
  The address plan and the synthetic name service of a networked box, \<open>engine/src/net/subnet.rs\<close> and
  \<open>engine/src/net/dns.rs\<close>. An address is its four octets. The mutex of the server serialises its calls,
  so a server state is a value and a call a step. The message library is a parameter: what a raw
  request asks, and the replies it builds.
\<close>

section \<open>Address plan\<close>

type_synonym ipv4 = "u8 list"

definition CLASS_E_PREFIX :: u8 where "CLASS_E_PREFIX = 0xF0"

record box_subnet =
  bs_id :: u16

text \<open>\<open>None\<close> is the panic of the assertion.\<close>

definition subnet_new :: "u16 \<Rightarrow> box_subnet option" where
  "subnet_new i = (if i < 4096 then Some \<lparr>bs_id = i\<rparr> else None)"

definition octets_prefix :: "box_subnet \<Rightarrow> u8 \<times> u8" where
  "octets_prefix s =
     (let hi = ucast (drop_bit 8 (bs_id s)) AND 0x0F; lo = ucast (bs_id s AND 0xff)
      in (CLASS_E_PREFIX OR hi, lo))"

definition gateway_ip :: "box_subnet \<Rightarrow> ipv4" where
  "gateway_ip s = (let (a, b) = octets_prefix s in [a, b, 0, 1])"

definition box_ip :: "box_subnet \<Rightarrow> ipv4" where
  "box_ip s = (let (a, b) = octets_prefix s in [a, b, 0, 2])"

definition netmask :: "box_subnet \<Rightarrow> ipv4" where
  "netmask s = [255, 255, 0, 0]"

definition box_prefix_len :: "box_subnet \<Rightarrow> u8" where
  "box_prefix_len s = 30"

definition synth_ip :: "box_subnet \<Rightarrow> u32 \<Rightarrow> ipv4 option" where
  "synth_ip s idx =
     (if idx \<ge> 65279 then None
      else let off = idx + 256; (a, b) = octets_prefix s
           in Some [a, b, ucast (drop_bit 8 off), ucast (off AND 0xff)])"

section \<open>Name service\<close>

record dns_state =
  by_domain :: "rtext \<rightharpoonup> ipv4"
  by_ip :: "ipv4 \<rightharpoonup> rtext"
  next_slot :: u32

record dns_server =
  d_subnet :: box_subnet
  d_state :: dns_state

definition dns_new :: "box_subnet \<Rightarrow> dns_server" where
  "dns_new s = \<lparr>d_subnet = s, d_state = \<lparr>by_domain = Map.empty, by_ip = Map.empty, next_slot = 0\<rparr>\<rparr>"

definition host_key :: "rtext \<Rightarrow> rtext" where
  "host_key host = to_ascii_lowercase (rev (dropWhile (\<lambda>c. c = ch CHR ''.'') (rev host)))"

definition alloc_for :: "dns_server \<Rightarrow> rtext \<Rightarrow> ipv4 option \<times> dns_server" where
  "alloc_for d host =
     (let host = host_key host; g = d_state d in
      case by_domain g host of
        Some ip \<Rightarrow> (Some ip, d)
      | None \<Rightarrow>
          (case synth_ip (d_subnet d) (next_slot g) of
             None \<Rightarrow> (None, d)
           | Some ip \<Rightarrow>
               (Some ip, d\<lparr>d_state := \<lparr>by_domain = (by_domain g)(host \<mapsto> ip), by_ip = (by_ip g)(ip \<mapsto> host),
                                        next_slot = next_slot g + 1\<rparr>\<rparr>)))"

definition host_for_ip :: "dns_server \<Rightarrow> ipv4 \<Rightarrow> rtext option" where
  "host_for_ip d ip = by_ip (d_state d) ip"

text \<open>A request is a question, if it parses and has one; the replies are built by the library and may fail.\<close>

datatype rtype = RA | RAAAA | ROther

record dns_lib =
  first_question :: "bytes \<Rightarrow> (rtext \<times> rtype) option"
  reply_address :: "bytes \<Rightarrow> ipv4 \<Rightarrow> bytes option"
  reply_empty :: "bytes \<Rightarrow> bytes option"
  reply_servfail :: "bytes \<Rightarrow> bytes option"

definition dns_handle :: "dns_lib \<Rightarrow> dns_server \<Rightarrow> bytes \<Rightarrow> bytes option \<times> dns_server" where
  "dns_handle lib d raw =
     (case first_question lib raw of
        None \<Rightarrow> (None, d)
      | Some (qname, qtype) \<Rightarrow>
          (case reply_empty lib raw of
             None \<Rightarrow> (None, d)
           | Some noerr \<Rightarrow>
               (case qtype of
                  RA \<Rightarrow>
                    (case alloc_for d qname of
                       (Some ip, d') \<Rightarrow> (reply_address lib raw ip, d')
                     | (None, d') \<Rightarrow> (Some noerr, d'))
                | RAAAA \<Rightarrow> (Some noerr, d)
                | ROther \<Rightarrow> (reply_servfail lib raw, d))))"

fun dns_run :: "dns_lib \<Rightarrow> dns_server \<Rightarrow> bytes list \<Rightarrow> dns_server" where
  "dns_run lib d [] = d"
| "dns_run lib d (raw # raws) = dns_run lib (snd (dns_handle lib d raw)) raws"

section \<open>Slots\<close>

text \<open>The slot an address stands for.\<close>

definition slot_of :: "ipv4 \<Rightarrow> nat" where
  "slot_of ip = 256 * unat (ip ! 2) + unat (ip ! 3)"

lemma synth_ip_slot:
  assumes "synth_ip s idx = Some ip"
  shows "slot_of ip = unat idx + 256" "ip ! 0 = fst (octets_prefix s)" "ip ! 1 = snd (octets_prefix s)" "length ip = 4"
    "idx < 65279"
proof -
  have i: "idx < 65279" using assms by (auto simp: synth_ip_def split: if_splits)
  then have n: "unat idx < 65279" by (simp add: word_less_nat_alt)
  then have off: "unat (idx + 256) = unat idx + 256" by (simp add: unat_word_ariths)
  have ip: "ip = [fst (octets_prefix s), snd (octets_prefix s), ucast (drop_bit 8 (idx + 256)), ucast ((idx + 256) AND 0xff)]"
    using assms i by (auto simp: synth_ip_def Let_def case_prod_unfold split: if_splits)
  have hi: "unat (ucast (drop_bit 8 (idx + 256)) :: u8) = (unat idx + 256) div 256"
  proof -
    have "unat (drop_bit 8 (idx + 256)) = (unat idx + 256) div 256"
      unfolding unsigned_drop_bit_eq using n off by (simp add: drop_bit_eq_div take_bit_eq_mod)
    moreover have "(unat idx + 256) div 256 < 256" using n by simp
    ultimately show ?thesis by (simp only: unsigned_ucast_eq take_bit_eq_mod) simp
  qed
  have lo: "unat (ucast ((idx + 256) AND 0xff) :: u8) = (unat idx + 256) mod 256"
  proof -
    have m: "(0xff :: u32) = mask 8" by (simp add: mask_eq_exp_minus_1)
    show ?thesis
      unfolding m take_bit_eq_mask [symmetric] unsigned_ucast_eq unsigned_take_bit_eq off by (simp add: take_bit_eq_mod)
  qed
  show "slot_of ip = unat idx + 256" 
    by (simp only: slot_of_def ip nth_Cons_numeral nth_Cons_Suc nth_Cons_0 numeral_2_eq_2 numeral_3_eq_3 hi lo mult_div_mod_eq)
  show "ip ! 0 = fst (octets_prefix s)" "ip ! 1 = snd (octets_prefix s)" "length ip = 4" by (simp_all add: ip)
  show "idx < 65279" by (rule i)
qed

text \<open>The pool is one address to a slot, and never one of the reserved row that holds gateway and box.\<close>

lemma synth_ip_inj:
  assumes "synth_ip s i = Some ip" "synth_ip s j = Some ip"
  shows "i = j"
  using synth_ip_slot(1) [OF assms(1)] synth_ip_slot(1) [OF assms(2)] by (simp add: word_unat_eq_iff)

lemma synth_ip_reserved:
  assumes "synth_ip s i = Some ip"
  shows "ip \<noteq> gateway_ip s" "ip \<noteq> box_ip s"
  using synth_ip_slot(1) [OF assms]
  by (auto simp: gateway_ip_def box_ip_def slot_of_def case_prod_unfold Let_def)

lemma synth_ip_range:
  assumes "synth_ip s i = Some ip"
  shows "ip ! 2 \<noteq> 0" "\<not> (ip ! 2 = 255 \<and> ip ! 3 = 255)"
proof -
  have "i < 65279" using assms by (auto simp: synth_ip_def split: if_splits)
  then have "256 \<le> slot_of ip" "slot_of ip < 65535" using synth_ip_slot(1) [OF assms] by (simp_all add: word_less_nat_alt)
  moreover have "unat (ip ! 3) < 256" using unsigned_less [of "ip ! 3"] by simp
  ultimately show "ip ! 2 \<noteq> 0" "\<not> (ip ! 2 = 255 \<and> ip ! 3 = 255)" by (auto simp: slot_of_def)
qed

lemma synth_ip_total: "idx < 65279 \<Longrightarrow> \<exists>ip. synth_ip s idx = Some ip"
  by (simp add: synth_ip_def Let_def case_prod_unfold not_le)

section \<open>Invariant\<close>

text \<open>
  The two tables are inverse to each other, and the addresses they hold are
  those of the slots below the counter, one name to a slot.
\<close>

definition dns_inv :: "dns_server \<Rightarrow> bool" where
  "dns_inv d \<longleftrightarrow>
     next_slot (d_state d) \<le> 65279 \<and>
     (\<forall>h ip. by_domain (d_state d) h = Some ip \<longleftrightarrow> by_ip (d_state d) ip = Some h) \<and>
     (\<forall>h ip. by_domain (d_state d) h = Some ip \<longrightarrow>
        (\<exists>i < next_slot (d_state d). synth_ip (d_subnet d) i = Some ip)) \<and>
     finite (dom (by_domain (d_state d))) \<and>
     card (dom (by_domain (d_state d))) = unat (next_slot (d_state d))"

lemma dns_invD:
  assumes "dns_inv d"
  shows "next_slot (d_state d) \<le> 65279"
    "by_domain (d_state d) h = Some ip \<longleftrightarrow> by_ip (d_state d) ip = Some h"
    "by_domain (d_state d) h = Some ip \<Longrightarrow> \<exists>i < next_slot (d_state d). synth_ip (d_subnet d) i = Some ip"
    "finite (dom (by_domain (d_state d)))"
    "card (dom (by_domain (d_state d))) = unat (next_slot (d_state d))"
  using assms by (simp_all add: dns_inv_def)

lemma dns_new_subnet [simp]: "d_subnet (dns_new s) = s"
  by (simp add: dns_new_def)

lemma dns_inv_new [simp]: "dns_inv (dns_new s)"
  by (simp add: dns_inv_def dns_new_def)

text \<open>An address of the next slot is new to both tables.\<close>

lemma next_slot_fresh:
  assumes "dns_inv d" "synth_ip (d_subnet d) (next_slot (d_state d)) = Some ip"
  shows "by_ip (d_state d) ip = None"
proof (rule ccontr)
  assume "by_ip (d_state d) ip \<noteq> None"
  then obtain h where "by_ip (d_state d) ip = Some h" by blast
  then have "by_domain (d_state d) h = Some ip" using dns_invD(2) [OF assms(1)] by blast
  then obtain i where "i < next_slot (d_state d)" "synth_ip (d_subnet d) i = Some ip"
    using dns_invD(3) [OF assms(1)] by blast
  then show False using synth_ip_inj [OF _ assms(2)] by blast
qed

lemma slot_succ: "(i :: u32) < 65279 \<Longrightarrow> unat (i + 1) = Suc (unat i)"
  by (simp add: word_less_nat_alt unat_word_ariths)

text \<open>The three ways an allocation ends.\<close>

lemma alloc_for_cases:
  obtains (known) ip where "by_domain (d_state d) (host_key h) = Some ip" "alloc_for d h = (Some ip, d)"
  | (full) "by_domain (d_state d) (host_key h) = None" "next_slot (d_state d) \<ge> 65279" "alloc_for d h = (None, d)"
  | (fresh) ip where "by_domain (d_state d) (host_key h) = None" "next_slot (d_state d) < 65279"
      "synth_ip (d_subnet d) (next_slot (d_state d)) = Some ip"
      "alloc_for d h =
         (Some ip, d\<lparr>d_state := \<lparr>by_domain = (by_domain (d_state d))(host_key h \<mapsto> ip),
                                by_ip = (by_ip (d_state d))(ip \<mapsto> host_key h),
                                next_slot = next_slot (d_state d) + 1\<rparr>\<rparr>)"
proof (cases "by_domain (d_state d) (host_key h)")
  case (Some ip)
  then show ?thesis using known by (simp add: alloc_for_def)
next
  case None
  show ?thesis
  proof (cases "next_slot (d_state d) < 65279")
    case True
    then obtain ip where "synth_ip (d_subnet d) (next_slot (d_state d)) = Some ip" using synth_ip_total by blast
    then show ?thesis using fresh None True by (simp add: alloc_for_def Let_def)
  next
    case False
    then show ?thesis using full None by (simp add: alloc_for_def synth_ip_def)
  qed
qed

lemma alloc_for_subnet [simp]: "d_subnet (snd (alloc_for d h)) = d_subnet d"
  by (cases rule: alloc_for_cases [of d h]) simp_all

lemma dns_inv_insert:
  assumes I: "dns_inv d" and new: "by_domain (d_state d) k = None"
    and lt: "next_slot (d_state d) < 65279" and ip: "synth_ip (d_subnet d) (next_slot (d_state d)) = Some ip"
  shows "dns_inv (d\<lparr>d_state := \<lparr>by_domain = (by_domain (d_state d))(k \<mapsto> ip),
           by_ip = (by_ip (d_state d))(ip \<mapsto> k), next_slot = next_slot (d_state d) + 1\<rparr>\<rparr>)"
proof -
  have s: "unat (next_slot (d_state d) + 1) = Suc (unat (next_slot (d_state d)))" by (rule slot_succ [OF lt])
  have le: "next_slot (d_state d) + 1 \<le> 65279" using lt s by (simp add: word_le_nat_alt word_less_nat_alt)
  have lt': "i < next_slot (d_state d) + 1 \<longleftrightarrow> i < next_slot (d_state d) \<or> i = next_slot (d_state d)" for i
    using s by (auto simp: word_less_nat_alt less_Suc_eq word_unat_eq_iff)
  have f: "by_ip (d_state d) ip = None" by (rule next_slot_fresh [OF I ip])
  have inverse: "((by_domain (d_state d))(k \<mapsto> ip)) h = Some a \<longleftrightarrow> ((by_ip (d_state d))(ip \<mapsto> k)) a = Some h" for h a
    using dns_invD(2) [OF I, of h a] new f by auto
  have slot: "\<exists>i < next_slot (d_state d) + 1. synth_ip (d_subnet d) i = Some a"
    if "((by_domain (d_state d))(k \<mapsto> ip)) h = Some a" for h a
    using that ip dns_invD(3) [OF I, of h a] by (auto simp: lt' split: if_splits)
  have "card (insert k (dom (by_domain (d_state d)))) = Suc (card (dom (by_domain (d_state d))))"
    using dns_invD(4) [OF I] new by (auto simp: card_insert_if)
  then show ?thesis using le inverse slot dns_invD(4,5) [OF I] s by (simp add: dns_inv_def)
qed

lemma dns_inv_alloc: "dns_inv d \<Longrightarrow> dns_inv (snd (alloc_for d h))"
  by (cases rule: alloc_for_cases [of d h]) (simp_all add: dns_inv_insert)

text \<open>A name keeps its address.\<close>

lemma alloc_for_keeps:
  "by_domain (d_state d) k = Some ip \<Longrightarrow> by_domain (d_state (snd (alloc_for d h))) k = Some ip"
  by (cases rule: alloc_for_cases [of d h]) auto

lemma dns_handle_state: "snd (dns_handle lib d raw) = d \<or> (\<exists>h. snd (dns_handle lib d raw) = snd (alloc_for d h))"
proof -
  have "snd (dns_handle lib d raw) \<in> {d} \<union> range (\<lambda>h. snd (alloc_for d h))"
    by (simp add: dns_handle_def split: option.split rtype.split prod.split) (metis rangeI snd_conv)
  then show ?thesis by auto
qed

lemma dns_run_inv: "dns_inv d \<Longrightarrow> dns_inv (dns_run lib d raws)"
proof (induction raws arbitrary: d)
  case (Cons r rs)
  have "dns_inv (snd (dns_handle lib d r))" using dns_handle_state [of lib d r] dns_inv_alloc [OF Cons.prems] Cons.prems by auto
  then show ?case using Cons.IH by simp
qed simp

lemma dns_run_keeps:
  "by_domain (d_state d) k = Some ip \<Longrightarrow> by_domain (d_state (dns_run lib d raws)) k = Some ip"
proof (induction raws arbitrary: d)
  case (Cons r rs)
  have "by_domain (d_state (snd (dns_handle lib d r))) k = Some ip"
    using dns_handle_state [of lib d r] alloc_for_keeps [OF Cons.prems] Cons.prems by auto
  then show ?case using Cons.IH by simp
qed simp

lemma dns_run_subnet [simp]: "d_subnet (dns_run lib d raws) = d_subnet d"
proof (induction raws arbitrary: d)
  case (Cons r rs)
  have "d_subnet (snd (dns_handle lib d r)) = d_subnet d" using dns_handle_state [of lib d r] by auto
  then show ?case using Cons.IH by simp
qed simp

lemma alloc_for_enters:
  "fst (alloc_for d h) = Some ip \<Longrightarrow> by_domain (d_state (snd (alloc_for d h))) (host_key h) = Some ip"
  by (cases rule: alloc_for_cases [of d h]) auto

section \<open>Names keep their addresses\<close>

text \<open>C21: The reverse lookup recovers the name. Take any history of requests, ask for the address of a host
  and get one, and let any further requests follow: the reverse lookup of that address still yields the
  host's name in lower case without trailing dots, a new question for any spelling of the name gets the
  same address. The address lies in the box's own subnet, outside the reserved row \<open>.0.*\<close> that holds the
  gateway's and the box's own address, and is not the broadcast address \<open>.255.255\<close>.
\<close>

theorem names_keep_addresses:
  assumes "alloc_for (dns_run lib (dns_new s) before) h = (Some ip, d)" "host_key h' = host_key h"
  shows "host_for_ip (dns_run lib d after) ip = Some (host_key h) \<and>
    alloc_for (dns_run lib d after) h' = (Some ip, dns_run lib d after) \<and>
    ip \<noteq> gateway_ip s \<and> ip \<noteq> box_ip s \<and>
    (ip ! 0, ip ! 1) = octets_prefix s \<and> ip ! 2 \<noteq> 0 \<and> \<not> (ip ! 2 = 255 \<and> ip ! 3 = 255)"
proof -
  have "dns_inv (snd (alloc_for (dns_run lib (dns_new s) before) h))"
    by (rule dns_inv_alloc [OF dns_run_inv [OF dns_inv_new]])
  then have I: "dns_inv (dns_run lib d after)" using assms(1) by (simp add: dns_run_inv)
  have sub: "d_subnet d = s"
    using alloc_for_subnet [of "dns_run lib (dns_new s) before" h] assms(1) by simp
  have k: "by_domain (d_state (dns_run lib d after)) (host_key h) = Some ip"
    using dns_run_keeps alloc_for_enters [of "dns_run lib (dns_new s) before" h ip] assms(1) by simp
  obtain i where i: "synth_ip s i = Some ip" using dns_invD(3) [OF I k] sub by auto
  show ?thesis
    using dns_invD(2) [OF I, THEN iffD1, OF k] k assms(2) synth_ip_reserved [OF i]
      synth_ip_range [OF i] synth_ip_slot(2,3) [OF i] by (simp add: host_for_ip_def alloc_for_def)
qed

text \<open>
  Witness: the library answers every request as a question for the host \<open>a\<close>; a question for \<open>B.\<close>
  follows one for \<open>a\<close>, and one for \<open>b\<close> a third.
\<close>

definition toy_lib :: dns_lib where
  "toy_lib = \<lparr>first_question = (\<lambda>raw. Some (str ''a'', RA)), reply_address = (\<lambda>raw ip. Some ip),
             reply_empty = (\<lambda>raw. Some []), reply_servfail = (\<lambda>raw. None)\<rparr>"

theorem names_keep_addresses_witness:
  "alloc_for (dns_run toy_lib (dns_new \<lparr>bs_id = 0x123\<rparr>) [[]]) (str ''B.'') =
     (Some [0xF1, 0x23, 1, 1], snd (alloc_for (dns_run toy_lib (dns_new \<lparr>bs_id = 0x123\<rparr>) [[]]) (str ''B.''))) \<and>
   host_for_ip (dns_run toy_lib (snd (alloc_for (dns_run toy_lib (dns_new \<lparr>bs_id = 0x123\<rparr>) [[]]) (str ''B.''))) [[]])
     [0xF1, 0x23, 1, 1] = Some (host_key (str ''B.''))"
proof -
  have a: "alloc_for (dns_run toy_lib (dns_new \<lparr>bs_id = 0x123\<rparr>) [[]]) (str ''B.'') =
     (Some [0xF1, 0x23, 1, 1], snd (alloc_for (dns_run toy_lib (dns_new \<lparr>bs_id = 0x123\<rparr>) [[]]) (str ''B.'')))"
    by (rule prod_eqI) (code_simp, simp)
  have b: "host_key (str ''b'') = host_key (str ''B.'')" by code_simp
  show ?thesis using a names_keep_addresses [OF a b, of "[[]]"] by (simp only: simp_thms)
qed

text \<open>The pool runs out only when every slot holds a name.\<close>

lemma alloc_fails_only_when_full:
  assumes "dns_inv d"
  shows "fst (alloc_for d h) = None \<longleftrightarrow>
     by_domain (d_state d) (host_key h) = None \<and> card (dom (by_domain (d_state d))) = 65279"
  using dns_invD(1,5) [OF assms]
  by (cases rule: alloc_for_cases [of d h]) (auto simp: word_le_nat_alt word_less_nat_alt)

end
