(* ===== verification/Net_Policy.thy ===== *)
theory Net_Policy
  imports Rules_Laws
begin

text \<open>
  The gate of a box's connections, \<open>engine/src/net/policy.rs\<close>: the same rules file as for paths, with
  the clauses resolved against a connection. The loop over the clauses is a second copy of the fold of
  \<open>rules.rs\<close>; the lemmas tie the two together.
\<close>

section \<open>Subject\<close>

record net_subject =
  ns_host :: rtext
  ns_port :: u16
  ns_scheme :: rtext
  ns_sni :: rtext
  ns_http_path :: rtext
  ns_http_method :: rtext
  ns_http_status :: rtext
  ns_proto :: rtext
  ns_box_name :: rtext
  ns_exe :: rtext
  ns_cwd :: rtext
  ns_arg :: rtext

text \<open>The decimal numeral \<open>to_string\<close> writes for an unsigned integer.\<close>

fun decimal :: "nat \<Rightarrow> rtext" where
  "decimal n = (if n < 10 then [ch CHR ''0'' + n] else decimal (n div 10) @ [ch CHR ''0'' + n mod 10])"

declare decimal.simps [simp del]

definition net_field :: "rtext \<Rightarrow> net_subject \<Rightarrow> rtext \<Rightarrow> rtext" where
  "net_field k s port_str =
     (if k = str ''host'' then ns_host s
      else if k = str ''port'' then port_str
      else if k = str ''scheme'' then ns_scheme s
      else if k = str ''sni'' then ns_sni s
      else if k = str ''http_path'' then ns_http_path s
      else if k = str ''http_method'' then ns_http_method s
      else if k = str ''http_status'' then ns_http_status s
      else if k = str ''proto'' then ns_proto s
      else if k = str ''box'' then ns_box_name s
      else if k = str ''exe'' then ns_exe s
      else if k = str ''cwd'' then ns_cwd s
      else if k = str ''arg'' then ns_arg s
      else [])"

section \<open>Decision\<close>

fun net_matches_loop :: "net_subject \<Rightarrow> rtext \<Rightarrow> clause list \<Rightarrow> bool \<Rightarrow> bool \<Rightarrow> bool" where
  "net_matches_loop subj port_str [] acc started = (started \<and> acc)"
| "net_matches_loop subj port_str (c # cs) acc started =
     (if \<not> c_enabled c then net_matches_loop subj port_str cs acc started
      else
        let v = net_field (kind (c_m c)) subj port_str;
            m = glob_match (pattern (c_m c)) v;
            m = (if c_negate c then \<not> m else m)
        in if \<not> started then net_matches_loop subj port_str cs m True
           else net_matches_loop subj port_str cs
                  (case c_join c of And \<Rightarrow> acc \<and> m | Or \<Rightarrow> acc \<or> m) started)"

definition net_matches :: "file_rule \<Rightarrow> net_subject \<Rightarrow> bool" where
  "net_matches rule subj = net_matches_loop subj (decimal (unat (ns_port subj))) (r_clauses rule) True False"

fun net_decide :: "file_rule list \<Rightarrow> net_subject \<Rightarrow> action" where
  "net_decide [] subj = Apply"
| "net_decide (r # rules) subj =
     (if net_matches r subj
      then (case r_action r of Apply \<Rightarrow> Apply | Discard \<Rightarrow> Discard | Passthrough \<Rightarrow> Apply | Ask \<Rightarrow> Ask)
      else net_decide rules subj)"

section \<open>One engine\<close>

text \<open>What a connection answers to one match, as the targets of \<open>rules.rs\<close> do.\<close>

definition net_match_one :: "net_subject \<Rightarrow> rmatch \<Rightarrow> bool" where
  "net_match_one subj m = glob_match (pattern m) (net_field (kind m) subj (decimal (unat (ns_port subj))))"

lemma net_matches_loop_fold:
  "net_matches_loop subj (decimal (unat (ns_port subj))) cs acc started =
     (case fold (clause_fold (net_match_one subj)) cs (if started then Some acc else None) of
        None \<Rightarrow> False | Some a \<Rightarrow> a)"
  by (induction cs arbitrary: acc started)
    (auto simp: clause_fold_def net_match_one_def Let_def split: join.split)

lemma net_matches_rule: "net_matches r subj = rule_matches (net_match_one subj) r"
  by (simp add: net_matches_def net_matches_loop_fold rule_matches_def eval_clauses_def)

lemma net_decide_find:
  "net_decide rules subj =
     (case List.find (rule_matches (net_match_one subj)) rules of
        None \<Rightarrow> Apply
      | Some r \<Rightarrow> if r_action r = Passthrough then Apply else r_action r)"
  by (induction rules) (auto simp: net_matches_rule split: action.split)

text \<open>C36: Connections are judged by the engine that judges paths. The decision is the action of the first
  rule the clause fold of the rules file accepts with the connection as its target, where passthrough
  counts as apply, and apply when no rule is accepted.
\<close>

theorem net_decide_unified:
  "net_decide rules subj =
     (case map_option r_action (List.find (rule_matches (net_match_one subj)) rules) of
        None \<Rightarrow> Apply
      | Some a \<Rightarrow> if a = Passthrough then Apply else a)"
  by (simp add: net_decide_find split: option.split)

section \<open>Rules about paths\<close>

lemma net_field_unknown: "k \<notin> set NET_KINDS \<Longrightarrow> net_field k s p = []"
  by (simp add: NET_KINDS_def net_field_def del: list.map)

text \<open>C37: Rules about files are blind to the connection, but not inert. A list of rules whose clauses all
  have kinds the network resolver does not know decides as if every pattern were held against the empty
  string, so alike for all connections: a pattern that takes the empty string, or a negated one that
  does not, fires on every connection.
\<close>

theorem file_rules_blind:
  assumes "\<forall>r \<in> set rules. \<forall>c \<in> set (r_clauses r). kind (c_m c) \<notin> set NET_KINDS"
  shows "net_decide rules subj =
     (case List.find (rule_matches (\<lambda>m. glob_match (pattern m) [])) rules of
        None \<Rightarrow> Apply
      | Some r \<Rightarrow> if r_action r = Passthrough then Apply else r_action r)"
proof -
  have "\<forall>r \<in> set rules. rule_matches (net_match_one subj) r = rule_matches (\<lambda>m. glob_match (pattern m) []) r"
  proof
    fix r assume "r \<in> set rules"
    then have "\<forall>c \<in> set (r_clauses r). net_match_one subj (c_m c) = glob_match (pattern (c_m c)) []"
      using assms by (simp add: net_match_one_def net_field_unknown)
    then show "rule_matches (net_match_one subj) r = rule_matches (\<lambda>m. glob_match (pattern m) []) r"
      unfolding rule_matches_def by (rule eval_clauses_cong)
  qed
  then have "List.find (rule_matches (net_match_one subj)) rules =
      List.find (rule_matches (\<lambda>m. glob_match (pattern m) [])) rules"
    by (intro find_cong) simp_all
  then show ?thesis by (simp only: net_decide_find)
qed

text \<open>Witness: the file rule \<open>discard *\<close>, as the parser reads it, denies a connection to port 443.\<close>

definition dial :: net_subject where
  "dial = \<lparr>ns_host = str ''a.b'', ns_port = 443, ns_scheme = str ''https'', ns_sni = [], ns_http_path = [],
           ns_http_method = [], ns_http_status = [], ns_proto = str ''tcp'', ns_box_name = [], ns_exe = [],
           ns_cwd = [], ns_arg = []\<rparr>"

definition discard_all :: file_rule where
  "discard_all = \<lparr>r_action = Discard, r_clauses =
     [\<lparr>c_m = \<lparr>kind = str ''path'', pattern = str ''*''\<rparr>, c_join = And, c_negate = False, c_enabled = True\<rparr>]\<rparr>"

lemma discard_all_parsed: "rule_parse (str ''discard *'') = Some discard_all"
  by (simp add: parse_defs discard_all_def)

lemma star_takes_nothing: "glob_match (str ''*'') []"
proof -
  have x: "expand_braces [42] = [[42]]" by (simp add: expand_braces.simps [of "[42]"] find_group.simps)
  have e: "glob_m [42] (Suc 0) [] 0" by (simp add: glob_m.simps [of "[42]" "Suc 0"])
  then have "glob_m [42] 0 [] 0" by (simp add: glob_m.simps [of "[42]" 0] ext_group_def ext_ops_def seg_end_def)
  then show ?thesis
    using x by (simp add: glob_match_def globmatch_def match_pattern_def trim_def trim_start_def is_whitespace_def)
qed

theorem file_rules_blind_witness:
  "rule_parse (str ''discard *'') = Some discard_all \<and> net_decide [discard_all] dial = Discard"
proof -
  have k: "\<forall>r \<in> set [discard_all]. \<forall>c \<in> set (r_clauses r). kind (c_m c) \<notin> set NET_KINDS"
    by (simp add: discard_all_def NET_KINDS_def)
  have m: "rule_matches (\<lambda>m. glob_match (pattern m) []) discard_all"
    using star_takes_nothing by (simp add: rule_matches_def discard_all_def eval_clauses_def clause_fold_def)
  show ?thesis using file_rules_blind [OF k, of dial] m discard_all_parsed by (simp add: discard_all_def)
qed

end
