(* ===== verification/Layer_Mirror.thy ===== *)
theory Layer_Mirror
  imports Rust_Text
begin

text \<open>
  The in-memory index of one captured layer, \<open>Entry\<close> and \<open>LayerMirror\<close> of \<open>engine/src/capture.rs\<close>: an
  exact-path table and, beside it, a table of the immediate children of each directory. The theory
  shows that the second table always lists what a scan of the first would. A hash map is a partial
  function, since no operation modelled here depends on its order. Signed 64-bit integers are \<open>int\<close>: the
  code only stores and compares them.
\<close>

section \<open>Data\<close>

datatype entry =
    File int u32
  | Dir u32 int bool bool
  | Symlink bytes
  | Special u32 u64
  | Whiteout
  | Hole

datatype child_state = CPresent | CWhiteout | CHole

record layer_mirror =
  lm_entries :: "rtext \<rightharpoonup> entry"
  lm_children :: "rtext \<rightharpoonup> (rtext \<times> child_state) list"

definition mirror_new :: layer_mirror where
  "mirror_new = \<lparr>lm_entries = Map.empty, lm_children = Map.empty\<rparr>"

section \<open>Operations\<close>

definition rsplit_once :: "rchar \<Rightarrow> rtext \<Rightarrow> (rtext \<times> rtext) option" where
  "rsplit_once c s = map_option (\<lambda>(b, a). (rev a, rev b)) (split_once c (rev s))"

definition parent_name :: "rtext \<Rightarrow> (rtext \<times> rtext) option" where
  "parent_name path =
     (if path = [] then None
      else Some (case rsplit_once (ch CHR ''/'') path of Some x \<Rightarrow> x | None \<Rightarrow> ([], path)))"

fun child_state_of :: "entry \<Rightarrow> child_state" where
  "child_state_of Whiteout = CWhiteout"
| "child_state_of Hole = CHole"
| "child_state_of _ = CPresent"

fun set_sibling :: "rtext \<Rightarrow> child_state \<Rightarrow> (rtext \<times> child_state) list \<Rightarrow> (rtext \<times> child_state) list" where
  "set_sibling name state [] = [(name, state)]"
| "set_sibling name state ((old_name, old_state) # siblings) =
     (if old_name = name then (old_name, state) # siblings
      else (old_name, old_state) # set_sibling name state siblings)"

definition mirror_insert :: "rtext \<Rightarrow> entry \<Rightarrow> layer_mirror \<Rightarrow> layer_mirror" where
  "mirror_insert path e m =
     (let m = (case parent_name path of
                 None \<Rightarrow> m
               | Some (parent, name) \<Rightarrow>
                   let siblings = (case lm_children m parent of None \<Rightarrow> [] | Some xs \<Rightarrow> xs)
                   in m\<lparr>lm_children := (lm_children m)(parent \<mapsto> set_sibling name (child_state_of e) siblings)\<rparr>)
      in m\<lparr>lm_entries := (lm_entries m)(path \<mapsto> e)\<rparr>)"

definition mirror_remove :: "rtext \<Rightarrow> layer_mirror \<Rightarrow> layer_mirror" where
  "mirror_remove path m =
     (let m = (case parent_name path of
                 None \<Rightarrow> m
               | Some (parent, name) \<Rightarrow>
                   (case lm_children m parent of
                      None \<Rightarrow> m
                    | Some siblings \<Rightarrow>
                        let siblings = filter (\<lambda>(old_name, _). old_name \<noteq> name) siblings
                        in if siblings = [] then m\<lparr>lm_children := (lm_children m)(parent := None)\<rparr>
                           else m\<lparr>lm_children := (lm_children m)(parent \<mapsto> siblings)\<rparr>))
      in m\<lparr>lm_entries := (lm_entries m)(path := None)\<rparr>)"

definition mirror_get :: "layer_mirror \<Rightarrow> rtext \<Rightarrow> entry option" where
  "mirror_get m path = lm_entries m path"

text \<open>What a caller of \<open>get_mut\<close> does with the entry it gets.\<close>

definition mirror_update :: "rtext \<Rightarrow> (entry \<Rightarrow> entry) \<Rightarrow> layer_mirror \<Rightarrow> layer_mirror" where
  "mirror_update path f m =
     (case lm_entries m path of
        None \<Rightarrow> m
      | Some e \<Rightarrow> m\<lparr>lm_entries := (lm_entries m)(path \<mapsto> f e)\<rparr>)"

definition names_in :: "child_state \<Rightarrow> (rtext \<times> child_state) list \<Rightarrow> rtext list" where
  "names_in st children = map fst (filter (\<lambda>(_, s). s = st) children)"

definition mirror_children_of :: "layer_mirror \<Rightarrow> rtext \<Rightarrow> rtext list \<times> rtext list \<times> rtext list" where
  "mirror_children_of m parent =
     (case lm_children m parent of
        None \<Rightarrow> ([], [], [])
      | Some children \<Rightarrow> (names_in CWhiteout children, names_in CPresent children, names_in CHole children))"

section \<open>Names\<close>

text \<open>A path relative to the root of the box does not start with a slash.\<close>

definition rel_ok :: "rtext \<Rightarrow> bool" where
  "rel_ok p \<longleftrightarrow> p = [] \<or> hd p \<noteq> ch CHR ''/''"

definition child_path :: "rtext \<Rightarrow> rtext \<Rightarrow> rtext" where
  "child_path parent name = (if parent = [] then name else parent @ ch CHR ''/'' # name)"

lemma split_once_Some: "split_once c s = Some (a, b) \<Longrightarrow> s = a @ c # b \<and> c \<notin> set a"
  by (induction s arbitrary: a) (auto split: if_splits)

lemma split_once_None: "split_once c s = None \<longleftrightarrow> c \<notin> set s"
  by (induction s) auto

lemma rsplit_once_Some: "rsplit_once c s = Some (a, b) \<Longrightarrow> s = a @ c # b \<and> c \<notin> set b"
proof -
  assume "rsplit_once c s = Some (a, b)"
  then have "split_once c (rev s) = Some (rev b, rev a)" by (auto simp: rsplit_once_def)
  from split_once_Some [OF this] show ?thesis by (metis append.assoc append_Cons append_Nil rev.simps(2) rev_append rev_rev_ident set_rev)
qed

lemma rsplit_once_None: "rsplit_once c s = None \<longleftrightarrow> c \<notin> set s"
  by (simp add: rsplit_once_def split_once_None)

lemma parent_name_None [simp]: "parent_name p = None \<longleftrightarrow> p = []"
  by (simp add: parent_name_def)

text \<open>The parent and the name of a relative path give the path back, so no two paths share them.\<close>

lemma parent_name_path:
  assumes "rel_ok p" "parent_name p = Some (q, n)"
  shows "p = child_path q n" "ch CHR ''/'' \<notin> set n"
proof -
  have "p \<noteq> []" using assms(2) by (auto simp: parent_name_def)
  have "p = child_path q n \<and> ch CHR ''/'' \<notin> set n"
  proof (cases "rsplit_once (ch CHR ''/'') p")
    case None
    then have "ch CHR ''/'' \<notin> set p" by (simp only: rsplit_once_None not_False_eq_True)
    moreover have "q = []" "n = p" using assms(2) None \<open>p \<noteq> []\<close> by (auto simp: parent_name_def)
    ultimately show ?thesis by (simp add: child_path_def)
  next
    case (Some x)
    then have x: "x = (q, n)" using assms(2) \<open>p \<noteq> []\<close> by (auto simp: parent_name_def)
    have "p = q @ ch CHR ''/'' # n \<and> ch CHR ''/'' \<notin> set n" using rsplit_once_Some Some x by blast
    moreover have "q \<noteq> []" using calculation assms(1) by (auto simp: rel_ok_def)
    ultimately show ?thesis by (simp add: child_path_def)
  qed
  then show "p = child_path q n" "ch CHR ''/'' \<notin> set n" by auto
qed

lemma parent_name_inj:
  "rel_ok p \<Longrightarrow> rel_ok p' \<Longrightarrow> parent_name p = Some x \<Longrightarrow> parent_name p' = Some x \<Longrightarrow> p = p'"
  by (metis parent_name_path(1) surj_pair)

section \<open>The index\<close>

definition lm_index :: "layer_mirror \<Rightarrow> rtext \<Rightarrow> rtext \<Rightarrow> child_state option" where
  "lm_index m parent name = Option.bind (lm_children m parent) (\<lambda>xs. map_of xs name)"

lemma map_of_set_sibling: "map_of (set_sibling n st xs) k = (if k = n then Some st else map_of xs k)"
  by (induction xs rule: set_sibling.induct) auto

lemma names_set_sibling: "fst ` set (set_sibling n st xs) = insert n (fst ` set xs)"
  by (induction n st xs rule: set_sibling.induct) auto

lemma distinct_set_sibling: "distinct (map fst xs) \<Longrightarrow> distinct (map fst (set_sibling n st xs))"
proof (induction n st xs rule: set_sibling.induct)
  case (2 n st o' os xs)
  then show ?case using names_set_sibling [of n st xs] by (auto simp flip: image_set)
qed simp

lemma set_sibling_nonempty [simp]: "set_sibling n st xs \<noteq> []"
  by (cases "(n, st, xs)" rule: set_sibling.cases) auto

lemma map_of_filter_ne: "map_of (filter (\<lambda>(a, _). a \<noteq> n) xs) k = (if k = n then None else map_of xs k)"
  by (induction xs) auto

lemma lm_index_insert:
  "lm_index (mirror_insert path e m) q n =
     (if parent_name path = Some (q, n) then Some (child_state_of e) else lm_index m q n)"
  by (auto simp: lm_index_def mirror_insert_def Let_def map_of_set_sibling split: option.split)

lemma lm_index_remove:
  "lm_index (mirror_remove path m) q n = (if parent_name path = Some (q, n) then None else lm_index m q n)"
proof (cases "parent_name path")
  case None
  then show ?thesis by (simp add: lm_index_def mirror_remove_def Let_def parent_name_def)
next
  case (Some x)
  obtain q' n' where x: "x = (q', n')" by (cases x)
  have f: "filter (\<lambda>(a, _). a \<noteq> n') xs = [] \<Longrightarrow> k \<noteq> n' \<Longrightarrow> map_of xs k = None" for xs :: "(rtext \<times> child_state) list" and k
    using map_of_filter_ne [of n' xs k] by simp
  show ?thesis
    using Some x f by (auto simp: lm_index_def mirror_remove_def Let_def map_of_filter_ne split: option.split)
qed

lemma lm_index_update [simp]: "lm_index (mirror_update path f m) q n = lm_index m q n"
  by (simp add: lm_index_def mirror_update_def split: option.split)

lemma lm_entries_insert [simp]: "lm_entries (mirror_insert path e m) = (lm_entries m)(path \<mapsto> e)"
  by (simp add: mirror_insert_def Let_def split: option.split)

lemma lm_entries_remove [simp]: "lm_entries (mirror_remove path m) = (lm_entries m)(path := None)"
  by (simp add: mirror_remove_def Let_def split: option.split)

lemma lm_entries_update: "lm_entries (mirror_update path f m) = (lm_entries m)(path := map_option f (lm_entries m path))"
  by (auto simp: mirror_update_def split: option.split)

text \<open>
  The index holds every path under its parent with its state and nothing else, no list of siblings is
  empty, and no name is listed twice.
\<close>

definition mirror_ok :: "layer_mirror \<Rightarrow> bool" where
  "mirror_ok m \<longleftrightarrow>
     (\<forall>p \<in> dom (lm_entries m). rel_ok p) \<and>
     (\<forall>q xs. lm_children m q = Some xs \<longrightarrow> xs \<noteq> [] \<and> distinct (map fst xs)) \<and>
     (\<forall>p q n. rel_ok p \<and> parent_name p = Some (q, n) \<longrightarrow>
        lm_index m q n = map_option child_state_of (lm_entries m p)) \<and>
     (\<forall>q n. lm_index m q n \<noteq> None \<longrightarrow> (\<exists>p. rel_ok p \<and> parent_name p = Some (q, n)))"

lemma mirror_okI:
  assumes "\<And>p. p \<in> dom (lm_entries m) \<Longrightarrow> rel_ok p"
    and "\<And>q xs. lm_children m q = Some xs \<Longrightarrow> xs \<noteq> [] \<and> distinct (map fst xs)"
    and "\<And>p q n. rel_ok p \<Longrightarrow> parent_name p = Some (q, n) \<Longrightarrow> lm_index m q n = map_option child_state_of (lm_entries m p)"
    and "\<And>q n. lm_index m q n \<noteq> None \<Longrightarrow> \<exists>p. rel_ok p \<and> parent_name p = Some (q, n)"
  shows "mirror_ok m"
  using assms unfolding mirror_ok_def by blast

lemma mirror_okD:
  assumes "mirror_ok m"
  shows "p \<in> dom (lm_entries m) \<Longrightarrow> rel_ok p"
    and "lm_children m q = Some xs \<Longrightarrow> xs \<noteq> [] \<and> distinct (map fst xs)"
    and "rel_ok p \<Longrightarrow> parent_name p = Some (q, n) \<Longrightarrow> lm_index m q n = map_option child_state_of (lm_entries m p)"
    and "lm_index m q n \<noteq> None \<Longrightarrow> \<exists>p. rel_ok p \<and> parent_name p = Some (q, n)"
  using assms unfolding mirror_ok_def by blast+

lemma mirror_ok_new [simp]: "mirror_ok mirror_new"
  by (rule mirror_okI) (auto simp: mirror_new_def lm_index_def)

lemma mirror_ok_insert:
  assumes m: "mirror_ok m" and p: "rel_ok path"
  shows "mirror_ok (mirror_insert path e m)"
proof (rule mirror_okI)
  show "rel_ok p'" if "p' \<in> dom (lm_entries (mirror_insert path e m))" for p'
    using that p mirror_okD(1) [OF m, of p'] by auto
  show "xs \<noteq> [] \<and> distinct (map fst xs)" if "lm_children (mirror_insert path e m) q = Some xs" for q xs
    using that mirror_okD(2) [OF m, of q]
    by (auto simp: mirror_insert_def Let_def distinct_set_sibling split: option.splits prod.splits if_splits)
  show "lm_index (mirror_insert path e m) q n = map_option child_state_of (lm_entries (mirror_insert path e m) p')"
    if "rel_ok p'" "parent_name p' = Some (q, n)" for p' q n
    using that mirror_okD(3) [OF m, of p' q n] parent_name_inj [OF p, of p' "(q, n)"]
    by (auto simp: lm_index_insert)
  show "\<exists>p. rel_ok p \<and> parent_name p = Some (q, n)" if "lm_index (mirror_insert path e m) q n \<noteq> None" for q n
    using that p mirror_okD(4) [OF m, of q n] by (auto simp: lm_index_insert split: if_splits)
qed

lemma mirror_ok_remove:
  assumes m: "mirror_ok m" and p: "rel_ok path"
  shows "mirror_ok (mirror_remove path m)"
proof (rule mirror_okI)
  show "rel_ok p'" if "p' \<in> dom (lm_entries (mirror_remove path m))" for p'
    using that mirror_okD(1) [OF m, of p'] by (auto split: if_splits)
  show "xs \<noteq> [] \<and> distinct (map fst xs)" if "lm_children (mirror_remove path m) q = Some xs" for q xs
    using that mirror_okD(2) [OF m, of q]
    by (auto simp: mirror_remove_def Let_def distinct_map_filter split: option.splits prod.splits if_splits)
  show "lm_index (mirror_remove path m) q n = map_option child_state_of (lm_entries (mirror_remove path m) p')"
    if "rel_ok p'" "parent_name p' = Some (q, n)" for p' q n
    using that mirror_okD(3) [OF m, of p' q n] parent_name_inj [OF p, of p' "(q, n)"]
    by (auto simp: lm_index_remove)
  show "\<exists>p. rel_ok p \<and> parent_name p = Some (q, n)" if "lm_index (mirror_remove path m) q n \<noteq> None" for q n
    using that mirror_okD(4) [OF m, of q n] by (auto simp: lm_index_remove split: if_splits)
qed

lemma mirror_ok_update:
  assumes m: "mirror_ok m" and f: "\<And>e. child_state_of (f e) = child_state_of e"
  shows "mirror_ok (mirror_update path f m)"
proof (rule mirror_okI)
  show "rel_ok p'" if "p' \<in> dom (lm_entries (mirror_update path f m))" for p'
    using that mirror_okD(1) [OF m, of p'] by (auto simp: lm_entries_update split: if_splits)
  show "xs \<noteq> [] \<and> distinct (map fst xs)" if "lm_children (mirror_update path f m) q = Some xs" for q xs
    using that mirror_okD(2) [OF m, of q] by (auto simp: mirror_update_def split: option.splits)
  show "lm_index (mirror_update path f m) q n = map_option child_state_of (lm_entries (mirror_update path f m) p')"
    if "rel_ok p'" "parent_name p' = Some (q, n)" for p' q n
    using that mirror_okD(3) [OF m, of p' q n] f by (simp add: lm_entries_update option.map_comp comp_def)
  show "\<exists>p. rel_ok p \<and> parent_name p = Some (q, n)" if "lm_index (mirror_update path f m) q n \<noteq> None" for q n
    using that mirror_okD(4) [OF m, of q n] by simp
qed

section \<open>The index answers as a scan would\<close>

datatype mirror_op = MInsert rtext entry | MRemove rtext | MSetMode rtext u32 | MSetMtime rtext int | MClear

fun entry_set_mode :: "u32 \<Rightarrow> entry \<Rightarrow> entry" where
  "entry_set_mode full_mode (File rowid mode) = File rowid full_mode"
| "entry_set_mode full_mode (Dir mode mtime_ns opaque rebased) = Dir full_mode mtime_ns opaque rebased"
| "entry_set_mode full_mode e = e"

fun entry_set_mtime :: "int \<Rightarrow> entry \<Rightarrow> entry" where
  "entry_set_mtime m (Dir mode mtime_ns opaque rebased) = Dir mode m opaque rebased"
| "entry_set_mtime m e = e"

lemma child_state_set_mode [simp]: "child_state_of (entry_set_mode md e) = child_state_of e"
  by (cases e) auto

lemma child_state_set_mtime [simp]: "child_state_of (entry_set_mtime t e) = child_state_of e"
  by (cases e) auto

fun mirror_step :: "layer_mirror \<Rightarrow> mirror_op \<Rightarrow> layer_mirror" where
  "mirror_step m (MInsert p e) = mirror_insert p e m"
| "mirror_step m (MRemove p) = mirror_remove p m"
| "mirror_step m (MSetMode p md) = mirror_update p (entry_set_mode md) m"
| "mirror_step m (MSetMtime p t) = mirror_update p (entry_set_mtime t) m"
| "mirror_step m MClear = mirror_new"

fun mirror_op_path :: "mirror_op \<Rightarrow> rtext" where
  "mirror_op_path (MInsert p e) = p"
| "mirror_op_path (MRemove p) = p"
| "mirror_op_path (MSetMode p md) = p"
| "mirror_op_path (MSetMtime p t) = p"
| "mirror_op_path MClear = []"

lemma mirror_step_ok: "mirror_ok m \<Longrightarrow> rel_ok (mirror_op_path op) \<Longrightarrow> mirror_ok (mirror_step m op)"
  by (cases op) (simp_all add: mirror_ok_insert mirror_ok_remove mirror_ok_update)

lemma mirror_run_ok:
  "mirror_ok m \<Longrightarrow> list_all (\<lambda>op. rel_ok (mirror_op_path op)) ops \<Longrightarrow> mirror_ok (foldl mirror_step m ops)"
  by (induction ops arbitrary: m) (simp_all add: mirror_step_ok)

text \<open>The names a scan of all recorded paths finds under a directory in a state.\<close>

definition scan_names :: "layer_mirror \<Rightarrow> rtext \<Rightarrow> child_state \<Rightarrow> rtext set" where
  "scan_names m parent st =
     {name. \<exists>p e. lm_entries m p = Some e \<and> parent_name p = Some (parent, name) \<and> child_state_of e = st}"

lemma set_names_in: "distinct (map fst xs) \<Longrightarrow> set (names_in st xs) = {n. map_of xs n = Some st}"
  by (auto simp: names_in_def image_iff)

lemma distinct_names_in: "distinct (map fst xs) \<Longrightarrow> distinct (names_in st xs)"
  by (simp add: names_in_def distinct_map_filter)

lemma index_is_scan:
  assumes "mirror_ok m"
  shows "{n. lm_index m parent n = Some st} = scan_names m parent st"
proof (rule set_eqI)
  fix n
  show "n \<in> {n. lm_index m parent n = Some st} \<longleftrightarrow> n \<in> scan_names m parent st"
  proof
    assume i: "n \<in> {n. lm_index m parent n = Some st}"
    then obtain p where p: "rel_ok p" "parent_name p = Some (parent, n)" using mirror_okD(4) [OF assms] by fastforce
    then show "n \<in> scan_names m parent st" using i mirror_okD(3) [OF assms p] by (auto simp: scan_names_def)
  next
    assume "n \<in> scan_names m parent st"
    then obtain p e where e: "lm_entries m p = Some e" "parent_name p = Some (parent, n)" "child_state_of e = st"
      by (auto simp: scan_names_def)
    then show "n \<in> {n. lm_index m parent n = Some st}"
      using mirror_okD(3) [OF assms _ e(2)] mirror_okD(1) [OF assms, of p] by auto
  qed
qed

lemma children_of_scan:
  assumes "mirror_ok m" "mirror_children_of m parent = (ws, ps, hs)"
  shows "set ws = scan_names m parent CWhiteout" "set ps = scan_names m parent CPresent"
    "set hs = scan_names m parent CHole" "distinct (ws @ ps @ hs)"
proof -
  have i: "set ws = {n. lm_index m parent n = Some CWhiteout} \<and> set ps = {n. lm_index m parent n = Some CPresent} \<and>
      set hs = {n. lm_index m parent n = Some CHole} \<and> distinct ws \<and> distinct ps \<and> distinct hs"
  proof (cases "lm_children m parent")
    case None
    then show ?thesis using assms(2) by (simp add: mirror_children_of_def lm_index_def)
  next
    case (Some xs)
    then have "distinct (map fst xs)" using mirror_okD(2) [OF assms(1)] by blast
    then show ?thesis
      using assms(2) Some by (auto simp: mirror_children_of_def lm_index_def set_names_in distinct_names_in)
  qed
  then show "distinct (ws @ ps @ hs)" by auto
  from i show "set ws = scan_names m parent CWhiteout" "set ps = scan_names m parent CPresent"
    "set hs = scan_names m parent CHole"
    by (simp_all only: index_is_scan [OF assms(1), of parent])
qed

text \<open>C22: The directory index answers as a scan of all paths would. After any operations on a fresh mirror
  with relative paths, the three lists of a directory hold exactly the names of the recorded paths
  directly below it that are whiteouts, present or holes, each name once.\<close>

theorem children_index_is_scan:
  assumes "list_all (\<lambda>op. rel_ok (mirror_op_path op)) ops" "m = foldl mirror_step mirror_new ops"
    "mirror_children_of m parent = (whiteouts, present, holes)"
  shows "set whiteouts = scan_names m parent CWhiteout \<and> set present = scan_names m parent CPresent \<and>
    set holes = scan_names m parent CHole \<and> distinct (whiteouts @ present @ holes)"
  using children_of_scan [OF _ assms(3)] mirror_run_ok [OF mirror_ok_new assms(1)] assms(2) by blast

theorem children_index_is_scan_witness:
  "let m = foldl mirror_step mirror_new [MInsert (str ''a/b'') (File 1 0), MInsert (str ''a'') (Dir 0 0 False False),
       MInsert (str ''a/c'') Whiteout, MInsert (str ''d'') Hole, MInsert (str ''a/b'') Hole] in
   mirror_children_of m (str ''a'') = ([str ''c''], [], [str ''b'']) \<and> scan_names m (str ''a'') CHole = {str ''b''}"
proof -
  define ops where "ops = [MInsert (str ''a/b'') (File 1 0), MInsert (str ''a'') (Dir 0 0 False False),
       MInsert (str ''a/c'') Whiteout, MInsert (str ''d'') Hole, MInsert (str ''a/b'') Hole]"
  have o: "list_all (\<lambda>op. rel_ok (mirror_op_path op)) ops" by (simp add: ops_def rel_ok_def)
  have c: "mirror_children_of (foldl mirror_step mirror_new ops) (str ''a'') = ([str ''c''], [], [str ''b''])"
    unfolding ops_def by code_simp
  show ?thesis using children_index_is_scan [OF o refl c] c by (simp add: ops_def)
qed

end
