(* ===== verification/Spec2Isabelle.thy ===== *)
theory Spec2Isabelle
  imports Wire_Value Frames Slip_Reaper Depot_Rotation Stream_State Stream_Bounds Sud_Wire Rules_Laws
    Depot_Walk Depot_Transport Net_Names Net_Policy Layer_Mirror
begin

text \<open>
  \<^bold>\<open>The program.\<close> Sarun runs commands in boxes. An engine process (\<open>engine/\<close>) gives each box a merged
  file system, captures what the box changes as a layer over its parents and the host, lets the user
  review and apply the changes, filters the network of the box and hands out job slots to its builds.
  The processes of a box talk to the engine over a byte protocol. Layers are values of a small
  algebra (\<open>chupa/depot\<close>) with a canonical encoding, so that they can be composed, compared, reordered
  and shipped. This development models the parts whose behaviour is decided by the code itself, and
  proves what each promises to the others.

  \<^bold>\<open>Conventions.\<close> A fallible function returns \<open>'e + 'a\<close>, with \<open>Inl\<close> the error and a panic as an error
  value; \<open>res_bind\<close> is the question mark operator. Bytes and fixed-width integers are words, so that
  arithmetic wraps as it does in a release build; a \<open>usize\<close> is a natural number with the checked
  additions written out. An ordered map is a strictly sorted association list (\<open>bt_insert\<close>, \<open>bt_get\<close>,
  \<open>bt_remove\<close>), a hash map a partial function. A string is the list of its Unicode scalar values. State
  is passed explicitly as a record. A loop is a recursive function with a termination proof; the one
  loop that may run forever, \<open>transfer\<close> over an arbitrary source, is a partial function into \<open>option\<close>.

  \<^bold>\<open>Theories.\<close>

  \<^descr> \<open>Sarun_Prelude\<close>: result type, checked arithmetic, ordered maps with the locale \<open>ordered_map\<close>.
  \<^descr> \<open>Wire\<close>, \<open>Wire_Value\<close> (\<open>engine/src/wire.rs\<close>; \<open>Environment\<close> of \<open>generated_wire.rs\<close>): atoms (\<open>put_atom\<close>,
    \<open>get_atom\<close>), compounds (\<open>put_many\<close>), and the implementations of the trait \<open>WireValue\<close>. The trait is
    the locale \<open>wire_value\<close>, the bounded map over two such types the locale \<open>wire_map\<close>. Shown: values read
    back under exactly the sufficient limits, the one-pass writer equals build-then-wrap, and a decoded
    environment is within the bounds of its schema.
  \<^descr> \<open>Frames\<close> (\<open>engine/src/frames.rs\<close>, reader loop of \<open>pty.rs\<close>): frames cut into any chunks are
    delivered exactly and in order; on arbitrary bytes the decoder stays inside its buffer and bound.
  \<^descr> \<open>Slip_Pool\<close> (\<open>Pool\<close> of \<open>engine/src/slippool.rs\<close>): job slots, their ledger and the queue of
    waiters. Shown for every run of calls: slips are conserved, nobody waits while one is free, each
    request is answered once, grants keep the order of requests, and reaping denies the waiters of a dead
    process and returns what it held. The locale \<open>slip_authority\<close> carries the step invariants to runs.
  \<^descr> \<open>Slip_Reaper\<close> (\<open>Reaper\<close> of the same file; \<open>acquire_jobserver\<close> of \<open>sarunfs/synthetic.rs\<close>): the watching
    threads interleaved at their locks as an inductive step relation. In every interleaving a dead
    process with slips is due to be reaped, and the reap gives them back.
  \<^descr> \<open>Depot_Model\<close>, \<open>Depot_Algebra\<close>, \<open>Depot_Laws\<close>, \<open>Depot_Holes\<close>, \<open>Depot_Rotation\<close>
    (\<open>chupa/depot/src/lib.rs\<close>): views, delta nodes, \<open>apply\<close>, \<open>compose\<close>, \<open>squash\<close>, \<open>diff\<close>, \<open>rotate\<close>. A view
    is read as the content it presents at each path (\<open>content\<close>) and a node as a function on contents (\<open>sem\<close>); the locale \<open>delta_algebra\<close> states the
    contract and the layers interpret it. Shown: composition acts in order, a diff applied to its base
    gives its target, the in-place overlay is the reference overlay. Composition is associative in
    content also where layers have holes, and both rotation laws follow for such layers: the promoted
    layer presents what parent and child presented together, the demoted one over it what the parent
    presented. These laws are about bytes and attributes at each path; the equality of whole trees that
    the documentation states for squashing and for rotation is refuted, an empty directory can remain.
  \<^descr> \<open>Depot_Codec\<close> (\<open>codec.rs\<close>): encoder and decoder of layers; round trip, and well-formedness of all
    that is accepted.
  \<^descr> \<open>Depot_Stream\<close>, \<open>Stream_Compose\<close>, \<open>Stream_State\<close>, \<open>Stream_Bounds\<close> (\<open>stream.rs\<close>): the same algebra
    over encoded bytes without building trees. Each streaming operation writes the encoding of what the
    tree operation returns, for canonical inputs. On arbitrary bytes each ends with output or a format error,
    unless a node on the walk claims more children than a vector can hold; when that node is the root of
    the first input and the second is live and no hole, the walk panics. The locale \<open>ruled_out\<close> carries
    both bounds through the walks.
  \<^descr> \<open>Depot_Walk\<close> (\<open>walk.rs\<close>): the public cursor, equal to the internal one and inside its buffer.
  \<^descr> \<open>Depot_Transport\<close> (\<open>variant.rs\<close>, \<open>chupa/depot-stream/src/lib.rs\<close>): transfer of layers from a source to
    a sink, the compressed stream as such a source and sink, and readout of a view. The locale
    \<open>layer_source\<close>, interpreted by the stream reader, gives the end of the transfer.
  \<^descr> \<open>Sud_Wire\<close> (\<open>engine/src/sudwire.rs\<close>): the trace of a box's processes, delta-encoded per stream. Round
    trip for interleaved streams in any chunks; on any bytes the cuts do not matter.
  \<^descr> \<open>Rust_Text\<close>, \<open>Glob_Groups\<close>, \<open>Glob\<close>, \<open>Glob_Language\<close> (\<open>engine/src/rules/glob.rs\<close>): brace expansion and
    the backtracking matcher, shown to decide the language a pattern denotes.
  \<^descr> \<open>Rules\<close>, \<open>Rules_Laws\<close> (\<open>engine/src/rules.rs\<close>): the rule file. Parsed rules are well formed, printed
    rules parse back when their path patterns are bare, a bare command pattern without parenthesis or
    backslash is a substring search, the kernel passthrough gate is the decision of the path rules alone, and a
    decision depends on the process only where the rules ask for it.
  \<^descr> \<open>Net_Names\<close> (\<open>engine/src/net/subnet.rs\<close>, \<open>net/dns.rs\<close>): the addresses of a box and its name service; a
    name keeps its address and the address leads back to the name.
  \<^descr> \<open>Net_Policy\<close> (\<open>engine/src/net/policy.rs\<close>): the rule file applied to connections, shown to be the same
    clause fold, with the exact effect of rules about files.
  \<^descr> \<open>Layer_Mirror\<close> (\<open>LayerMirror\<close> of \<open>engine/src/capture.rs\<close>): the index of a captured layer; the listing
    of a directory is what a scan of all recorded paths gives.

  \<^bold>\<open>Bounds and fuel.\<close> The decoders of nested nodes (\<open>rd_node\<close>, the streaming walks, \<open>walk_skip\<close>) recurse on
  input that the types do not bound, so they take fuel and return an error of their own when it is
  spent. They are called with one more than the length of the input; every nested call has consumed a
  byte, so that error is never returned: \<open>Depot_Codec\<close> shows it for the decoder, \<open>Stream_Bounds\<close> for the
  streaming walks, and \<open>Depot_Walk\<close> for the cursor by its equality with the streaming one.

  \<^bold>\<open>Parameters.\<close> Code outside the repository is an argument of the definitions that call it: the wait
  status macros of libc, \<open>pidfd_open\<close> and \<open>epoll_ctl\<close>, the zstd library (with the hypothesis that
  decompression restores what was compressed, which an identity compressor satisfies), the DNS message
  library, the identity of allocations in \<open>diff\<close>, and the contents of the rules file.

  \<^bold>\<open>Not modelled.\<close> The file system calls and their transports, the database behind a captured layer, the
  control service, the network stack, the terminal interface, container images, the agent driver and
  the debugger support are input and output over kernel interfaces and third-party libraries. The
  request and reply structs of \<open>generated_wire.rs\<close> are generated calls of the modelled implementations.
  The resolution of a path through a chain of layers (\<open>sarunfs/layers.rs\<close>), the logic engine
  (\<open>prolog.rs\<close>) and the stores and wiki tools under \<open>chupa/\<close> could be modelled and are not. Failing reads
  and writes of the compressed stream, diagnostics, and the macOS variants are left out.
\<close>

end
